(* ===== verification/Prelude.thy ===== *)
theory Prelude
  imports Main "HOL-Library.Sublist"
begin

section \<open>Prelude: exceptions, byte strings and their searches\<close>

text \<open>
  The shared base of the development. It models what every component of yNet uses of the
  C++ standard library: the exceptions that can leave a function, \<^verbatim>\<open>std::string\<close>
  as a list of bytes with its searches (\<open>find\<close>, \<open>rfind\<close>,
  \<open>find_first_not_of\<close>, \<open>find_last_not_of\<close>) and its checked
  \<open>substr\<close>, arithmetic on \<^verbatim>\<open>size_t\<close>, and
  \<^verbatim>\<open>std::unordered_map\<close> with an explicit iteration order.
  A position of type \<^verbatim>\<open>size_t\<close> is a \<open>nat\<close>; the value
  \<open>npos\<close> of a failed search is \<open>None\<close>.
\<close>

named_theorems find_simps \<open>what a successful or failed search says of the string\<close>
named_theorems split_simps \<open>how a string falls apart at a separator\<close>

subsection \<open>Exceptions\<close>

text \<open>
  A C++ function that can throw returns a sum, with the exception on the left.
  \<open>Undefined_behaviour\<close> marks a step for which C++ gives no meaning (a read outside
  the object, a null dereference): it is a value of its own so that no theorem can
  hide it. \<open>Other_exception\<close> is a value that a program throws and that is not of a type
  derived from \<open>std::exception\<close>.
\<close>

datatype exn =
    Out_of_range
  | Invalid_argument
  | Runtime_error string
  | Bad_variant_access
  | Filesystem_error
  | Other_exception
  | Undefined_behaviour

type_synonym 'a result = "exn + 'a"

text \<open>What \<^verbatim>\<open>catch(std::exception&)\<close> catches.\<close>

fun caught :: "exn \<Rightarrow> bool" where
  "caught Other_exception \<longleftrightarrow> False"
| "caught Undefined_behaviour \<longleftrightarrow> False"
| "caught _ \<longleftrightarrow> True"

definition bind_result :: "'a result \<Rightarrow> ('a \<Rightarrow> 'b result) \<Rightarrow> 'b result" where
  "bind_result m f = (case m of Inl e \<Rightarrow> Inl e | Inr x \<Rightarrow> f x)"

lemma bind_result_simps [simp]:
  "bind_result (Inl e) f = Inl e"
  "bind_result (Inr x) f = f x"
  by (simp_all add: bind_result_def)

lemma bind_result_eq_Inr:
  "bind_result m f = Inr y \<longleftrightarrow> (\<exists>x. m = Inr x \<and> f x = Inr y)"
  by (cases m) auto


subsection \<open>Searching a string\<close>

text \<open>
  \<open>find_sub pat s\<close> is the least position at which \<open>pat\<close> occurs in \<open>s\<close>
  (an empty pattern occurs at every position up to the length), and
  \<open>find_from s pat pos\<close> is \<^verbatim>\<open>s.find(pat, pos)\<close>, which fails when
  \<open>pos\<close> is past the end. A search for one character searches a pattern of length 1.
\<close>

abbreviation crlf :: string where
  "crlf \<equiv> [CHR 0x0D, CHR 0x0A]"

fun find_sub :: "'a list \<Rightarrow> 'a list \<Rightarrow> nat option" where
  "find_sub pat [] = (if pat = [] then Some 0 else None)"
| "find_sub pat (c # cs) =
     (if prefix pat (c # cs) then Some 0 else map_option Suc (find_sub pat cs))"

definition find_from :: "'a list \<Rightarrow> 'a list \<Rightarrow> nat \<Rightarrow> nat option" where
  "find_from s pat pos =
     (if pos > length s then None else map_option ((+) pos) (find_sub pat (drop pos s)))"

lemma prefix_nth_eq:
  "prefix pat s \<longleftrightarrow> length pat \<le> length s \<and> take (length pat) s = pat"
  by (auto simp: prefix_def) (metis append_take_drop_id)

lemma prefix_append_iff:
  "prefix (xs @ ys) s \<longleftrightarrow> prefix xs s \<and> prefix ys (drop (length xs) s)"
proof (induction xs arbitrary: s)
  case (Cons x xs)
  then show ?case by (cases s) auto
qed simp

lemma find_sub_Some_iff:
  "find_sub pat s = Some i \<longleftrightarrow>
     i \<le> length s \<and> prefix pat (drop i s) \<and> (\<forall>j<i. \<not> prefix pat (drop j s))"
proof (induction pat s arbitrary: i rule: find_sub.induct)
  case (1 pat)
  then show ?case by auto
next
  case (2 pat c cs)
  show ?case
  proof (cases "prefix pat (c # cs)")
    case True
    then show ?thesis by (cases i) auto
  next
    case False
    with "2.IH" [OF this] show ?thesis
      by (cases i) (auto simp: less_Suc_eq_0_disj)
  qed
qed

lemma all_le_Suc_shift:
  "(\<forall>i \<le> Suc n. P i) \<longleftrightarrow> P 0 \<and> (\<forall>i \<le> n. P (Suc i))"
  by (metis Suc_le_mono le0 not0_implies_Suc)

lemma find_sub_None_iff:
  "find_sub pat s = None \<longleftrightarrow> (\<forall>i \<le> length s. \<not> prefix pat (drop i s))"
  by (induction pat s rule: find_sub.induct) (auto simp: all_le_Suc_shift)

lemma find_sub_bound: "find_sub pat s = Some i \<Longrightarrow> i + length pat \<le> length s"
  by (auto simp: find_sub_Some_iff dest: prefix_length_le)

lemma find_from_Some_iff:
  "find_from s pat pos = Some i \<longleftrightarrow>
     pos \<le> i \<and> i \<le> length s \<and> prefix pat (drop i s)
     \<and> (\<forall>j. pos \<le> j \<longrightarrow> j < i \<longrightarrow> \<not> prefix pat (drop j s))"
proof (cases "pos \<le> i \<and> pos \<le> length s")
  case True
  then obtain k where i: "i = pos + k" by (auto simp: le_iff_add)
  have shift: "(\<forall>j. pos \<le> j \<longrightarrow> j < k + pos \<longrightarrow> P j) \<longleftrightarrow> (\<forall>j<k. P (j + pos))" for P
    by (metis add_less_cancel_right add.commute le_add1 le_iff_add)
  show ?thesis
    using True by (auto simp: i find_from_def find_sub_Some_iff shift add.commute)
next
  case False
  then show ?thesis by (auto simp: find_from_def)
qed

lemma find_from_None_iff:
  "find_from s pat pos = None \<longleftrightarrow> (\<forall>i. pos \<le> i \<longrightarrow> i \<le> length s \<longrightarrow> \<not> prefix pat (drop i s))"
proof (cases "pos \<le> length s")
  case True
  have shift: "(\<forall>i. pos \<le> i \<longrightarrow> i \<le> length s \<longrightarrow> P i) \<longleftrightarrow> (\<forall>k \<le> length s - pos. P (pos + k))" for P
    using True by (metis le_add1 le_iff_add nat_add_left_cancel_le le_add_diff_inverse)
  show ?thesis
    using True by (auto simp: find_from_def find_sub_None_iff shift add.commute)
next
  case False
  then show ?thesis by (auto simp: find_from_def)
qed

lemma find_from_bounds:
  "find_from s pat pos = Some i \<Longrightarrow> pos \<le> i \<and> i + length pat \<le> length s"
  by (auto simp: find_from_Some_iff dest: prefix_length_le)


text \<open>Finding a pattern after text in which its first character does not occur.\<close>

lemma find_sub_here [find_simps]: "prefix pat s \<Longrightarrow> find_sub pat s = Some 0"
  by (cases s) auto

lemma find_sub_skip [find_simps]:
  "c \<notin> set xs \<Longrightarrow> find_sub (c # pat) (xs @ s) = map_option ((+) (length xs)) (find_sub (c # pat) s)"
  by (induction xs) (auto simp: option.map_comp o_def option.map_id0 [unfolded id_def] cong: option.map_cong)

lemma find_sub_notin [find_simps]: "c \<notin> set xs \<Longrightarrow> find_sub (c # pat) xs = None"
  by (induction xs) auto

lemma find_sub_missing: "x \<in> set pat \<Longrightarrow> x \<notin> set s \<Longrightarrow> find_sub pat s = None"
  by (auto simp: find_sub_None_iff dest!: set_mono_prefix in_set_dropD)

text \<open>
  Finding a separator after a chunk that does not hold it and whose last character it does
  not contain, so that no occurrence can straddle the end of the chunk.
\<close>

lemma find_sub_separator:
  assumes none: "find_sub sep chunk = None" and ne: "chunk \<noteq> []" and last: "last chunk \<notin> set sep"
  shows "find_sub sep (chunk @ sep @ rest) = Some (length chunk)"
proof -
  have "\<not> prefix sep (drop j chunk @ sep @ rest)" if j: "j < length chunk" for j
  proof
    assume pre: "prefix sep (drop j chunk @ sep @ rest)"
    have "prefix (drop j chunk) (drop j chunk @ sep @ rest)" by simp
    with pre have "prefix sep (drop j chunk) \<or> prefix (drop j chunk) sep"
      by (rule prefix_same_cases)
    moreover have "\<not> prefix sep (drop j chunk)"
      using none j by (auto simp: find_sub_None_iff)
    moreover have "last chunk \<in> set (drop j chunk)"
      using j by (metis last_drop last_in_set drop_eq_Nil not_le)
    ultimately show False using last set_mono_prefix by blast
  qed
  then show ?thesis by (auto simp: find_sub_Some_iff)
qed

text \<open>
  Searching past a character that the pattern can hold only at its end: nothing straddles it.
\<close>

lemma find_sub_past:
  assumes "find_sub pat (xs @ [x]) = None" and "x \<notin> set (butlast pat)"
  shows "find_sub pat (xs @ x # ys) = map_option ((+) (Suc (length xs))) (find_sub pat ys)"
  using assms(1)
proof (induction xs)
  case Nil
  then have "\<not> prefix pat (x # ys)"
    using assms(2) by (cases pat) (auto split: if_splits)
  then show ?case by simp
next
  case (Cons c xs)
  have "\<not> prefix pat (c # xs @ x # ys)"
  proof
    assume pre: "prefix pat (c # xs @ x # ys)"
    have "prefix (c # xs @ [x]) (c # xs @ x # ys)" by simp
    with pre consider "prefix pat (c # xs @ [x])" | "strict_prefix (c # xs @ [x]) pat"
      by (metis prefix_same_cases prefix_order.le_less)
    then show False
    proof cases
      case 1
      with Cons.prems show ?thesis by (simp split: if_splits)
    next
      case 2
      then obtain z zs where "pat = c # xs @ [x] @ z # zs"
        by (auto elim: strict_prefixE')
      with assms(2) show ?thesis by (simp add: butlast_append)
    qed
  qed
  with Cons show ?case
    by (auto simp: option.map_comp o_def split: if_splits)
qed

subsection \<open>Searching for one character\<close>

lemma prefix_single [simp]: "prefix [c] s \<longleftrightarrow> s \<noteq> [] \<and> hd s = c"
  by (cases s) auto

lemma find_sub_char_None [find_simps]: "find_sub [c] s = None \<longleftrightarrow> c \<notin> set s"
  by (induction s) auto

lemma find_sub_char_notin: "c \<notin> set s \<Longrightarrow> find_sub [c] s = None"
  by (simp add: find_sub_char_None)

lemma find_sub_char_append [simp]:
  "c \<notin> set xs \<Longrightarrow> find_sub [c] (xs @ c # ys) = Some (length xs)"
  by (induction xs) auto

lemma find_sub_char_SomeD:
  "find_sub [c] s = Some i \<Longrightarrow> s = take i s @ c # drop (Suc i) s \<and> c \<notin> set (take i s) \<and> i < length s"
  by (induction s arbitrary: i) (auto split: if_splits)

lemma find_from_char_SomeD:
  assumes "find_from s [c] pos = Some i"
  shows "pos \<le> i \<and> i < length s \<and> s ! i = c"
  using assms by (auto simp: find_from_Some_iff hd_drop_conv_nth)

lemma find_from_0 [simp]: "find_from s pat 0 = find_sub pat s"
  by (cases "find_sub pat s") (simp_all add: find_from_def)

text \<open>
  \<^verbatim>\<open>s.rfind(c)\<close>: the last position of a character. \<^verbatim>\<open>s.find_first_not_of(cs)\<close>
  and \<^verbatim>\<open>s.find_last_not_of(cs)\<close>: the first and the last position whose
  character is not one of \<open>cs\<close>.
\<close>

fun rfind_char :: "string \<Rightarrow> char \<Rightarrow> nat option" where
  "rfind_char [] c = None"
| "rfind_char (x # xs) c =
     (case rfind_char xs c of Some i \<Rightarrow> Some (Suc i) | None \<Rightarrow> if x = c then Some 0 else None)"

definition find_first_not_of :: "string \<Rightarrow> string \<Rightarrow> nat \<Rightarrow> nat option" where
  "find_first_not_of s cs pos =
     (let n = length (takeWhile (\<lambda>c. c \<in> set cs) (drop pos s))
      in if pos + n < length s then Some (pos + n) else None)"

definition find_last_not_of :: "string \<Rightarrow> string \<Rightarrow> nat option" where
  "find_last_not_of s cs =
     (let n = length (takeWhile (\<lambda>c. c \<in> set cs) (rev s))
      in if n < length s then Some (length s - n - 1) else None)"

lemma rfind_char_None_iff [find_simps]: "rfind_char s c = None \<longleftrightarrow> c \<notin> set s"
  by (induction s) (auto split: option.splits)

lemma rfind_char_append [simp]:
  "c \<notin> set ys \<Longrightarrow> rfind_char (xs @ c # ys) c = Some (length xs)"
proof (induction xs)
  case Nil
  then have "rfind_char ys c = None" by (simp add: rfind_char_None_iff)
  then show ?case by simp
qed auto

lemma length_takeWhile_less_iff:
  "length (takeWhile P s) < length s \<longleftrightarrow> (\<exists>x \<in> set s. \<not> P x)"
  by (induction s) auto

lemma find_first_not_of_0_None [find_simps]:
  "find_first_not_of s cs 0 = None \<longleftrightarrow> set s \<subseteq> set cs"
  by (auto simp: find_first_not_of_def Let_def length_takeWhile_less_iff)

lemma find_last_not_of_None [find_simps]:
  "find_last_not_of s cs = None \<longleftrightarrow> set s \<subseteq> set cs"
  using length_takeWhile_less_iff [of "\<lambda>c. c \<in> set cs" "rev s"]
  by (auto simp: find_last_not_of_def Let_def)

subsection \<open>Substrings\<close>

text \<open>
  \<open>substr s pos n\<close> is the range of a \<^verbatim>\<open>substr\<close> call whose start is inside
  the string by construction (0, or the result of a search); \<open>substr_at\<close> is the call
  with the check of the standard: it throws \<^verbatim>\<open>std::out_of_range\<close> when the start is past
  the end. A count of \<open>npos\<close> means up to the end and is written \<open>None\<close>.
\<close>

definition substr :: "'a list \<Rightarrow> nat \<Rightarrow> nat \<Rightarrow> 'a list" where
  "substr s pos n = take n (drop pos s)"

definition substr_at :: "'a list \<Rightarrow> nat \<Rightarrow> nat option \<Rightarrow> 'a list result" where
  "substr_at s pos n =
     (if pos > length s then Inl Out_of_range
      else Inr (case n of None \<Rightarrow> drop pos s | Some k \<Rightarrow> substr s pos k))"

lemma length_substr: "length (substr s pos n) = min n (length s - pos)"
  by (simp add: substr_def)

lemma set_substr: "set (substr s pos n) \<subseteq> set s"
  by (auto simp: substr_def dest!: in_set_takeD in_set_dropD)

lemma sublist_substr: "sublist (substr s pos n) s"
  unfolding substr_def by (rule sublist_order.order_trans [OF sublist_take sublist_drop])

text \<open>
  Subtraction on \<^verbatim>\<open>size_t\<close> wraps around at 2 to the 64, and so do additions.
\<close>

definition size_sub :: "nat \<Rightarrow> nat \<Rightarrow> nat" where
  "size_sub a b = (if b \<le> a then a - b else 2 ^ 64 - (b - a))"

definition size_add :: "nat \<Rightarrow> nat \<Rightarrow> nat" where
  "size_add a b = (a + b) mod 2 ^ 64"

lemma size_sub_le [simp]: "b \<le> a \<Longrightarrow> size_sub a b = a - b"
  by (simp add: size_sub_def)

lemma size_sub_wraps:
  assumes "a < 2 ^ 64" and "b < 2 ^ 64"
  shows "int (size_sub a b) = (int a - int b) mod 2 ^ 64"
proof (cases "b \<le> a")
  case True
  with assms show ?thesis by (simp add: size_sub_def)
next
  case False
  with assms have "(int a - int b) mod 2 ^ 64 = (int a - int b + 2 ^ 64) mod 2 ^ 64" by simp
  also have "\<dots> = int a - int b + 2 ^ 64" using False assms by (intro mod_pos_pos_trivial) auto
  finally show ?thesis using False assms by (simp add: size_sub_def)
qed

lemma size_add_small [simp]: "a + b < 2 ^ 64 \<Longrightarrow> size_add a b = a + b"
  by (simp add: size_add_def)


subsection \<open>Splitting at a separator\<close>

text \<open>
  The reference for the code's many \<open>find\<close>/\<open>substr\<close> loops over a separator:
  \<open>split_on c s\<close> is the list of the pieces between the occurrences of \<open>c\<close>, the
  empty ones included. \<open>find_from_split\<close> is the step all these loops share.
\<close>

fun split_on :: "'a \<Rightarrow> 'a list \<Rightarrow> 'a list list" where
  "split_on c [] = [[]]"
| "split_on c (x # xs) =
     (if x = c then [] # split_on c xs
      else (x # hd (split_on c xs)) # tl (split_on c xs))"

lemma split_on_not_Nil [simp]: "split_on c s \<noteq> []"
  by (cases s) auto

lemma split_on_notin [split_simps]: "c \<notin> set s \<Longrightarrow> split_on c s = [s]"
  by (induction s) auto

lemma split_on_append [split_simps]:
  "c \<notin> set xs \<Longrightarrow> split_on c (xs @ c # ys) = xs # split_on c ys"
  by (induction xs) auto

lemma split_on_pieces: "t \<in> set (split_on c s) \<Longrightarrow> c \<notin> set t"
proof (induction s arbitrary: t)
  case (Cons x xs)
  then show ?case
    by (cases "split_on c xs") (auto split: if_splits)
qed auto

lemma split_on_set: "t \<in> set (split_on c s) \<Longrightarrow> set t \<subseteq> set s"
proof (induction s arbitrary: t)
  case (Cons x xs)
  then show ?case
    by (cases "split_on c xs") (fastforce split: if_splits)+
qed auto

lemma split_on_sublist: "t \<in> set (split_on c s) \<Longrightarrow> sublist t s"
proof -
  have "prefix (hd (split_on c s)) s \<and> (\<forall>t \<in> set (split_on c s). sublist t s)"
  proof (induction s)
    case (Cons x xs)
    then show ?case
      by (cases "split_on c xs") (auto simp: sublist_Cons_right)
  qed simp
  then show "t \<in> set (split_on c s) \<Longrightarrow> sublist t s" by blast
qed

lemma length_split_on: "length (split_on c s) \<le> Suc (length s)"
proof (induction s)
  case (Cons x xs)
  then show ?case by (cases "split_on c xs") auto
qed auto

lemma find_from_split_None:
  "pos \<le> length s \<Longrightarrow> find_from s [c] pos = None \<Longrightarrow> split_on c (drop pos s) = [drop pos s]"
  by (intro split_on_notin) (simp add: find_from_def find_simps split: if_splits)

lemma find_from_split_Some:
  assumes "find_from s [c] pos = Some i"
  shows "split_on c (drop pos s) = substr s pos (i - pos) # split_on c (drop (Suc i) s)"
proof -
  from assms obtain k where k: "find_sub [c] (drop pos s) = Some k" "i = pos + k"
    by (auto simp: find_from_def split: if_splits)
  from find_sub_char_SomeD [OF k(1)]
  have eq: "drop pos s = take k (drop pos s) @ c # drop (Suc i) s"
    and nin: "c \<notin> set (take k (drop pos s))"
    by (simp_all add: k(2) add.commute)
  have "split_on c (drop pos s) = take k (drop pos s) # split_on c (drop (Suc i) s)"
    by (subst eq) (rule split_on_append [OF nin])
  then show ?thesis by (simp add: substr_def k(2))
qed

lemma find_from_char_less:
  "find_from s [c] pos = Some i \<Longrightarrow> length s - Suc i < length s - pos"
  by (drule find_from_char_SomeD) linarith

text \<open>
  The loops of the form \<^verbatim>\<open>while(pos < size)\<close> (and \<^verbatim>\<open>std::getline\<close>)
  do not see an empty piece after a last separator: they run over \<open>pieces c s\<close>.
\<close>

definition pieces :: "'a \<Rightarrow> 'a list \<Rightarrow> 'a list list" where
  "pieces c s = (let ts = split_on c s in if last ts = [] then butlast ts else ts)"

lemma pieces_Nil [simp]: "pieces c [] = []"
  by (simp add: pieces_def)

lemma pieces_notin [split_simps]: "c \<notin> set s \<Longrightarrow> pieces c s = (if s = [] then [] else [s])"
  by (simp add: pieces_def split_simps)

lemma pieces_append [split_simps]: "c \<notin> set xs \<Longrightarrow> pieces c (xs @ c # ys) = xs # pieces c ys"
  by (simp add: pieces_def split_simps Let_def)

lemma pieces_no_separator: "t \<in> set (pieces c s) \<Longrightarrow> c \<notin> set t"
  by (auto simp: pieces_def Let_def dest: in_set_butlastD split_on_pieces split: if_splits)

lemma find_from_pieces_None:
  assumes "pos < length s" and "find_from s [c] pos = None"
  shows "pieces c (drop pos s) = [drop pos s]"
  using find_from_split_None [of pos s c] assms by (simp add: pieces_def)

lemma find_from_pieces_Some:
  "find_from s [c] pos = Some i \<Longrightarrow>
   pieces c (drop pos s) = substr s pos (i - pos) # pieces c (drop (Suc i) s)"
  by (simp add: pieces_def Let_def find_from_split_Some)

lemma pieces_terminated:
  "\<forall>t \<in> set ts. c \<notin> set t \<Longrightarrow> pieces c (concat (map (\<lambda>t. t @ [c]) ts)) = ts"
  by (induction ts) (auto simp: pieces_append)

text \<open>Putting the pieces back together with a separator in front of each one.\<close>

definition join_with :: "'a \<Rightarrow> 'a list list \<Rightarrow> 'a list" where
  "join_with c ts = concat (map (\<lambda>t. c # t) ts)"

lemma join_with_simps [simp]:
  "join_with c [] = []"
  "join_with c (t # ts) = c # t @ join_with c ts"
  by (simp_all add: join_with_def)

lemma split_on_join_with:
  assumes "\<forall>t \<in> set ts. c \<notin> set t"
  shows "split_on c (join_with c ts) = [] # ts"
proof -
  have "split_on c (t @ join_with c ts) = t # ts" if "c \<notin> set t" for t
    using assms that
  proof (induction ts arbitrary: t)
    case Nil
    then show ?case by (simp add: split_simps)
  next
    case (Cons u us)
    then show ?case by (simp add: split_simps)
  qed
  from this [of "[]"] show ?thesis by simp
qed

lemma sublist_join_with:
  assumes "c \<notin> set pat" and "pat \<noteq> []" and "sublist pat (join_with c ts)"
  shows "\<exists>t \<in> set ts. sublist pat t"
  using assms(3)
proof (induction ts)
  case Nil
  with assms(2) show ?case by simp
next
  case (Cons t ts)
  have no_prefix: "pat' = []" if "prefix pat' (join_with c ts)" "c \<notin> set pat'" for pat'
    using that by (cases ts; cases pat') auto
  have "sublist pat (t @ join_with c ts)"
    using Cons.prems assms(1,2) by (auto simp: sublist_Cons_right prefix_Cons)
  then consider "sublist pat t" | "sublist pat (join_with c ts)"
    | xs1 xs2 where "pat = xs1 @ xs2" "suffix xs1 t" "prefix xs2 (join_with c ts)"
    by (auto simp: sublist_append)
  then show ?case
  proof cases
    case 3
    with assms(1) no_prefix [of xs2] have "pat = xs1" by simp
    with 3 show ?thesis by (auto dest: suffix_imp_sublist)
  qed (use Cons.IH in auto)
qed

lemma set_join_with: "x \<in> set (join_with c ts) \<Longrightarrow> x = c \<or> (\<exists>t \<in> set ts. x \<in> set t)"
  by (induction ts) auto

lemma join_with_Nil_iff [simp]: "join_with c ts = [] \<longleftrightarrow> ts = []"
  by (cases ts) auto

subsection \<open>Hash maps and their iteration order\<close>

text \<open>
  A \<^verbatim>\<open>std::unordered_map\<close> is a map; a \<^verbatim>\<open>for\<close> loop over
  it visits every key once in an order the standard leaves open. The models of such loops
  take that order as an argument, and \<open>iterates ks m\<close> says that \<open>ks\<close> is one of
  the possible orders for \<open>m\<close>.
\<close>

definition iterates :: "'k list \<Rightarrow> ('k \<rightharpoonup> 'v) \<Rightarrow> bool" where
  "iterates ks m \<longleftrightarrow> distinct ks \<and> set ks = dom m"

lemma iterates_finite: "iterates ks m \<Longrightarrow> finite (dom m)"
  by (metis iterates_def List.finite_set)

lemma iterates_exists: "finite (dom m) \<Longrightarrow> \<exists>ks. iterates ks m"
  by (metis iterates_def finite_distinct_list)

lemma iterates_length: "iterates ks m \<Longrightarrow> length ks = card (dom m)"
  by (metis iterates_def distinct_card)


subsection \<open>Codecs\<close>

text \<open>
  The interface shared by the pairs of an encoder and a decoder: decoding what was encoded
  gives it back. Encoders of this kind are injective, also on lists of values.
\<close>

locale codec =
  fixes enc :: "'a \<Rightarrow> 'b" and dec :: "'b \<Rightarrow> 'a"
  assumes dec_enc: "dec (enc x) = x"
begin

lemma enc_inject: "enc x = enc y \<longleftrightarrow> x = y"
  by (metis dec_enc)

lemma inj_enc: "inj enc"
  by (simp add: inj_def enc_inject)

lemma map_dec_enc: "map dec (map enc xs) = xs"
  by (simp add: o_def dec_enc)

end

subsection \<open>Transition systems\<close>

text \<open>
  The interface of the components that are step relations: an initial state, and an invariant
  that holds there and that every step keeps. It then holds in every state that can be reached.
\<close>

locale transition_system =
  fixes step :: "'s \<Rightarrow> 's \<Rightarrow> bool" and init :: "'s" and inv :: "'s \<Rightarrow> bool"
  assumes inv_init: "inv init" and inv_step: "step s t \<Longrightarrow> inv s \<Longrightarrow> inv t"
begin

lemma inv_reachable: "step\<^sup>*\<^sup>* init s \<Longrightarrow> inv s"
  by (induction rule: rtranclp_induct) (auto intro: inv_init inv_step)

lemma inv_from: "step\<^sup>*\<^sup>* s t \<Longrightarrow> inv s \<Longrightarrow> inv t"
  by (induction rule: rtranclp_induct) (auto intro: inv_step)

end

text \<open>Systems whose steps carry labels: runs with the list of their labels.\<close>

inductive run_of :: "('e \<Rightarrow> 's \<Rightarrow> 's \<Rightarrow> bool) \<Rightarrow> 's \<Rightarrow> 'e list \<Rightarrow> 's \<Rightarrow> bool" for step s0 where
  Start: "run_of step s0 [] s0"
| Step: "run_of step s0 es s \<Longrightarrow> step e s t \<Longrightarrow> run_of step s0 (es @ [e]) t"

lemma run_snoc: "run_of step s es t \<Longrightarrow> step e t u \<Longrightarrow> es' = es @ [e] \<Longrightarrow> run_of step s es' u"
  by (auto intro: run_of.Step)

lemma run_append:
  assumes "run_of step t ys u" and "run_of step s xs t"
  shows "run_of step s (xs @ ys) u"
  using assms
proof (induction)
  case (Step es u e v)
  from run_of.Step [OF Step.IH [OF Step.prems] Step.hyps(2)] show ?case by simp
qed simp

text \<open>An invariant of the steps with labels that are allowed is an invariant of such runs.\<close>

lemma run_invariant:
  assumes "run_of step s es t" and "list_all allowed es" and "P s"
    and "\<And>e u v. step e u v \<Longrightarrow> allowed e \<Longrightarrow> P u \<Longrightarrow> P v"
  shows "P t"
  using assms(1-3) by (induction) (auto intro: assms(4))

end
