(* ===== verification/Numbers.thy ===== *)
theory Numbers
  imports Prelude
begin

section \<open>Character classes and numeric conversions\<close>

text \<open>
  What the code uses of \<^verbatim>\<open>cctype\<close> (in the C locale), of \<^verbatim>\<open>std::to_string\<close>
  and of the family \<open>stoi\<close>, \<open>stoul\<close>, \<open>stoll\<close>, \<open>from_chars\<close>. The \<open>sto\<close> functions share
  the scanner of \<^verbatim>\<open>strtol\<close>: they skip white space, take an optional sign, an
  optional \<^verbatim>\<open>0x\<close> in base 16, then the longest run of digits, and ignore what
  follows. They throw \<open>invalid_argument\<close> without a digit and \<open>out_of_range\<close> when the value
  does not fit. The lemmas are the round trips between printing and scanning.
\<close>

named_theorems char_class \<open>unfolding of the character classes\<close>

abbreviation ord :: "char \<Rightarrow> nat" where
  "ord c \<equiv> of_char c"

definition is_digit :: "char \<Rightarrow> bool" where
  [char_class]: "is_digit c \<longleftrightarrow> 48 \<le> ord c \<and> ord c \<le> 57"

definition is_upper :: "char \<Rightarrow> bool" where
  [char_class]: "is_upper c \<longleftrightarrow> 65 \<le> ord c \<and> ord c \<le> 90"

definition is_lower :: "char \<Rightarrow> bool" where
  [char_class]: "is_lower c \<longleftrightarrow> 97 \<le> ord c \<and> ord c \<le> 122"

definition is_alnum :: "char \<Rightarrow> bool" where
  "is_alnum c \<longleftrightarrow> is_digit c \<or> is_upper c \<or> is_lower c"

definition is_space :: "char \<Rightarrow> bool" where
  [char_class]: "is_space c \<longleftrightarrow> ord c = 32 \<or> 9 \<le> ord c \<and> ord c \<le> 13"

text \<open>The value of a digit in a base up to 36, letters of either case counting from 10.\<close>

definition digit_val :: "nat \<Rightarrow> char \<Rightarrow> nat option" where
  "digit_val base c =
     (let d = if is_digit c then ord c - 48
              else if is_upper c then ord c - 55
              else if is_lower c then ord c - 87
              else base
      in if d < base then Some d else None)"

definition is_xdigit :: "char \<Rightarrow> bool" where
  "is_xdigit c \<longleftrightarrow> digit_val 16 c \<noteq> None"

subsection \<open>The scanner of strtol\<close>

fun take_digits :: "nat \<Rightarrow> string \<Rightarrow> nat list" where
  "take_digits base [] = []"
| "take_digits base (c # cs) =
     (case digit_val base c of Some d \<Rightarrow> d # take_digits base cs | None \<Rightarrow> [])"

definition of_digits :: "nat \<Rightarrow> nat list \<Rightarrow> nat" where
  "of_digits base = foldl (\<lambda>n d. n * base + d) 0"

definition skip_sign :: "string \<Rightarrow> bool \<times> string" where
  "skip_sign s =
     (case s of [] \<Rightarrow> (False, [])
      | c # cs \<Rightarrow> if c = CHR ''-'' then (True, cs) else if c = CHR ''+'' then (False, cs) else (False, s))"

definition skip_0x :: "nat \<Rightarrow> string \<Rightarrow> string" where
  "skip_0x base s =
     (case s of z # x # h # _ \<Rightarrow>
        if base = 16 \<and> z = CHR ''0'' \<and> (x = CHR ''x'' \<or> x = CHR ''X'') \<and> is_xdigit h
        then drop 2 s else s
      | _ \<Rightarrow> s)"

text \<open>Sign and magnitude of the number at the front of the string, if there is one.\<close>

definition strto :: "nat \<Rightarrow> string \<Rightarrow> (bool \<times> nat) option" where
  "strto base s =
     (let (neg, s1) = skip_sign (dropWhile is_space s);
          ds = take_digits base (skip_0x base s1)
      in if ds = [] then None else Some (neg, of_digits base ds))"

definition signed :: "bool \<times> nat \<Rightarrow> int" where
  "signed p = (if fst p then - int (snd p) else int (snd p))"

definition sto_signed :: "nat \<Rightarrow> nat \<Rightarrow> string \<Rightarrow> int result" where
  "sto_signed bits base s =
     (case strto base s of None \<Rightarrow> Inl Invalid_argument
      | Some p \<Rightarrow> if - (2 ^ (bits - 1)) \<le> signed p \<and> signed p < 2 ^ (bits - 1)
                  then Inr (signed p) else Inl Out_of_range)"

definition stoi :: "nat \<Rightarrow> string \<Rightarrow> int result" where
  "stoi = sto_signed 32"

definition stoll :: "nat \<Rightarrow> string \<Rightarrow> int result" where
  "stoll = sto_signed 64"

text \<open>
  The unsigned conversion accepts a minus sign and returns the negation modulo 2 to the 64,
  as \<^verbatim>\<open>strtoul\<close> does.
\<close>

definition stoul :: "nat \<Rightarrow> string \<Rightarrow> nat result" where
  "stoul base s =
     (case strto base s of None \<Rightarrow> Inl Invalid_argument
      | Some (neg, m) \<Rightarrow>
          if m \<ge> 2 ^ 64 then Inl Out_of_range
          else Inr (if neg then (2 ^ 64 - m) mod 2 ^ 64 else m))"

text \<open>
  \<^verbatim>\<open>std::from_chars\<close> for an unsigned type: no white space, no sign, no prefix.
\<close>

definition from_chars_size :: "string \<Rightarrow> nat result" where
  "from_chars_size s =
     (let ds = take_digits 10 s
      in if ds = [] then Inl Invalid_argument
         else if of_digits 10 ds \<ge> 2 ^ 64 then Inl Out_of_range
         else Inr (of_digits 10 ds))"

subsection \<open>Printing\<close>

definition digit_char :: "nat \<Rightarrow> char" where
  "digit_char d = char_of (48 + d)"

fun show_nat :: "nat \<Rightarrow> string" where
  "show_nat n = (if n < 10 then [digit_char n] else show_nat (n div 10) @ [digit_char (n mod 10)])"

declare show_nat.simps [simp del]

definition show_int :: "int \<Rightarrow> string" where
  "show_int i = (if i < 0 then CHR ''-'' # show_nat (nat (- i)) else show_nat (nat i))"

subsection \<open>Lemmas\<close>

lemma ord_char_of [simp]: "n < 256 \<Longrightarrow> ord (char_of n) = n"
  by simp

lemma digit_val_digit_char [simp]: "d < 10 \<Longrightarrow> digit_val 10 (digit_char d) = Some d"
  by (simp add: digit_val_def digit_char_def is_digit_def)

lemma digit_val_bound: "digit_val base c = Some d \<Longrightarrow> d < base"
  by (auto simp: digit_val_def Let_def split: if_splits)

lemma take_digits_all:
  "\<forall>c \<in> set s. digit_val base c \<noteq> None \<Longrightarrow> take_digits base s = map (\<lambda>c. the (digit_val base c)) s"
  by (induction s) auto

lemma take_digits_append:
  "\<forall>c \<in> set s. digit_val base c \<noteq> None \<Longrightarrow>
   take_digits base (s @ t) = map (\<lambda>c. the (digit_val base c)) s @ take_digits base t"
  by (induction s) auto

lemma of_digits_snoc [simp]: "of_digits base (ds @ [d]) = of_digits base ds * base + d"
  by (simp add: of_digits_def)

lemma of_digits_Nil [simp]: "of_digits base [] = 0"
  by (simp add: of_digits_def)

lemma show_nat_not_Nil [simp]: "show_nat n \<noteq> []"
  by (subst show_nat.simps) simp

lemma show_nat_digits: "c \<in> set (show_nat n) \<Longrightarrow> is_digit c"
proof (induction n rule: show_nat.induct)
  case (1 n)
  then show ?case
    by (cases "n < 10") (auto simp: show_nat.simps [of n] digit_char_def is_digit_def)
qed

lemma is_digit_val: "is_digit c \<Longrightarrow> digit_val 10 c \<noteq> None"
  by (auto simp: digit_val_def is_digit_def Let_def)

lemma of_digits_show_nat: "of_digits 10 (map (\<lambda>c. the (digit_val 10 c)) (show_nat n)) = n"
proof (induction n rule: show_nat.induct)
  case (1 n)
  show ?case
  proof (cases "n < 10")
    case True
    then show ?thesis by (simp add: show_nat.simps [of n] of_digits_def)
  next
    case False
    with "1.IH" show ?thesis by (simp add: show_nat.simps [of n])
  qed
qed

text \<open>Scanning a printed number that is followed by something other than a digit.\<close>

definition no_digit_first :: "string \<Rightarrow> bool" where
  "no_digit_first s \<longleftrightarrow> (case s of [] \<Rightarrow> True | c # _ \<Rightarrow> \<not> is_digit c)"

lemma digit_val_10: "digit_val 10 c = None \<longleftrightarrow> \<not> is_digit c"
  by (auto simp: digit_val_def char_class Let_def)

lemma take_digits_no_digit: "no_digit_first s \<Longrightarrow> take_digits 10 s = []"
  by (cases s) (auto simp: no_digit_first_def digit_val_10 [THEN iffD2])

lemma take_digits_show_nat:
  assumes "no_digit_first rest"
  shows "take_digits 10 (show_nat n @ rest) = map (\<lambda>c. the (digit_val 10 c)) (show_nat n)"
  using take_digits_append [of "show_nat n" 10 rest] show_nat_digits [of _ n]
  by (simp add: digit_val_10 take_digits_no_digit [OF assms])

lemma show_nat_hd: "is_digit (hd (show_nat n))"
  using show_nat_digits [of "hd (show_nat n)" n] by simp


lemma take_digits_not_Nil: "s \<noteq> [] \<Longrightarrow> is_digit (hd s) \<Longrightarrow> take_digits 10 s \<noteq> []"
  by (cases s) (auto simp: digit_val_10 split: option.splits dest: is_digit_val)

lemma digit_no_space: "is_digit c \<Longrightarrow> \<not> is_space c"
  by (auto simp: char_class)

lemma digit_no_sign: "is_digit c \<Longrightarrow> c \<noteq> CHR ''-'' \<and> c \<noteq> CHR ''+''"
  by (auto simp: char_class)

lemma skip_0x_10 [simp]: "skip_0x 10 s = s"
  by (auto simp: skip_0x_def split: list.splits)

lemma skip_sign_digit: "s \<noteq> [] \<Longrightarrow> is_digit (hd s) \<Longrightarrow> skip_sign s = (False, s)"
  by (cases s) (auto simp: skip_sign_def dest: digit_no_sign)

lemma strto_digit:
  assumes "s \<noteq> []" and "is_digit (hd s)"
  shows "strto 10 s = Some (False, of_digits 10 (take_digits 10 s))"
proof -
  from assms have "dropWhile is_space s = s" by (cases s) (auto dest: digit_no_space)
  then show ?thesis
    using take_digits_not_Nil [OF assms] by (simp add: strto_def skip_sign_digit [OF assms])
qed

lemma strto_show_nat:
  "no_digit_first rest \<Longrightarrow> strto 10 (show_nat n @ rest) = Some (False, n)"
  by (subst strto_digit) (simp_all add: show_nat_hd take_digits_show_nat of_digits_show_nat)

lemma no_digit_first_Nil [simp]: "no_digit_first []"
  by (simp add: no_digit_first_def)

lemma strto_show_int: "strto 10 (show_int i) = Some (i < 0, nat \<bar>i\<bar>)"
proof (cases "i < 0")
  case True
  have "take_digits 10 (show_nat (nat (- i))) = map (\<lambda>c. the (digit_val 10 c)) (show_nat (nat (- i)))"
    using take_digits_show_nat [of "[]"] by simp
  with True show ?thesis
    by (simp add: show_int_def strto_def skip_sign_def is_space_def of_digits_show_nat)
next
  case False
  then show ?thesis using strto_show_nat [of "[]" "nat i"] by (simp add: show_int_def)
qed

lemma stoll_show_int:
  "- (2 ^ 63) \<le> i \<Longrightarrow> i < 2 ^ 63 \<Longrightarrow> stoll 10 (show_int i) = Inr i"
  by (simp add: stoll_def sto_signed_def strto_show_int signed_def)

lemma stoul_show_nat:
  "n < 2 ^ 64 \<Longrightarrow> no_digit_first rest \<Longrightarrow> stoul 10 (show_nat n @ rest) = Inr n"
  by (simp add: stoul_def strto_show_nat)

lemma from_chars_show_nat:
  "n < 2 ^ 64 \<Longrightarrow> no_digit_first rest \<Longrightarrow> from_chars_size (show_nat n @ rest) = Inr n"
  by (simp add: from_chars_size_def take_digits_show_nat of_digits_show_nat)

lemma stoi_result_bounds: "stoi base s = Inr v \<Longrightarrow> - (2 ^ 31) \<le> v \<and> v < 2 ^ 31"
  by (auto simp: stoi_def sto_signed_def split: option.splits if_splits)

lemma stoul_result_bound: "stoul base s = Inr n \<Longrightarrow> n < 2 ^ 64"
  by (auto simp: stoul_def split: option.splits if_splits)

lemma from_chars_result_bound: "from_chars_size s = Inr n \<Longrightarrow> n < 2 ^ 64"
  by (auto simp: from_chars_size_def Let_def split: if_splits)

end
