(* ===== verification/Url.thy ===== *)
theory Url
  imports Numbers
begin

section \<open>URL coding, path normalisation and query strings\<close>

text \<open>
  Models \<^verbatim>\<open>src/util/url.cpp\<close>: percent coding in both directions, the check for a
  second layer of coding, the normalisation of a request path and the parser of query
  strings. The loops over positions follow the code; \<open>normalizePath_split\<close> and
  \<open>isDoubleEncoded_iff\<close> relate them to reference descriptions.
\<close>

subsection \<open>Percent coding\<close>

definition hex_upper :: "nat \<Rightarrow> char" where
  "hex_upper d = (if d < 10 then char_of (48 + d) else char_of (55 + d))"

definition is_unreserved :: "char \<Rightarrow> bool" where
  "is_unreserved c \<longleftrightarrow>
     is_alnum c \<or> c = CHR ''-'' \<or> c = CHR ''_'' \<or> c = CHR ''.'' \<or> c = CHR ''~''"

fun urlEncode :: "string \<Rightarrow> string" where
  "urlEncode [] = []"
| "urlEncode (c # cs) =
     (if is_unreserved c then [c]
      else [CHR ''%'', hex_upper (ord c div 16), hex_upper (ord c mod 16)]) @ urlEncode cs"

text \<open>
  The two characters after a percent sign go through \<^verbatim>\<open>std::stoi(ch, nullptr, 16)\<close>;
  if that throws, the percent sign stands for itself.
\<close>

fun urlDecode :: "string \<Rightarrow> string" where
  "urlDecode [] = []"
| "urlDecode (c # cs) =
     (if c = CHR ''%'' then
        (case cs of
           a # b # rest \<Rightarrow>
             (case stoi 16 [a, b] of
                Inr v \<Rightarrow> char_of (nat (v mod 256)) # urlDecode rest
              | Inl _ \<Rightarrow> c # urlDecode cs)
         | _ \<Rightarrow> c # urlDecode cs)
      else if c = CHR ''+'' then CHR '' '' # urlDecode cs
      else c # urlDecode cs)"

lemma digit_val_hex_upper [simp]: "d < 16 \<Longrightarrow> digit_val 16 (hex_upper d) = Some d"
  by (simp add: digit_val_def hex_upper_def char_class)

lemma hex_upper_class:
  assumes "d < 16"
  shows "\<not> is_space (hex_upper d)" "hex_upper d \<noteq> CHR ''-''" "hex_upper d \<noteq> CHR ''+''"
proof -
  have "ord (hex_upper d) \<in> {48..57} \<union> {65..70}"
    using assms by (auto simp: hex_upper_def)
  then show "\<not> is_space (hex_upper d)" "hex_upper d \<noteq> CHR ''-''" "hex_upper d \<noteq> CHR ''+''"
    by (auto simp: char_class)
qed

lemma stoi_hex_pair:
  assumes "a < 16" and "b < 16"
  shows "stoi 16 [hex_upper a, hex_upper b] = Inr (int (a * 16 + b))"
proof -
  have "strto 16 [hex_upper a, hex_upper b] = Some (False, a * 16 + b)"
    using assms by (simp add: strto_def hex_upper_class skip_sign_def skip_0x_def of_digits_def)
  then show ?thesis
    using assms by (simp add: stoi_def sto_signed_def signed_def)
qed

lemma unreserved_plain: "is_unreserved c \<Longrightarrow> c \<noteq> CHR ''%'' \<and> c \<noteq> CHR ''+''"
  by (auto simp: is_unreserved_def is_alnum_def char_class)

lemma urlDecode_urlEncode_append: "urlDecode (urlEncode s @ t) = s @ urlDecode t"
proof (induction s)
  case (Cons c cs)
  show ?case
  proof (cases "is_unreserved c")
    case True
    with unreserved_plain [OF True] Cons show ?thesis by simp
  next
    case False
    have "stoi 16 [hex_upper (ord c div 16), hex_upper (ord c mod 16)]
        = Inr (int (ord c div 16 * 16 + ord c mod 16))"
      by (rule stoi_hex_pair) (simp_all add: of_char_def horner_sum_bound less_mult_imp_div_less)
    also have "ord c div 16 * 16 + ord c mod 16 = ord c" by simp
    finally show ?thesis
      using False Cons by (simp add: nat_mod_as_int)
  qed
qed simp

subsection \<open>Double encoding\<close>

text \<open>
  The loop looks at every percent sign of the decoded text for two hexadecimal digits
  after it.
\<close>

definition escape_at :: "string \<Rightarrow> nat \<Rightarrow> bool" where
  "escape_at s p \<longleftrightarrow> p + 2 < length s \<and> is_xdigit (s ! (p + 1)) \<and> is_xdigit (s ! (p + 2))"

function escape_loop :: "string \<Rightarrow> nat \<Rightarrow> bool" where
  "escape_loop s pos =
     (case find_from s [CHR ''%''] pos of
        None \<Rightarrow> False
      | Some p \<Rightarrow> if escape_at s p then True else escape_loop s (p + 1))"
  by pat_completeness auto
termination
  by (relation "measure (\<lambda>(s, pos). length s - pos)") (auto dest: find_from_char_less)

declare escape_loop.simps [simp del]

definition isDoubleEncoded :: "string \<Rightarrow> bool" where
  "isDoubleEncoded s \<longleftrightarrow> find_from s [CHR 0x00] 0 \<noteq> None \<or> escape_loop s 0"


lemma find_from_char_None_iff:
  "find_from s [c] pos = None \<longleftrightarrow> (\<forall>i. pos \<le> i \<longrightarrow> i < length s \<longrightarrow> s ! i \<noteq> c)"
  by (auto simp: find_from_None_iff hd_drop_conv_nth)

lemma find_from_char_Some_iff:
  "find_from s [c] pos = Some p \<longleftrightarrow>
     pos \<le> p \<and> p < length s \<and> s ! p = c \<and> (\<forall>i. pos \<le> i \<longrightarrow> i < p \<longrightarrow> s ! i \<noteq> c)"
  by (auto simp: find_from_Some_iff hd_drop_conv_nth)

lemma escape_loop_iff:
  "escape_loop s pos \<longleftrightarrow> (\<exists>i \<ge> pos. i < length s \<and> s ! i = CHR ''%'' \<and> escape_at s i)"
proof (induction s pos rule: escape_loop.induct)
  case (1 s pos)
  show ?case
  proof (cases "find_from s [CHR ''%''] pos")
    case None
    then have "\<forall>i. pos \<le> i \<longrightarrow> i < length s \<longrightarrow> s ! i \<noteq> CHR ''%''"
      by (simp add: find_from_char_None_iff)
    with None show ?thesis by (auto simp: escape_loop.simps [of s pos])
  next
    case (Some p)
    note p = Some [unfolded find_from_char_Some_iff]
    show ?thesis
    proof (cases "escape_at s p")
      case True
      with Some p show ?thesis by (auto simp: escape_loop.simps [of s pos])
    next
      case False
      have "pos \<le> i \<longleftrightarrow> p + 1 \<le> i" if "s ! i = CHR ''%''" "escape_at s i" for i
        using p False that by (metis Suc_eq_plus1 Suc_leD Suc_leI le_trans linorder_neqE_nat)
      then have "(\<exists>i \<ge> pos. i < length s \<and> s ! i = CHR ''%'' \<and> escape_at s i)
          \<longleftrightarrow> (\<exists>i \<ge> p + 1. i < length s \<and> s ! i = CHR ''%'' \<and> escape_at s i)" by metis
      with False Some "1.IH" [OF Some False] show ?thesis
        by (simp add: escape_loop.simps [of s pos])
    qed
  qed
qed

text \<open>What the check means: a null byte, or a percent sign with two hexadecimal digits.\<close>

definition has_escape :: "string \<Rightarrow> bool" where
  "has_escape s \<longleftrightarrow> (\<exists>i. s ! i = CHR ''%'' \<and> escape_at s i)"

lemma isDoubleEncoded_has_escape:
  "isDoubleEncoded s \<longleftrightarrow> CHR 0x00 \<in> set s \<or> has_escape s"
  by (auto simp: isDoubleEncoded_def escape_loop_iff has_escape_def find_simps escape_at_def)

lemma has_escape_iff:
  "has_escape s \<longleftrightarrow> (\<exists>xs a b ys. s = xs @ CHR ''%'' # a # b # ys \<and> is_xdigit a \<and> is_xdigit b)"
proof
  assume "has_escape s"
  then obtain i where i: "s ! i = CHR ''%''" "i + 2 < length s"
      "is_xdigit (s ! (i + 1))" "is_xdigit (s ! (i + 2))"
    by (auto simp: has_escape_def escape_at_def)
  then have "s = take i s @ s ! i # s ! (i + 1) # s ! (i + 2) # drop (i + 3) s"
    using id_take_nth_drop [of i s] by (simp add: Cons_nth_drop_Suc numeral_3_eq_3)
  with i show "\<exists>xs a b ys. s = xs @ CHR ''%'' # a # b # ys \<and> is_xdigit a \<and> is_xdigit b"
    by metis
next
  assume "\<exists>xs a b ys. s = xs @ CHR ''%'' # a # b # ys \<and> is_xdigit a \<and> is_xdigit b"
  then obtain xs a b ys where "s = xs @ CHR ''%'' # a # b # ys" "is_xdigit a" "is_xdigit b"
    by blast
  then show "has_escape s"
    by (auto simp: has_escape_def escape_at_def nth_append intro!: exI [where x = "length xs"])
qed

subsection \<open>Path normalisation\<close>

definition push_segment :: "string list \<Rightarrow> string \<Rightarrow> string list" where
  "push_segment seg token =
     (if token = [] \<or> token = ''.'' then seg
      else if token = ''..'' then (if seg \<noteq> [] then butlast seg else seg)
      else seg @ [token])"

function segment_loop :: "string \<Rightarrow> nat \<Rightarrow> string list \<Rightarrow> string list" where
  "segment_loop p start seg =
     (case find_from p [CHR ''/''] start of
        Some pos \<Rightarrow> segment_loop p (pos + 1) (push_segment seg (substr p start (pos - start)))
      | None \<Rightarrow> push_segment seg (drop start p))"
  by pat_completeness auto
termination
  by (relation "measure (\<lambda>(p, start, seg). length p - start)") (auto dest: find_from_char_less)

declare segment_loop.simps [simp del]

definition normalizePath :: "string \<Rightarrow> string" where
  "normalizePath p =
     (let result = join_with (CHR ''/'') (segment_loop p 0 [])
      in if result = [] then ''/'' else result)"

lemma segment_loop_fold:
  "start \<le> length p \<Longrightarrow>
   segment_loop p start seg = foldl push_segment seg (split_on (CHR ''/'') (drop start p))"
proof (induction p start seg rule: segment_loop.induct)
  case (1 p start seg)
  show ?case
  proof (cases "find_from p [CHR ''/''] start")
    case None
    with 1 show ?thesis
      by (simp add: segment_loop.simps [of p start] find_from_split_None)
  next
    case (Some pos)
    then have "Suc pos \<le> length p" by (auto dest: find_from_char_SomeD)
    with 1 Some show ?thesis
      by (simp add: segment_loop.simps [of p start] find_from_split_Some [OF Some])
  qed
qed

text \<open>The reference: fold the segments of the path over a stack.\<close>

definition path_segments :: "string \<Rightarrow> string list" where
  "path_segments p = foldl push_segment [] (split_on (CHR ''/'') p)"

lemma normalizePath_split:
  "normalizePath p =
     (if path_segments p = [] then ''/'' else join_with (CHR ''/'') (path_segments p))"
  by (simp add: normalizePath_def segment_loop_fold path_segments_def)

definition clean_segment :: "string \<Rightarrow> bool" where
  "clean_segment t \<longleftrightarrow> t \<noteq> [] \<and> t \<noteq> ''.'' \<and> t \<noteq> ''..'' \<and> CHR ''/'' \<notin> set t"

lemma push_segment_clean:
  "\<forall>t \<in> set seg. clean_segment t \<Longrightarrow> CHR ''/'' \<notin> set token \<Longrightarrow>
   \<forall>t \<in> set (push_segment seg token). clean_segment t"
  by (auto simp: push_segment_def clean_segment_def dest: in_set_butlastD)

lemma foldl_push_clean:
  "\<forall>t \<in> set seg. clean_segment t \<Longrightarrow> \<forall>t \<in> set ts. CHR ''/'' \<notin> set t \<Longrightarrow>
   \<forall>t \<in> set (foldl push_segment seg ts). clean_segment t"
proof (induction ts arbitrary: seg)
  case (Cons u us)
  then have "\<forall>t \<in> set (push_segment seg u). clean_segment t"
    by (intro push_segment_clean) simp_all
  with Cons show ?case by simp
qed simp

lemma path_segments_clean: "t \<in> set (path_segments p) \<Longrightarrow> clean_segment t"
  using foldl_push_clean [of "[]" "split_on (CHR ''/'') p"] split_on_pieces [of _ "CHR ''/''" p]
  by (simp add: path_segments_def)

lemma push_clean_segment: "clean_segment t \<Longrightarrow> push_segment seg t = seg @ [t]"
  by (simp add: push_segment_def clean_segment_def)

lemma foldl_push_clean_id: "\<forall>t \<in> set ts. clean_segment t \<Longrightarrow> foldl push_segment seg ts = seg @ ts"
  by (induction ts arbitrary: seg) (auto simp: push_clean_segment)

lemma path_segments_join:
  assumes "\<forall>t \<in> set ts. clean_segment t"
  shows "path_segments (join_with (CHR ''/'') ts) = ts"
proof -
  have "\<forall>t \<in> set ts. CHR ''/'' \<notin> set t" using assms by (auto simp: clean_segment_def)
  then show ?thesis
    by (simp add: path_segments_def split_on_join_with push_segment_def foldl_push_clean_id [OF assms])
qed

lemma path_segments_normalize: "path_segments (normalizePath p) = path_segments p"
proof (cases "path_segments p = []")
  case True
  then have "normalizePath p = ''/''" by (simp add: normalizePath_split)
  moreover have "path_segments ''/'' = []" by (simp add: path_segments_def push_segment_def)
  ultimately show ?thesis using True by simp
next
  case False
  then show ?thesis
    by (simp add: normalizePath_split path_segments_join path_segments_clean)
qed


text \<open>Normalising brings no null byte and no percent escape into a path.\<close>

lemma path_segments_from: "t \<in> set (path_segments p) \<Longrightarrow> t \<in> set (split_on (CHR ''/'') p)"
proof -
  have push: "set (push_segment seg t) \<subseteq> insert t (set seg)" for seg t
    by (auto simp: push_segment_def dest: in_set_butlastD)
  have "set (foldl push_segment seg ts) \<subseteq> set seg \<union> set ts" for seg ts
  proof (induction ts arbitrary: seg)
    case (Cons t ts)
    from Cons [of "push_segment seg t"] push [of seg t] show ?case by auto
  qed simp
  from this [of "[]" "split_on (CHR ''/'') p"]
  show "t \<in> set (path_segments p) \<Longrightarrow> t \<in> set (split_on (CHR ''/'') p)"
    by (auto simp: path_segments_def)
qed

lemma has_escape_sublist:
  "has_escape s \<longleftrightarrow> (\<exists>a b. sublist [CHR ''%'', a, b] s \<and> is_xdigit a \<and> is_xdigit b)"
  by (auto simp: has_escape_iff sublist_def)

lemma slash_no_xdigit: "\<not> is_xdigit (CHR ''/'')"
  by (simp add: is_xdigit_def digit_val_def char_class)

lemma normalizePath_no_new_escape:
  assumes "\<not> isDoubleEncoded p"
  shows "\<not> isDoubleEncoded (normalizePath p)"
proof -
  let ?segs = "path_segments p"
  have sub: "sublist t p" if "t \<in> set ?segs" for t
    by (rule split_on_sublist [OF path_segments_from [OF that]])
  have "\<not> has_escape (join_with (CHR ''/'') ?segs)"
  proof
    assume "has_escape (join_with (CHR ''/'') ?segs)"
    then obtain a b where ab: "is_xdigit a" "is_xdigit b"
      and occ: "sublist [CHR ''%'', a, b] (join_with (CHR ''/'') ?segs)"
      by (auto simp: has_escape_sublist)
    from ab have "CHR ''/'' \<notin> set [CHR ''%'', a, b]" using slash_no_xdigit by auto
    from sublist_join_with [OF this _ occ] obtain t
      where t: "t \<in> set ?segs" "sublist [CHR ''%'', a, b] t" by auto
    have "sublist [CHR ''%'', a, b] p"
      by (rule sublist_order.order_trans [OF t(2) sub [OF t(1)]])
    with ab have "has_escape p" by (simp only: has_escape_sublist) (intro exI conjI)
    with assms show False by (simp add: isDoubleEncoded_has_escape)
  qed
  moreover have "CHR 0x00 \<notin> set (join_with (CHR ''/'') ?segs)"
  proof
    assume "CHR 0x00 \<in> set (join_with (CHR ''/'') ?segs)"
    then obtain t where "t \<in> set ?segs" "CHR 0x00 \<in> set t"
      by (auto dest: set_join_with)
    with sub have "CHR 0x00 \<in> set p" by (blast dest: set_mono_sublist)
    with assms show False by (simp add: isDoubleEncoded_has_escape)
  qed
  ultimately show ?thesis
    by (simp add: normalizePath_split isDoubleEncoded_has_escape has_escape_def escape_at_def)
qed

subsection \<open>Query strings\<close>

definition query_pair :: "string \<Rightarrow> string \<times> string" where
  "query_pair token =
     (case find_from token [CHR ''=''] 0 of
        None \<Rightarrow> (urlDecode token, [])
      | Some eq \<Rightarrow> (urlDecode (substr token 0 eq), urlDecode (drop (eq + 1) token)))"

definition query_add :: "(string \<rightharpoonup> string) \<Rightarrow> string \<Rightarrow> (string \<rightharpoonup> string)" where
  "query_add q token = (case query_pair token of (k, v) \<Rightarrow> q(k \<mapsto> v))"

function query_loop :: "string \<Rightarrow> nat \<Rightarrow> (string \<rightharpoonup> string) \<Rightarrow> (string \<rightharpoonup> string)" where
  "query_loop query pos q =
     (if pos < length query then
        (case find_from query [CHR ''&''] pos of
           None \<Rightarrow> query_loop query (length query) (query_add q (drop pos query))
         | Some found \<Rightarrow>
             query_loop query (found + 1) (query_add q (substr query pos (found - pos))))
      else q)"
  by pat_completeness auto
termination
  by (relation "measure (\<lambda>(query, pos, q). length query - pos)") (auto dest: find_from_char_less)

declare query_loop.simps [simp del]

definition parseQuery :: "string \<Rightarrow> (string \<rightharpoonup> string)" where
  "parseQuery query = query_loop query 0 Map.empty"

lemma query_loop_fold:
  "pos \<le> length query \<Longrightarrow> query_loop query pos q = foldl query_add q (pieces (CHR ''&'') (drop pos query))"
proof (induction query pos q rule: query_loop.induct)
  case (1 query pos q)
  show ?case
  proof (cases "pos < length query")
    case False
    then show ?thesis by (simp add: query_loop.simps [of query pos])
  next
    case True
    show ?thesis
    proof (cases "find_from query [CHR ''&''] pos")
      case None
      have "pieces (CHR ''&'') (drop pos query) = [drop pos query]"
        using True None by (rule find_from_pieces_None)
      with 1 True None show ?thesis by (simp add: query_loop.simps [of query pos])
    next
      case (Some i)
      have "i < length query" using find_from_char_SomeD [OF Some] by simp
      with 1 True Some find_from_pieces_Some [OF Some] show ?thesis
        by (simp add: query_loop.simps [of query pos])
    qed
  qed
qed

lemma parseQuery_fold: "parseQuery query = foldl query_add Map.empty (pieces (CHR ''&'') query)"
  by (simp add: parseQuery_def query_loop_fold)

text \<open>The query string a client builds from a list of keys and values.\<close>

definition encode_pair :: "string \<times> string \<Rightarrow> string" where
  "encode_pair kv = urlEncode (fst kv) @ CHR ''='' # urlEncode (snd kv)"

definition encode_query :: "(string \<times> string) list \<Rightarrow> string" where
  "encode_query kvs = tl (join_with (CHR ''&'') (map encode_pair kvs))"

lemma hex_upper_alnum: "d < 16 \<Longrightarrow> is_alnum (hex_upper d)"
  by (simp add: hex_upper_def is_alnum_def char_class)

lemma ord_div_16 [simp]: "ord c div 16 < 16"
  by (simp add: of_char_def horner_sum_bound less_mult_imp_div_less)

text \<open>The characters the encoder can produce.\<close>

lemma urlEncode_chars: "c \<in> set (urlEncode s) \<Longrightarrow> is_unreserved c \<or> c = CHR ''%''"
  by (induction s) (auto simp: is_unreserved_def hex_upper_alnum split: if_splits)

lemma urlEncode_no_separator: "CHR ''&'' \<notin> set (urlEncode s)" "CHR ''='' \<notin> set (urlEncode s)"
  by (auto dest!: urlEncode_chars simp: is_unreserved_def is_alnum_def char_class)

lemma urlDecode_urlEncode: "urlDecode (urlEncode s) = s"
  using urlDecode_urlEncode_append [of s "[]"] by simp

lemma query_pair_encode: "query_pair (encode_pair kv) = kv"
  by (simp add: query_pair_def encode_pair_def urlEncode_no_separator substr_def urlDecode_urlEncode)

lemma query_pieces_encode: "pieces (CHR ''&'') (encode_query kvs) = map encode_pair kvs"
proof (cases kvs)
  case Nil
  then show ?thesis by (simp add: encode_query_def)
next
  case (Cons kv rest)
  have nin: "\<forall>t \<in> set (map encode_pair kvs). CHR ''&'' \<notin> set t"
    by (auto simp: encode_pair_def urlEncode_no_separator)
  have "CHR ''&'' # encode_query kvs = join_with (CHR ''&'') (map encode_pair kvs)"
    by (simp add: encode_query_def Cons)
  then have "split_on (CHR ''&'') (encode_query kvs) = map encode_pair kvs"
    using split_on_join_with [OF nin] by (metis list.inject split_on.simps(2))
  moreover have "last (map encode_pair kvs) \<noteq> []"
    by (simp add: Cons last_map encode_pair_def)
  ultimately show ?thesis by (simp add: pieces_def)
qed

lemma foldl_query_add_encode:
  "foldl query_add q (map encode_pair kvs) = foldl (\<lambda>q (k, v). q(k \<mapsto> v)) q kvs"
  by (induction kvs arbitrary: q) (auto simp: query_add_def query_pair_encode split: prod.splits)

lemma foldl_upd_map_of: "foldl (\<lambda>q (k, v). q(k \<mapsto> v)) q kvs = q ++ map_of (rev kvs)"
  by (induction kvs arbitrary: q) (auto simp: map_add_def fun_eq_iff split: option.splits)


interpretation url_codec: codec urlEncode urlDecode
  by unfold_locales (rule urlDecode_urlEncode)

interpretation query_codec: codec encode_pair query_pair
  by unfold_locales (rule query_pair_encode)

subsection \<open>Properties\<close>

text \<open>Percent coding loses nothing: decoding what \<open>urlEncode\<close> produced gives the
  text back, whatever its bytes, and two texts never share an encoding.\<close>

theorem url_roundtrip: "urlDecode (urlEncode s) = s \<and> (urlEncode s = urlEncode t \<longleftrightarrow> s = t)"
  by (simp add: urlDecode_urlEncode url_codec.enc_inject)

text \<open>A query string built from any list of keys and values (each one percent coded)
  parses to the map that holds them, the last value winning for a repeated key.\<close>

theorem query_roundtrip: "parseQuery (encode_query kvs) = map_of (rev kvs)"
  by (simp add: parseQuery_fold query_pieces_encode foldl_query_add_encode foldl_upd_map_of)

text \<open>A normalised path starts with a slash, and when it is not the root, every segment
  between its slashes is non-empty and neither a single nor a double dot; normalising twice
  changes nothing. So no traversal can be left in a path, however it was written.\<close>

theorem normalizePath_clean:
  "hd (split_on (CHR ''/'') (normalizePath p)) = []
   \<and> (normalizePath p \<noteq> ''/'' \<longrightarrow>
        (\<forall>t \<in> set (tl (split_on (CHR ''/'') (normalizePath p))). clean_segment t))
   \<and> normalizePath (normalizePath p) = normalizePath p"
proof -
  have nin: "\<forall>t \<in> set (path_segments p). CHR ''/'' \<notin> set t"
    using path_segments_clean by (auto simp: clean_segment_def)
  have "normalizePath (normalizePath p) = normalizePath p"
    by (simp add: normalizePath_split [of "normalizePath p"] path_segments_normalize)
      (simp add: normalizePath_split)
  moreover have "split_on (CHR ''/'') (join_with (CHR ''/'') (path_segments p)) = [] # path_segments p"
    by (rule split_on_join_with [OF nin])
  ultimately show ?thesis
    by (auto simp: normalizePath_split path_segments_clean)
qed

text \<open>The witness walks \<^verbatim>\<open>/foo/../.env\<close> of the README through the theorem.\<close>

theorem normalizePath_clean_witness:
  "normalizePath ''/foo/../.env'' = ''/.env''
   \<and> normalizePath (normalizePath ''/foo/../.env'') = normalizePath ''/foo/../.env''"
proof -
  have "path_segments ''/foo/../.env'' = [''.env'']"
    by (simp add: path_segments_def push_segment_def)
  then have "normalizePath ''/foo/../.env'' = ''/.env''"
    by (simp add: normalizePath_split)
  with normalizePath_clean [of "''/foo/../.env''"] show ?thesis by blast
qed

text \<open>The double-encoding check rejects exactly the texts that hold a null byte or a
  percent sign followed by two hexadecimal digits.\<close>

theorem isDoubleEncoded_iff:
  "isDoubleEncoded s \<longleftrightarrow>
     CHR 0x00 \<in> set s \<or> (\<exists>xs a b ys. s = xs @ CHR ''%'' # a # b # ys \<and> is_xdigit a \<and> is_xdigit b)"
  by (simp add: isDoubleEncoded_has_escape has_escape_iff)

end
