(* ===== verification/Config.thy ===== *)
theory Config
  imports Numbers
begin

section \<open>Configuration\<close>

text \<open>
  Models \<^verbatim>\<open>include/ynet/core/config.h\<close> and \<^verbatim>\<open>src/util/config_parser.cpp\<close>. The part
  of the file system that \<open>loadConfig\<close> touches is the record \<open>conf_world\<close>: the name
  of the working directory, whether the directory \<^verbatim>\<open>config\<close> exists, the content of the
  configuration file, and whether the operating system lets the program create and open
  that file. A value that does not convert leaves \<open>loadConfig\<close> as the exception the code
  throws. The warnings printed to the error stream are not part of the model.
\<close>

record config =
  cfg_port :: nat
  cfg_bind_addr :: string
  cfg_max_body_size :: nat
  cfg_max_header_size :: nat
  cfg_max_headers :: int
  cfg_header_timeout_ms :: int
  cfg_body_timeout_ms :: int
  cfg_max_connections :: int
  cfg_use_tls :: bool
  cfg_cert_path :: string
  cfg_key_path :: string
  cfg_max_upload_size :: nat
  cfg_max_cache_entries :: nat

definition default_config :: config where
  "default_config =
     \<lparr>cfg_port = 8080, cfg_bind_addr = ''0.0.0.0'', cfg_max_body_size = 1 * 1024 * 1024,
      cfg_max_header_size = 8192, cfg_max_headers = 64, cfg_header_timeout_ms = 5000,
      cfg_body_timeout_ms = 10000, cfg_max_connections = 1024, cfg_use_tls = False,
      cfg_cert_path = [], cfg_key_path = [], cfg_max_upload_size = 10 * 1024 * 1024,
      cfg_max_cache_entries = 1024\<rparr>"

definition parseSize :: "string \<Rightarrow> nat result" where
  "parseSize val =
     (case find_first_not_of val ''0123456789'' 0 of
        None \<Rightarrow> stoul 10 val
      | Some pos \<Rightarrow>
          bind_result (stoul 10 (substr val 0 pos)) (\<lambda>num.
          let unit = drop pos val in
          Inr (if unit = ''KB'' then num * 1024 mod 2 ^ 64
               else if unit = ''MB'' then num * 1024 * 1024 mod 2 ^ 64
               else if unit = ''GB'' then num * 1024 * 1024 * 1024 mod 2 ^ 64
               else num)))"

text \<open>
  One line of the file. A line without an equals sign is its own key and its own value,
  as \<open>npos + 1\<close> is 0. The port is narrowed to 16 bits, the size of the cache widened
  from \<^verbatim>\<open>int\<close>.
\<close>

definition config_entry :: "string \<Rightarrow> config \<Rightarrow> string \<Rightarrow> string \<Rightarrow> config result" where
  "config_entry conf_dir config key value =
     (if key = ''port'' then
        bind_result (stoi 10 value) (\<lambda>v. Inr (config\<lparr>cfg_port := nat (v mod 2 ^ 16)\<rparr>))
      else if key = ''bind'' then Inr (config\<lparr>cfg_bind_addr := value\<rparr>)
      else if key = ''tls'' then Inr (config\<lparr>cfg_use_tls := (value = ''on'')\<rparr>)
      else if key = ''cert'' then Inr (config\<lparr>cfg_cert_path := conf_dir @ ''/'' @ value\<rparr>)
      else if key = ''key'' then Inr (config\<lparr>cfg_key_path := conf_dir @ ''/'' @ value\<rparr>)
      else if key = ''max_body'' then
        bind_result (parseSize value) (\<lambda>v. Inr (config\<lparr>cfg_max_body_size := v\<rparr>))
      else if key = ''max_upload'' then
        bind_result (parseSize value) (\<lambda>v. Inr (config\<lparr>cfg_max_upload_size := v\<rparr>))
      else if key = ''max_header'' then
        bind_result (parseSize value) (\<lambda>v. Inr (config\<lparr>cfg_max_header_size := v\<rparr>))
      else if key = ''max_headers'' then
        bind_result (stoi 10 value) (\<lambda>v. Inr (config\<lparr>cfg_max_headers := v\<rparr>))
      else if key = ''header_timeout'' then
        bind_result (stoi 10 value) (\<lambda>v. Inr (config\<lparr>cfg_header_timeout_ms := v\<rparr>))
      else if key = ''body_timeout'' then
        bind_result (stoi 10 value) (\<lambda>v. Inr (config\<lparr>cfg_body_timeout_ms := v\<rparr>))
      else if key = ''max_connections'' then
        bind_result (stoi 10 value) (\<lambda>v. Inr (config\<lparr>cfg_max_connections := v\<rparr>))
      else if key = ''max_cache'' then
        bind_result (stoi 10 value) (\<lambda>v. Inr (config\<lparr>cfg_max_cache_entries := nat (v mod 2 ^ 64)\<rparr>))
      else Inr config)"

definition config_line :: "string \<Rightarrow> config \<Rightarrow> string \<Rightarrow> config result" where
  "config_line conf_dir config line =
     (if line = [] \<or> hd line = CHR ''#'' then Inr config
      else
        let pos = find_from line [CHR ''=''] 0;
            key = (case pos of None \<Rightarrow> line | Some p \<Rightarrow> substr line 0 p);
            value = (case pos of None \<Rightarrow> line | Some p \<Rightarrow> drop (p + 1) line)
        in config_entry conf_dir config key value)"

fun config_lines :: "string \<Rightarrow> config \<Rightarrow> string list \<Rightarrow> config result" where
  "config_lines conf_dir config [] = Inr config"
| "config_lines conf_dir config (line # lines) =
     bind_result (config_line conf_dir config line) (\<lambda>config'. config_lines conf_dir config' lines)"

subsection \<open>Loading\<close>

record conf_world =
  cw_dir_name :: string
  cw_conf_dir :: bool
  cw_file :: "string option"
  cw_can_create :: bool
  cw_can_open :: bool

definition default_lines :: "string \<Rightarrow> string list" where
  "default_lines dir_name =
     [''# '' @ dir_name @ '' configuration'', ''port=8080'', ''bind=0.0.0.0'', ''tls=off'',
      ''cert=cert.pem'', ''key=key.pem'', ''max_body=1MB'', ''max_upload=10MB'', ''max_header=8KB'',
      ''max_headers=64'', ''header_timeout=5000'', ''body_timeout=10000'', ''max_connections=1024'',
      ''max_cache=1024'']"

definition default_text :: "string \<Rightarrow> string" where
  "default_text dir_name = concat (map (\<lambda>l. l @ [CHR 0x0A]) (default_lines dir_name))"

definition read_config :: "conf_world \<Rightarrow> config result" where
  "read_config w =
     (case cw_file w of
        Some text \<Rightarrow> if cw_can_open w then config_lines ''config'' default_config (pieces (CHR 0x0A) text)
                     else Inr default_config
      | None \<Rightarrow> Inr default_config)"

definition loadConfig :: "conf_world \<Rightarrow> config result \<times> conf_world" where
  "loadConfig w0 =
     (let w1 = w0\<lparr>cw_conf_dir := True\<rparr> in
      if cw_file w1 = None \<and> cw_dir_name w1 = ''build'' then (Inr default_config, w1)
      else
        let w2 = (if cw_file w1 = None \<and> cw_can_create w1
                  then w1\<lparr>cw_file := Some (default_text (cw_dir_name w1))\<rparr> else w1)
        in (read_config w2, w2))"

subsection \<open>Sizes\<close>

lemma digit_chars: "c \<in> set ''0123456789'' \<longleftrightarrow> is_digit c"
proof -
  have "c \<in> set ''0123456789'' \<longleftrightarrow> ord c \<in> ord ` set ''0123456789''"
    by (simp only: inj_image_mem_iff inj_def of_char_eq_iff simp_thms)
  also have "\<dots> \<longleftrightarrow> is_digit c" by (simp add: is_digit_def) presburger
  finally show ?thesis .
qed

lemma find_unit:
  "u \<noteq> [] \<Longrightarrow> \<not> is_digit (hd u) \<Longrightarrow>
   find_first_not_of (show_nat n @ u) ''0123456789'' 0 = Some (length (show_nat n))"
proof -
  assume u: "u \<noteq> []" "\<not> is_digit (hd u)"
  have "takeWhile (\<lambda>c. c \<in> set ''0123456789'') (show_nat n @ u) = show_nat n"
    using u show_nat_digits [of _ n] by (cases u) (simp_all add: digit_chars takeWhile_append2 del: list.set)
  with u show ?thesis by (simp add: find_first_not_of_def)
qed


lemma parseSize_unit:
  assumes "n < 2 ^ 64" and "u \<in> {''KB'', ''MB'', ''GB''}"
  shows "parseSize (show_nat n @ u) =
    Inr (n * (if u = ''KB'' then 2 ^ 10 else if u = ''MB'' then 2 ^ 20 else 2 ^ 30) mod 2 ^ 64)"
proof -
  have "u \<noteq> []" "\<not> is_digit (hd u)" using assms(2) by (auto simp: is_digit_def)
  then have "find_first_not_of (show_nat n @ u) ''0123456789'' 0 = Some (length (show_nat n))"
    by (rule find_unit)
  moreover have "stoul 10 (show_nat n) = Inr n" using stoul_show_nat [of n "[]"] assms(1) by simp
  ultimately show ?thesis
    using assms(2) by (auto simp: parseSize_def substr_def mult.assoc)
qed

subsection \<open>The generated file\<close>

text \<open>What the generated file configures: the defaults, with paths for certificate and key.\<close>

definition generated_config :: config where
  "generated_config =
     default_config\<lparr>cfg_cert_path := ''config/cert.pem'', cfg_key_path := ''config/key.pem''\<rparr>"

lemma default_lines_no_newline:
  "CHR 0x0A \<notin> set dir_name \<Longrightarrow> \<forall>l \<in> set (default_lines dir_name). CHR 0x0A \<notin> set l"
  by (simp add: default_lines_def)

lemmas config_eval = config_line_def config_entry_def find_from_0 stoi_def sto_signed_def strto_def skip_sign_def
  is_space_def of_digits_def signed_def digit_val_def is_digit_def substr_def parseSize_def
  find_first_not_of_def stoul_def Let_def

lemma config_lines_default: "config_lines ''config'' default_config (default_lines dir_name) = Inr generated_config"
  by (simp add: default_lines_def generated_config_def default_config_def config_eval)

lemma read_config_default:
  assumes "cw_file w = Some (default_text dir_name)" and "cw_can_open w" and "CHR 0x0A \<notin> set dir_name"
  shows "read_config w = Inr generated_config"
  using assms pieces_terminated [OF default_lines_no_newline [OF assms(3)]]
  by (simp add: read_config_def default_text_def config_lines_default)


subsection \<open>Properties\<close>

text \<open>The first start in a fresh project writes the configuration file and runs with
  the values of that file; these are the built-in defaults of \<open>Config\<close>, with the
  certificate and the key in the directory \<^verbatim>\<open>config\<close>. The second start reads the file
  back, gets the same configuration and leaves the file alone.\<close>

theorem loadConfig_first_and_second_start:
  assumes "cw_file w = None" and "cw_dir_name w \<noteq> ''build''" and "CHR 0x0A \<notin> set (cw_dir_name w)"
    and "cw_can_create w" and "cw_can_open w"
  shows "fst (loadConfig w) = Inr generated_config
    \<and> loadConfig (snd (loadConfig w)) = loadConfig w"
proof -
  have "loadConfig w = (read_config w2, w2) \<and> loadConfig w2 = (read_config w2, w2)
      \<and> read_config w2 = Inr generated_config"
    if "w2 = w\<lparr>cw_conf_dir := True, cw_file := Some (default_text (cw_dir_name w))\<rparr>" for w2
    using assms read_config_default [of w2 "cw_dir_name w"] by (cases w) (simp add: loadConfig_def Let_def that)
  then show ?thesis by simp
qed

theorem loadConfig_first_and_second_start_witness:
  "fst (loadConfig \<lparr>cw_dir_name = ''myapp'', cw_conf_dir = False, cw_file = None,
      cw_can_create = True, cw_can_open = True\<rparr>) = Inr generated_config"
  using loadConfig_first_and_second_start
    [of "\<lparr>cw_dir_name = ''myapp'', cw_conf_dir = False, cw_file = None,
      cw_can_create = True, cw_can_open = True\<rparr>"]
  by simp

text \<open>A size with a unit is the number scaled by a power of 1024, modulo 2 to the 64: a
  size too large for \<^verbatim>\<open>size_t\<close> wraps around silently instead of being refused.\<close>

theorem parseSize_scales:
  assumes "n < 2 ^ 64" and "u \<in> {(''KB'', 10), (''MB'', 20), (''GB'', 30)}"
  shows "parseSize (show_nat n @ fst u) = Inr (n * 2 ^ snd u mod 2 ^ 64)"
  using assms(2) parseSize_unit [OF assms(1), of "fst u"] by auto

theorem parseSize_scales_witness:
  "parseSize (show_nat (2 ^ 34) @ ''GB'') = Inr 0 \<and> parseSize (show_nat 8 @ ''KB'') = Inr 8192"
  using parseSize_scales [of "2 ^ 34" "(''GB'', 30)"] parseSize_scales [of 8 "(''KB'', 10)"] by simp

end
