(* ===== verification/Multipart.thy ===== *)
theory Multipart
  imports Prelude
begin

section \<open>The multipart/form-data parser\<close>

text \<open>
  Models \<^verbatim>\<open>src/util/multipart_parser.cpp\<close>. A part refers to its data with a
  \<^verbatim>\<open>std::string_view\<close>: an address, an offset and a length, not a copy. The
  buffers that are alive form a \<open>heap\<close>, and reading through a view whose buffer is gone is
  undefined behaviour. A \<^verbatim>\<open>substr\<close> whose start is not known to be inside the
  string is the checked one.
\<close>

type_synonym heap = "nat \<rightharpoonup> string"

record view =
  vw_buf :: nat
  vw_off :: nat
  vw_len :: nat

record part =
  pt_name :: string
  pt_filename :: string
  pt_content_type :: string
  pt_data :: view

definition view_text :: "string \<Rightarrow> view \<Rightarrow> string" where
  "view_text s v = substr s (vw_off v) (vw_len v)"

definition read_view :: "heap \<Rightarrow> view \<Rightarrow> string result" where
  "read_view h v =
     (case h (vw_buf v) of None \<Rightarrow> Inl Undefined_behaviour | Some s \<Rightarrow> Inr (view_text s v))"

definition extractBoundary :: "string \<Rightarrow> string" where
  "extractBoundary content_type =
     (case find_from content_type ''boundary'' 0 of
        None \<Rightarrow> []
      | Some boundary_start \<Rightarrow>
          (case find_from content_type [CHR ''=''] boundary_start of
             None \<Rightarrow> []
           | Some eq \<Rightarrow>
               if eq + 1 \<ge> length content_type then []
               else if content_type ! (eq + 1) = CHR 0x22 then
                 (case find_from content_type [CHR 0x22] (eq + 2) of
                    None \<Rightarrow> drop (eq + 2) content_type
                  | Some e \<Rightarrow> substr content_type (eq + 2) (e - (eq + 2)))
               else drop (eq + 1) content_type))"

text \<open>
  One part, given as the text between two separators, which starts at offset \<open>base\<close> of the
  buffer at address \<open>a\<close>. \<open>None\<close> is a part the code drops with an early return.
\<close>

definition part_name_start :: "string \<Rightarrow> nat option" where
  "part_name_start header =
     (case find_from header ''name=\"'' 0 of
        None \<Rightarrow> None
      | Some name_start \<Rightarrow>
          (case find_from header ''filename=\"'' 0 of
             Some filename_start \<Rightarrow>
               if name_start = filename_start + 4
               then find_from header ''name=\"'' (filename_start + 10) else Some name_start
           | None \<Rightarrow> Some name_start))"

definition quoted_value :: "string \<Rightarrow> nat \<Rightarrow> string option" where
  "quoted_value header val_start =
     map_option (\<lambda>val_end. substr header val_start (val_end - val_start))
       (find_from header [CHR 0x22] val_start)"

definition part_filename :: "string \<Rightarrow> string option" where
  "part_filename header =
     (case find_from header ''filename=\"'' 0 of
        None \<Rightarrow> Some [] | Some filename_start \<Rightarrow> quoted_value header (filename_start + 10))"

definition part_content_type :: "string \<Rightarrow> string result" where
  "part_content_type header =
     (case find_from header ''Content-Type:'' 0 of
        None \<Rightarrow> Inr []
      | Some start \<Rightarrow>
          let val_start = start + 14;
              semi = find_from header crlf val_start
          in substr_at header val_start (map_option (\<lambda>e. e - val_start) semi))"

definition parsePart :: "nat \<Rightarrow> nat \<Rightarrow> string \<Rightarrow> part option result" where
  "parsePart a base raw =
     (case find_from raw (crlf @ crlf) 0 of
        None \<Rightarrow> Inr None
      | Some it \<Rightarrow>
          let header = substr raw 0 it in
          (case part_name_start header of
             None \<Rightarrow> Inr None
           | Some name_start \<Rightarrow>
               (case quoted_value header (name_start + 6) of
                  None \<Rightarrow> Inr None
                | Some name \<Rightarrow>
                    (case part_filename header of
                       None \<Rightarrow> Inr None
                     | Some filename \<Rightarrow>
                         bind_result (part_content_type header) (\<lambda>content_type.
                         let len = length raw - (it + 4) in
                         if filename \<noteq> [] \<and> len = 0 then Inr None
                         else Inr (Some \<lparr>pt_name = name, pt_filename = filename,
                                pt_content_type = content_type,
                                pt_data = \<lparr>vw_buf = a, vw_off = base + (it + 4), vw_len = len\<rparr>\<rparr>))))))"

definition push_part :: "part list \<Rightarrow> part option \<Rightarrow> part list" where
  "push_part parts p = (case p of None \<Rightarrow> parts | Some q \<Rightarrow> parts @ [q])"

text \<open>The loop over the separators; \<open>prev\<close> is the start of the part being read.\<close>

function part_loop ::
  "nat \<Rightarrow> string \<Rightarrow> string \<Rightarrow> nat \<Rightarrow> nat option \<Rightarrow> part list \<Rightarrow> part list result" where
  "part_loop a body sep cur prev parts =
     (case find_from body sep cur of
        None \<Rightarrow> Inr parts
      | Some it \<Rightarrow>
          bind_result
            (case prev of
               None \<Rightarrow> Inr parts
             | Some p \<Rightarrow>
                 if it - p > 2
                 then bind_result (parsePart a p (substr body p (it - p - 2))) (\<lambda>q. Inr (push_part parts q))
                 else Inr parts)
            (\<lambda>parts'.
               let prev' = it + length sep + 2 in
               if prev' > length body then Inr parts'
               else part_loop a body sep prev' (Some prev') parts'))"
  by pat_completeness auto
termination
  by (relation "measure (\<lambda>(a, body, sep, cur, prev, parts). Suc (length body) - cur)")
    (auto dest!: find_from_bounds)

declare part_loop.simps [simp del]

definition parse_multipart :: "nat \<Rightarrow> string \<Rightarrow> string \<Rightarrow> part list result" where
  "parse_multipart a body content_type =
     (let boundary = extractBoundary content_type in
      if boundary = [] then Inr []
      else part_loop a body (''--'' @ boundary) 0 None [])"


subsection \<open>Framing\<close>

text \<open>
  A body as a client writes it: every chunk (header, blank line, data) after a separator line,
  and the closing separator.
\<close>

definition frame_chunk :: "string \<Rightarrow> string \<Rightarrow> string" where
  "frame_chunk sep chunk = sep @ crlf @ chunk @ crlf"

definition encode_multipart :: "string \<Rightarrow> string list \<Rightarrow> string" where
  "encode_multipart b chunks =
     concat (map (frame_chunk (''--'' @ b)) chunks) @ ''--'' @ b @ ''--'' @ crlf"

text \<open>What the parser makes of the chunks, one after the other.\<close>

fun part_results :: "nat \<Rightarrow> nat \<Rightarrow> nat \<Rightarrow> string list \<Rightarrow> part list \<Rightarrow> part list result" where
  "part_results a seplen base [] parts = Inr parts"
| "part_results a seplen base (c # cs) parts =
     bind_result (parsePart a base c)
       (\<lambda>q. part_results a seplen (base + length c + seplen + 4) cs (push_part parts q))"

definition chunk_ok :: "string \<Rightarrow> string \<Rightarrow> bool" where
  "chunk_ok sep chunk \<longleftrightarrow> find_sub sep (chunk @ crlf) = None"

text \<open>The text that follows a separator and its line end.\<close>

fun after_sep :: "string \<Rightarrow> string list \<Rightarrow> string" where
  "after_sep sep [] = ''--'' @ crlf"
| "after_sep sep (c # cs) = crlf @ c @ crlf @ sep @ after_sep sep cs"

lemma length_after_sep: "2 \<le> length (after_sep sep cs)"
  by (cases cs) auto

lemma encode_multipart_after_sep:
  "encode_multipart b chunks = ''--'' @ b @ after_sep (''--'' @ b) chunks"
  by (induction chunks) (auto simp: encode_multipart_def frame_chunk_def)

lemma parsePart_Nil: "parsePart a base [] = Inr None"
  by (simp add: parsePart_def)

lemma find_from_append: "find_from (pre @ s) pat (length pre) = map_option ((+) (length pre)) (find_sub pat s)"
  by (simp add: find_from_def)

text \<open>One round of the loop over a chunk that is followed by the separator.\<close>

lemma part_loop_chunk:
  assumes ok: "chunk_ok sep c" and nl: "CHR 0x0A \<notin> set sep" and rest: "2 \<le> length rest"
    and body: "body = pre @ c @ crlf @ sep @ rest" and nxt: "nxt = length pre + length c + length sep + 4"
  shows "part_loop a body sep (length pre) (Some (length pre)) parts =
    bind_result (parsePart a (length pre) c)
      (\<lambda>q. part_loop a body sep nxt (Some nxt) (push_part parts q))"
proof -
  have "find_sub sep ((c @ crlf) @ sep @ rest) = Some (length (c @ crlf))"
    using ok nl by (intro find_sub_separator) (auto simp: chunk_ok_def)
  then have "find_from body sep (length pre) = Some (length pre + length c + 2)"
    by (simp add: find_from_append body)
  moreover have "substr body (length pre) (length c) = c"
    by (simp add: substr_def body)
  moreover have "length pre + length c + 2 + length sep + 2 = nxt" "nxt \<le> length body"
    using rest by (simp_all add: body nxt)
  ultimately show ?thesis
    by (cases "c = []")
      (simp_all add: part_loop.simps [of a body sep "length pre"] Let_def parsePart_Nil push_part_def
        bind_result_def split: sum.split)
qed

lemma part_loop_after_sep:
  assumes "\<forall>c \<in> set cs. chunk_ok sep c" and "CHR 0x0A \<notin> set sep"
    and "body = pre @ drop 2 (after_sep sep cs)" and "sep \<noteq> []" and "hd sep = CHR ''-''"
  shows "part_loop a body sep (length pre) (Some (length pre)) parts =
    part_results a (length sep) (length pre) cs parts"
  using assms
proof (induction cs arbitrary: pre parts)
  case Nil
  then obtain t where "sep = CHR ''-'' # t" by (cases sep) auto
  with Nil have "find_from body sep (length pre) = None"
    by (simp add: find_from_append)
  then show ?case by (simp add: part_loop.simps [of a body])
next
  case (Cons c cs)
  let ?pre = "pre @ c @ crlf @ sep @ take 2 (after_sep sep cs)"
  let ?next = "length pre + length c + length sep + 4"
  have body: "body = pre @ c @ crlf @ sep @ after_sep sep cs" using Cons.prems(3) by simp
  have len: "length ?pre = ?next"
    using length_after_sep [of sep cs] by simp
  have "part_loop a body sep (length ?pre) (Some (length ?pre)) ps
      = part_results a (length sep) (length ?pre) cs ps" for ps
    using Cons.prems by (intro Cons.IH) simp_all
  then have rec: "part_loop a body sep ?next (Some ?next) ps
      = part_results a (length sep) ?next cs ps" for ps
    unfolding len .
  have "part_loop a body sep (length pre) (Some (length pre)) parts =
    bind_result (parsePart a (length pre) c)
      (\<lambda>q. part_loop a body sep ?next (Some ?next) (push_part parts q))"
    using Cons.prems(1,2) length_after_sep by (intro part_loop_chunk [OF _ _ _ body refl]) simp_all
  then show ?case by (simp add: rec)
qed

definition multipart_header :: "string \<Rightarrow> string" where
  "multipart_header b = ''multipart/form-data; boundary='' @ b"

lemma multipart_header_find:
  "find_from (multipart_header b) ''boundary'' 0 = Some 21"
  "find_from (multipart_header b) [CHR ''=''] 21 = Some 29"
  "length (multipart_header b) = 30 + length b" "drop 30 (multipart_header b) = b"
  by (simp_all add: multipart_header_def find_from_def)

lemma extractBoundary_plain:
  assumes "b \<noteq> []" and "hd b \<noteq> CHR 0x22"
  shows "extractBoundary (multipart_header b) = b"
proof -
  have "multipart_header b ! 30 = hd b"
    using assms(1) by (simp add: multipart_header_def nth_append hd_conv_nth)
  with assms show ?thesis
    by (simp add: extractBoundary_def multipart_header_find del: find_from_0)
qed

lemma parse_multipart_encode:
  assumes "b \<noteq> []" and "hd b \<noteq> CHR 0x22" and "CHR 0x0A \<notin> set b"
    and "\<forall>c \<in> set chunks. chunk_ok (''--'' @ b) c"
  shows "parse_multipart a (encode_multipart b chunks) (multipart_header b)
    = part_results a (length b + 2) (length b + 4) chunks []"
proof -
  let ?sep = "''--'' @ b" and ?t = "after_sep (''--'' @ b) chunks"
  let ?pre = "?sep @ take 2 ?t"
  have body: "encode_multipart b chunks = ?sep @ ?t" "encode_multipart b chunks = ?pre @ drop 2 ?t"
    by (simp_all add: encode_multipart_after_sep)
  have len: "length ?pre = length b + 4" using length_after_sep [of ?sep chunks] by simp
  have "find_from (?sep @ ?t) ?sep 0 = Some 0" by (simp add: find_sub_here)
  then have "part_loop a (?sep @ ?t) ?sep 0 None [] =
      part_loop a (?sep @ ?t) ?sep (length ?pre) (Some (length ?pre)) []"
    using length_after_sep [of ?sep chunks] by (subst part_loop.simps) (simp add: len)
  also have "\<dots> = part_results a (length ?sep) (length ?pre) chunks []"
    using assms by (intro part_loop_after_sep) (simp_all add: body)
  finally have "part_loop a (encode_multipart b chunks) ?sep 0 None [] =
      part_results a (length b + 2) (length b + 4) chunks []"
    unfolding body(1) len by simp
  then show ?thesis
    by (simp add: parse_multipart_def extractBoundary_plain assms(1,2) Let_def assms(1))
qed


subsection \<open>The header of a part\<close>

text \<open>
  A field as a browser sends it: a name, a file name and a content type (both possibly
  absent, then empty) and the data.
\<close>

record field =
  fd_name :: string
  fd_filename :: string
  fd_content_type :: string
  fd_data :: string

definition disposition :: "field \<Rightarrow> string" where
  "disposition f =
     ''Content-Disposition: form-data; name=\"'' @ fd_name f @ ''\"''
     @ (if fd_filename f = [] then [] else ''; filename=\"'' @ fd_filename f @ ''\"'')"

definition field_header :: "field \<Rightarrow> string" where
  "field_header f =
     disposition f @ (if fd_content_type f = [] then [] else crlf @ ''Content-Type: '' @ fd_content_type f)"

definition field_chunk :: "field \<Rightarrow> string" where
  "field_chunk f = field_header f @ crlf @ crlf @ fd_data f"

text \<open>
  A value that does not break out of its quotes and does not look like another header field.
\<close>

definition quotable :: "string \<Rightarrow> bool" where
  "quotable s \<longleftrightarrow> CHR 0x22 \<notin> set s \<and> CHR 0x0D \<notin> set s
     \<and> find_sub ''filename=\"'' (s @ ''\"'') = None \<and> find_sub ''Content-Type:'' (s @ ''\"'') = None"

definition field_ok :: "field \<Rightarrow> bool" where
  "field_ok f \<longleftrightarrow> quotable (fd_name f) \<and> quotable (fd_filename f)
     \<and> CHR 0x0D \<notin> set (fd_content_type f)
     \<and> CHR 0x22 \<notin> set (fd_content_type f) \<and> (fd_filename f \<noteq> [] \<longrightarrow> fd_data f \<noteq> [])"

lemma disposition_no_cr: "field_ok f \<Longrightarrow> CHR 0x0D \<notin> set (disposition f)"
  by (simp add: disposition_def field_ok_def quotable_def)

lemma field_chunk_blank_line:
  assumes "field_ok f"
  shows "find_sub (crlf @ crlf) (field_chunk f) = Some (length (field_header f))"
  using disposition_no_cr [OF assms] assms
  by (simp add: field_chunk_def field_header_def field_ok_def find_sub_skip find_sub_here)

lemma find_name: "find_sub ''name=\"'' (disposition f @ t) = Some 32"
  by (simp add: disposition_def)

text \<open>The three searches in a header, with the rest of the header left open.\<close>

lemma past_two:
  assumes "find_sub x (xs @ [CHR 0x22]) = None" and "find_sub x (n @ [CHR 0x22]) = None"
    and "CHR 0x22 \<notin> set (butlast x)"
  shows "find_sub x (xs @ CHR 0x22 # n @ CHR 0x22 # t) =
    map_option ((+) (length xs + length n + 2)) (find_sub x t)"
  using find_sub_past [OF assms(1,3), of "n @ CHR 0x22 # t"] find_sub_past [OF assms(2,3), of t]
  by (cases "find_sub x t") simp_all

definition name_intro :: string where
  "name_intro = ''Content-Disposition: form-data; name=''"

definition filename_intro :: string where
  "filename_intro = ''; filename=''"

definition filename_key :: string where
  "filename_key = ''filename=\"''"

definition type_key :: string where
  "type_key = ''Content-Type:''"

lemma intro_searches:
  "find_sub filename_key (name_intro @ [CHR 0x22]) = None"
  "find_sub type_key (name_intro @ [CHR 0x22]) = None"
  "find_sub type_key (filename_intro @ [CHR 0x22]) = None"
  "CHR 0x22 \<notin> set (butlast filename_key)" "CHR 0x22 \<notin> set (butlast type_key)"
  "length name_intro = 37" "length filename_intro = 11"
  by (simp_all add: filename_key_def type_key_def name_intro_def filename_intro_def)

lemma past_name:
  assumes "quotable n"
  shows "find_sub filename_key (name_intro @ CHR 0x22 # n @ CHR 0x22 # t) =
      map_option ((+) (39 + length n)) (find_sub filename_key t)"
    and "find_sub type_key (name_intro @ CHR 0x22 # n @ CHR 0x22 # t) =
      map_option ((+) (39 + length n)) (find_sub type_key t)"
  using past_two [OF intro_searches(1) _ intro_searches(4), of n t]
    past_two [OF intro_searches(2) _ intro_searches(5), of n t] assms
  by (simp_all add: quotable_def intro_searches add.commute flip: filename_key_def type_key_def)

lemma past_filename:
  assumes "quotable n"
  shows "find_sub type_key (filename_intro @ CHR 0x22 # n @ CHR 0x22 # t) =
    map_option ((+) (13 + length n)) (find_sub type_key t)"
  using past_two [OF intro_searches(3) _ intro_searches(5), of n t] assms
  by (simp add: quotable_def intro_searches add.commute flip: type_key_def)

lemma disposition_intro:
  "disposition f = name_intro @ CHR 0x22 # fd_name f @ CHR 0x22 #
     (if fd_filename f = [] then [] else filename_intro @ CHR 0x22 # fd_filename f @ [CHR 0x22])"
  by (simp add: disposition_def name_intro_def filename_intro_def)

lemma find_filename:
  assumes "field_ok f"
  shows "find_sub filename_key (field_header f) =
    (if fd_filename f = [] then None else Some (41 + length (fd_name f)))"
proof -
  let ?type = "if fd_content_type f = [] then [] else crlf @ ''Content-Type: '' @ fd_content_type f"
  let ?file = "if fd_filename f = [] then [] else filename_intro @ CHR 0x22 # fd_filename f @ [CHR 0x22]"
  have "find_sub filename_key (field_header f)
      = map_option ((+) (39 + length (fd_name f))) (find_sub filename_key (?file @ ?type))"
    using assms past_name(1) [of "fd_name f" "?file @ ?type"]
    by (simp add: field_header_def disposition_intro field_ok_def del: find_sub.simps)
  moreover have "find_sub filename_key ?type = None"
    using assms by (intro find_sub_missing [of "CHR 0x22"]) (simp_all add: field_ok_def filename_key_def)
  moreover have "find_sub filename_key (filename_intro @ CHR 0x22 # t) = Some 2" for t
    by (simp add: filename_key_def filename_intro_def)
  ultimately show ?thesis by simp
qed

lemma find_content_type:
  assumes "field_ok f"
  shows "find_sub type_key (field_header f) =
    (if fd_content_type f = [] then None else Some (length (disposition f) + 2))"
proof -
  have "find_sub type_key (disposition f @ t)
      = map_option ((+) (length (disposition f))) (find_sub type_key t)" for t
    using assms past_name(2) [of "fd_name f" t]
      past_name(2) [of "fd_name f" "filename_intro @ CHR 0x22 # fd_filename f @ CHR 0x22 # t"]
      past_filename [of "fd_filename f" t]
    by (cases "find_sub type_key t")
      (simp_all add: disposition_intro field_ok_def intro_searches del: find_sub.simps)
  moreover have "find_sub type_key (crlf @ ''Content-Type: '' @ t) = Some 2" for t
    by (simp add: type_key_def)
  moreover have "find_sub type_key [] = None" by (simp add: type_key_def)
  ultimately show ?thesis
    by (simp add: field_header_def del: find_sub.simps)
qed


lemma quoted_value_at:
  assumes "header = xs @ v @ CHR 0x22 # t" and "CHR 0x22 \<notin> set v" and "pos = length xs"
  shows "quoted_value header pos = Some v"
  using assms by (simp add: quoted_value_def find_from_append substr_def)

lemma field_header_parts:
  assumes "field_ok f"
  shows "part_name_start (field_header f) = Some 32"
    and "quoted_value (field_header f) 38 = Some (fd_name f)"
    and "part_filename (field_header f) = Some (fd_filename f)"
    and "part_content_type (field_header f) = Inr (fd_content_type f)"
proof -
  have name: "find_sub ''name=\"'' (field_header f) = Some 32"
    unfolding field_header_def by (rule find_name)
  note fname = find_filename [OF assms, unfolded filename_key_def]
  note ctype = find_content_type [OF assms, unfolded type_key_def]
  show "part_name_start (field_header f) = Some 32"
    by (simp add: part_name_start_def name fname)
  obtain t where name_at: "field_header f = (name_intro @ [CHR 0x22]) @ fd_name f @ CHR 0x22 # t"
    by (simp add: field_header_def disposition_intro)
  show "quoted_value (field_header f) 38 = Some (fd_name f)"
    using assms by (intro quoted_value_at [OF name_at]) (simp_all add: field_ok_def quotable_def intro_searches)
  show "part_filename (field_header f) = Some (fd_filename f)"
  proof (cases "fd_filename f = []")
    case False
    then obtain t where file_at: "field_header f =
        (name_intro @ CHR 0x22 # fd_name f @ CHR 0x22 # filename_intro @ [CHR 0x22]) @ fd_filename f @ CHR 0x22 # t"
      by (simp add: field_header_def disposition_intro)
    have "quoted_value (field_header f) (51 + length (fd_name f)) = Some (fd_filename f)"
      using assms by (intro quoted_value_at [OF file_at]) (simp_all add: field_ok_def quotable_def intro_searches)
    with False show ?thesis by (simp add: part_filename_def fname)
  qed (simp add: part_filename_def fname)
  show "part_content_type (field_header f) = Inr (fd_content_type f)"
  proof (cases "fd_content_type f = []")
    case False
    then obtain xs where eq: "field_header f = xs @ fd_content_type f"
      and len: "16 + length (disposition f) = length xs"
      by (simp add: field_header_def)
    have "find_from (field_header f) crlf (length xs) = None"
      using assms unfolding eq find_from_append by (simp add: find_sub_notin field_ok_def)
    then show ?thesis
      using False by (simp add: part_content_type_def ctype substr_at_def len) (simp add: eq)
  qed (simp add: part_content_type_def ctype)
qed

lemma parsePart_field:
  assumes "field_ok f"
  shows "parsePart a base (field_chunk f) =
    Inr (Some \<lparr>pt_name = fd_name f, pt_filename = fd_filename f, pt_content_type = fd_content_type f,
      pt_data = \<lparr>vw_buf = a, vw_off = base + length (field_header f) + 4, vw_len = length (fd_data f)\<rparr>\<rparr>)"
proof -
  have "substr (field_chunk f) 0 (length (field_header f)) = field_header f"
    "length (field_chunk f) - (length (field_header f) + 4) = length (fd_data f)"
    by (simp_all add: field_chunk_def substr_def)
  moreover have "fd_filename f = [] \<or> fd_data f \<noteq> []" using assms by (auto simp: field_ok_def)
  ultimately show ?thesis
    using field_chunk_blank_line [OF assms] field_header_parts [OF assms]
    by (auto simp: parsePart_def Let_def)
qed


subsection \<open>Round trip\<close>

text \<open>The view of a parsed part resolved against the body: the field the client sent.\<close>

definition part_field :: "string \<Rightarrow> part \<Rightarrow> field" where
  "part_field body p =
     \<lparr>fd_name = pt_name p, fd_filename = pt_filename p, fd_content_type = pt_content_type p,
      fd_data = view_text body (pt_data p)\<rparr>"

definition in_buffer :: "nat \<Rightarrow> part \<Rightarrow> bool" where
  "in_buffer a p \<longleftrightarrow> vw_buf (pt_data p) = a"

lemma part_results_fields:
  assumes "\<forall>f \<in> set fs. field_ok f" and "body = pre @ drop 2 (after_sep sep (map field_chunk fs))"
    and "map (part_field body) parts = gs" and "\<forall>p \<in> set parts. in_buffer a p"
  shows "\<exists>ps. part_results a (length sep) (length pre) (map field_chunk fs) parts = Inr ps
    \<and> map (part_field body) ps = gs @ fs \<and> (\<forall>p \<in> set ps. in_buffer a p)"
  using assms
proof (induction fs arbitrary: pre parts gs)
  case Nil
  then show ?case by simp
next
  case (Cons f fs)
  let ?c = "field_chunk f"
  let ?pre = "pre @ ?c @ crlf @ sep @ take 2 (after_sep sep (map field_chunk fs))"
  let ?p = "\<lparr>pt_name = fd_name f, pt_filename = fd_filename f, pt_content_type = fd_content_type f,
    pt_data = \<lparr>vw_buf = a, vw_off = length pre + length (field_header f) + 4, vw_len = length (fd_data f)\<rparr>\<rparr>"
  have body: "body = pre @ ?c @ crlf @ sep @ after_sep sep (map field_chunk fs)"
    using Cons.prems(2) by simp
  have len: "length ?pre = length pre + length ?c + length sep + 4"
    using length_after_sep [of sep "map field_chunk fs"] by simp
  have "part_field body ?p = f"
    by (simp add: part_field_def view_text_def substr_def body field_chunk_def)
  moreover have "in_buffer a ?p" by (simp add: in_buffer_def)
  ultimately have "\<exists>ps. part_results a (length sep) (length ?pre) (map field_chunk fs) (parts @ [?p]) = Inr ps
    \<and> map (part_field body) ps = (gs @ [f]) @ fs \<and> (\<forall>p \<in> set ps. in_buffer a p)"
    using Cons.prems by (intro Cons.IH) (auto simp: body)
  then show ?case
    using Cons.prems(1) unfolding len by (simp add: parsePart_field push_part_def)
qed

lemma encode_fields_parse:
  assumes b: "b \<noteq> []" "hd b \<noteq> CHR 0x22" "CHR 0x0A \<notin> set b"
    and fs: "\<forall>f \<in> set fs. field_ok f \<and> chunk_ok (''--'' @ b) (field_chunk f)"
    and body: "body = encode_multipart b (map field_chunk fs)"
  shows "\<exists>ps. parse_multipart a body (multipart_header b) = Inr ps
    \<and> map (part_field body) ps = fs \<and> (\<forall>p \<in> set ps. in_buffer a p)"
proof -
  let ?sep = "''--'' @ b" and ?cs = "map field_chunk fs"
  let ?pre = "?sep @ take 2 (after_sep ?sep ?cs)"
  have eq: "body = ?pre @ drop 2 (after_sep ?sep ?cs)"
    by (simp add: body encode_multipart_after_sep)
  have len: "length ?pre = length b + 4" "length ?sep = length b + 2"
    using length_after_sep [of ?sep ?cs] by simp_all
  have "\<exists>ps. part_results a (length ?sep) (length ?pre) ?cs [] = Inr ps
    \<and> map (part_field body) ps = [] @ fs \<and> (\<forall>p \<in> set ps. in_buffer a p)"
    using fs by (intro part_results_fields [OF _ eq]) simp_all
  moreover have "parse_multipart a body (multipart_header b)
      = part_results a (length b + 2) (length b + 4) ?cs []"
    unfolding body using b fs by (intro parse_multipart_encode) auto
  ultimately show ?thesis unfolding len by simp
qed

end
