(* ===== verification/Request.thy ===== *)
theory Request
  imports Url Config Multipart
begin

section \<open>Requests\<close>

text \<open>
  Models \<^verbatim>\<open>src/core/request.cpp\<close> and \<^verbatim>\<open>include/ynet/core/request.h\<close>. The parser
  takes the raw bytes and the configuration. Its three outcomes are a request, a request
  marked with \<open>rq_parse_error\<close>, and an exception that leaves the function. The body of a
  multipart request is copied to a buffer of its own for the time of the call; the allocator
  is the argument \<open>new\<close>, and the heap after the call is part of the result. The session
  pointer is the address of a session object.
\<close>

record request =
  rq_method :: string
  rq_path :: string
  rq_version :: string
  rq_headers :: "string \<rightharpoonup> string"
  rq_body :: string
  rq_client_ip :: string
  rq_query_params :: "string \<rightharpoonup> string"
  rq_parts :: "part list"
  rq_csrf_token :: string
  rq_form_data :: "string \<rightharpoonup> string"
  rq_parse_error :: bool
  rq_error_code :: nat
  rq_params :: "string \<rightharpoonup> string"
  rq_session :: "nat option"

definition empty_request :: request where
  "empty_request =
     \<lparr>rq_method = [], rq_path = [], rq_version = [], rq_headers = Map.empty, rq_body = [],
      rq_client_ip = [], rq_query_params = Map.empty, rq_parts = [], rq_csrf_token = [],
      rq_form_data = Map.empty, rq_parse_error = False, rq_error_code = 0, rq_params = Map.empty,
      rq_session = None\<rparr>"

definition getHeader :: "request \<Rightarrow> string \<Rightarrow> string option" where
  "getHeader req key = rq_headers req key"

definition getQueryParam :: "request \<Rightarrow> string \<Rightarrow> string option" where
  "getQueryParam req key = rq_query_params req key"

definition getFormParam :: "request \<Rightarrow> string \<Rightarrow> string option" where
  "getFormParam req key = rq_form_data req key"

definition getParam :: "request \<Rightarrow> string \<Rightarrow> string option" where
  "getParam req key = rq_params req key"

definition setParam :: "request \<Rightarrow> string \<Rightarrow> string \<Rightarrow> request" where
  "setParam req key val = req\<lparr>rq_params := (rq_params req)(key \<mapsto> val)\<rparr>"

definition request_error :: "request \<Rightarrow> nat \<Rightarrow> request" where
  "request_error req code = req\<lparr>rq_parse_error := True, rq_error_code := code\<rparr>"

subsection \<open>The parser\<close>

text \<open>The size checks: an error code, or the position of the blank line.\<close>

definition parse_limits :: "config \<Rightarrow> string \<Rightarrow> nat + nat" where
  "parse_limits config data =
     (if length data > size_add (cfg_max_header_size config) (cfg_max_body_size config) then Inl 413
      else case find_from data (crlf @ crlf) 0 of
        None \<Rightarrow> Inl 400
      | Some header_end \<Rightarrow>
          if header_end > cfg_max_header_size config then Inl 413
          else if length data - (header_end + 4) > cfg_max_body_size config then Inl 413
          else Inr header_end)"

definition known_methods :: "string list" where
  "known_methods = [''GET'', ''POST'', ''PUT'', ''DELETE'', ''PATCH'', ''HEAD'', ''OPTIONS'']"

definition known_versions :: "string list" where
  "known_versions = [''HTTP/1.0'', ''HTTP/1.1'']"

text \<open>
  The request line: an early return on the left; the request and the end of the line on the
  right. The length of the version is a difference of \<^verbatim>\<open>size_t\<close> values, which wraps
  around when the second space lies after the end of the line.
\<close>

definition split_target :: "string \<Rightarrow> string \<times> (string \<rightharpoonup> string)" where
  "split_target target =
     (case find_from target [CHR ''?''] 0 of
        None \<Rightarrow> (target, Map.empty)
      | Some qpos \<Rightarrow> (substr target 0 qpos, parseQuery (drop (qpos + 1) target)))"

definition parse_request_line :: "string \<Rightarrow> request + request \<times> nat" where
  "parse_request_line data =
     (let sp1 = find_from data '' '' 0;
          sp2 = find_from data '' '' (case sp1 of None \<Rightarrow> 0 | Some i \<Rightarrow> i + 1);
          line_end = find_from data crlf 0
      in case (sp1, sp2, line_end) of
           (Some sp1, Some sp2, Some line_end) \<Rightarrow>
             let (path0, query) = split_target (substr data (sp1 + 1) (sp2 - sp1 - 1));
                 path1 = urlDecode path0;
                 req1 = empty_request\<lparr>rq_method := substr data 0 sp1, rq_path := path1,
                          rq_query_params := query\<rparr>
             in if isDoubleEncoded path1 then Inl (request_error req1 400)
                else
                  let req2 = req1\<lparr>rq_path := normalizePath path1,
                        rq_version := substr data (sp2 + 1) (size_sub (size_sub line_end sp2) 1)\<rparr>
                  in if rq_method req2 \<notin> set known_methods then Inl (request_error req2 400)
                     else if rq_version req2 \<notin> set known_versions then Inl (request_error req2 400)
                     else Inr (req2, line_end)
         | _ \<Rightarrow> Inl (request_error empty_request 400))"

text \<open>The header lines; lines without a colon are skipped and not counted.\<close>

definition add_header :: "request \<Rightarrow> string \<Rightarrow> nat \<Rightarrow> request" where
  "add_header req header colon =
     (let key = substr header 0 colon;
          val = (case find_first_not_of header [CHR '' '', CHR 0x09] (colon + 1) of
                   Some value_start \<Rightarrow> drop value_start header | None \<Rightarrow> [])
      in req\<lparr>rq_headers := (rq_headers req)(key \<mapsto> val)\<rparr>)"


function header_loop ::
  "string \<Rightarrow> int \<Rightarrow> nat \<Rightarrow> nat \<Rightarrow> request \<Rightarrow> request + request \<times> nat" where
  "header_loop data max_headers pos header_count req =
     (case find_from data crlf pos of
        None \<Rightarrow> Inr (req, pos)
      | Some nxt \<Rightarrow>
          if nxt = pos then Inr (req, pos)
          else
            let header = substr data pos (nxt - pos) in
            case find_from header '':'' 0 of
              None \<Rightarrow> header_loop data max_headers (nxt + 2) header_count req
            | Some colon \<Rightarrow>
                let req' = add_header req header colon in
                if int (header_count + 1) > max_headers then Inl (request_error req' 431)
                else header_loop data max_headers (nxt + 2) (header_count + 1) req')"
  by pat_completeness auto
termination
  by (relation "measure (\<lambda>(data, m, pos, n, req). Suc (length data) - pos)")
    (auto dest!: find_from_bounds)

declare header_loop.simps [simp del]

text \<open>The declared length, which must be the number of bytes after the blank line.\<close>

definition content_length_ok :: "request \<Rightarrow> bool" where
  "content_length_ok req =
     (case getHeader req ''Content-Length'' of
        None \<Rightarrow> True
      | Some cl \<Rightarrow>
          (case from_chars_size cl of
             Inl _ \<Rightarrow> False
           | Inr content_length \<Rightarrow> content_length = length (rq_body req)))"

text \<open>
  Multipart forms: the body is copied to a fresh buffer, which is released when the parser
  and the pointer to it go out of scope; the parts are kept in the request.
\<close>

fun copy_form :: "heap \<Rightarrow> part list \<Rightarrow> (string \<rightharpoonup> string) \<Rightarrow> (string \<rightharpoonup> string) result" where
  "copy_form h [] form = Inr form"
| "copy_form h (p # ps) form =
     (if pt_filename p = []
      then bind_result (read_view h (pt_data p)) (\<lambda>t. copy_form h ps (form(pt_name p \<mapsto> t)))
      else copy_form h ps form)"

definition parse_form_parts :: "(heap \<Rightarrow> nat) \<Rightarrow> heap \<Rightarrow> request \<Rightarrow> string \<Rightarrow> request result \<times> heap" where
  "parse_form_parts new h req ct =
     (let a = new h; h1 = h(a \<mapsto> rq_body req)
      in (bind_result (parse_multipart a (rq_body req) ct) (\<lambda>parts.
          bind_result (copy_form h1 parts (rq_form_data req)) (\<lambda>form.
          Inr (req\<lparr>rq_parts := parts, rq_form_data := form\<rparr>))),
          h1(a := None)))"

definition contains :: "string \<Rightarrow> string \<Rightarrow> bool" where
  "contains s pat \<longleftrightarrow> find_from s pat 0 \<noteq> None"

definition parse_body :: "(heap \<Rightarrow> nat) \<Rightarrow> heap \<Rightarrow> request \<Rightarrow> request result \<times> heap" where
  "parse_body new h req =
     (case getHeader req ''Content-Type'' of
        None \<Rightarrow> (Inr req, h)
      | Some ct \<Rightarrow>
          if contains ct ''multipart/form-data'' then
            if \<not> contains ct ''boundary='' then (Inr (request_error req 400), h)
            else parse_form_parts new h req ct
          else if contains ct ''application/x-www-form-urlencoded'' then
            (Inr (req\<lparr>rq_form_data := parseQuery (rq_body req)\<rparr>), h)
          else (Inr req, h))"

definition parse_request ::
  "(heap \<Rightarrow> nat) \<Rightarrow> config \<Rightarrow> heap \<Rightarrow> string \<Rightarrow> request result \<times> heap" where
  "parse_request new config h data =
     (case parse_limits config data of
        Inl code \<Rightarrow> (Inr (request_error empty_request code), h)
      | Inr header_end \<Rightarrow>
          (case parse_request_line data of
             Inl req \<Rightarrow> (Inr req, h)
           | Inr (req1, line_end) \<Rightarrow>
               (case header_loop data (cfg_max_headers config) (line_end + 2) 0 req1 of
                  Inl req \<Rightarrow> (Inr req, h)
                | Inr (req2, pos) \<Rightarrow>
                    (case substr_at data (pos + 2) None of
                       Inl e \<Rightarrow> (Inl e, h)
                     | Inr body \<Rightarrow>
                         let req3 = req2\<lparr>rq_body := body\<rparr> in
                         if content_length_ok req3 then parse_body new h req3
                         else (Inr (request_error req3 400), h)))))"

subsection \<open>The header loop ends at the blank line\<close>

lemma prefix_Cons_Cons_iff: "prefix [a, b] s \<longleftrightarrow> 2 \<le> length s \<and> s ! 0 = a \<and> s ! 1 = b"
  by (cases s rule: remdups_adj.cases) auto

lemma crlf_at: "prefix crlf (drop i s) \<longleftrightarrow> i + 2 \<le> length s \<and> s ! i = CHR 0x0D \<and> s ! Suc i = CHR 0x0A"
  by (auto simp: prefix_Cons_Cons_iff)

lemma blank_line_at:
  "prefix (crlf @ crlf) (drop i s) \<longleftrightarrow> prefix crlf (drop i s) \<and> prefix crlf (drop (i + 2) s)"
  using prefix_append_iff [of crlf crlf "drop i s"] by (simp add: add.commute)

text \<open>
  The state the loop is in between two lines: right after a line end, not past the blank line.
\<close>

definition at_line_start :: "string \<Rightarrow> nat \<Rightarrow> bool" where
  "at_line_start data pos \<longleftrightarrow> 2 \<le> pos \<and> prefix crlf (drop (pos - 2) data)"

lemma line_start_next:
  assumes he: "find_sub (crlf @ crlf) data = Some he"
    and pos: "at_line_start data pos" "pos \<le> he + 2"
  obtains nxt where "find_from data crlf pos = Some nxt"
    and "nxt = pos \<Longrightarrow> pos = he + 2"
    and "nxt \<noteq> pos \<Longrightarrow> at_line_start data (nxt + 2) \<and> nxt + 2 \<le> he + 2"
proof -
  from he have he1: "prefix crlf (drop he data)" "prefix crlf (drop (he + 2) data)"
    and he2: "\<And>j. j < he \<Longrightarrow> \<not> (prefix crlf (drop j data) \<and> prefix crlf (drop (j + 2) data))"
    using blank_line_at by (auto simp only: find_sub_Some_iff)
  have "he + 2 \<le> length data" using he1(1) crlf_at by blast
  then have "find_from data crlf pos \<noteq> None"
    using he1(2) pos(2) by (auto simp only: find_from_None_iff)
  then obtain nxt where nxt: "find_from data crlf pos = Some nxt" by blast
  note n = nxt [unfolded find_from_Some_iff]
  show thesis
  proof (rule that [OF nxt])
    assume eq: "nxt = pos"
    obtain k where k: "pos = k + 2" using pos(1) by (metis at_line_start_def le_add_diff_inverse2)
    have "prefix crlf (drop k data)" using pos(1) by (simp only: at_line_start_def k diff_add_inverse2)
    moreover have "prefix crlf (drop (k + 2) data)" using n eq by (simp only: k)
    ultimately have "\<not> k < he" using he2 by blast
    with pos(2) show "pos = he + 2" by (simp add: k)
  next
    assume neq: "nxt \<noteq> pos"
    have "pos \<noteq> he + 2" using neq n he1(2) by force
    moreover have "pos \<noteq> he + 1"
    proof
      assume "pos = he + 1"
      then have "data ! he = CHR 0x0A"
        using pos(1) by (auto simp: at_line_start_def crlf_at Suc_diff_le)
      with he1(1) show False by (simp add: crlf_at)
    qed
    ultimately have "pos \<le> he" using pos(2) by linarith
    with n he1(1) have "nxt \<le> he" by (meson not_le)
    with n show "at_line_start data (nxt + 2) \<and> nxt + 2 \<le> he + 2"
      by (simp add: at_line_start_def)
  qed
qed

text \<open>
  What the loop keeps: an invariant of \<open>add_header\<close>, the bound on the number of headers, and
  where it stops.
\<close>

lemma header_loop_step:
  assumes "find_from data crlf pos = Some nxt" and "nxt \<noteq> pos"
    and "header_loop data m pos n req = Inr (req', pos')"
  obtains "header_loop data m (nxt + 2) n req = Inr (req', pos')"
  | h c where "int (n + 1) \<le> m" "sublist h data"
      "header_loop data m (nxt + 2) (n + 1) (add_header req h c) = Inr (req', pos')"
  using assms sublist_substr [of data pos "nxt - pos"] by (auto simp: header_loop.simps [of data m pos] Let_def split: option.splits if_splits)

lemma header_loop_stop:
  assumes "find_from data crlf pos = Some pos \<or> find_from data crlf pos = None"
  shows "header_loop data m pos n req = Inr (req, pos)"
  using assms by (auto simp: header_loop.simps [of data m pos])

lemma header_loop_induct [consumes 1, case_names stop step]:
  assumes res: "header_loop data m pos n req = Inr (req', pos')"
    and stop: "\<And>pos n req. find_from data crlf pos = Some pos \<or> find_from data crlf pos = None \<Longrightarrow>
      req = req' \<Longrightarrow> pos = pos' \<Longrightarrow> P pos n req"
    and step: "\<And>pos nxt n n' req r. find_from data crlf pos = Some nxt \<Longrightarrow> nxt \<noteq> pos \<Longrightarrow>
      (n' = n \<and> r = req) \<or> (n' = n + 1 \<and> int (n + 1) \<le> m \<and> (\<exists>h c. r = add_header req h c \<and> sublist h data)) \<Longrightarrow>
      P (nxt + 2) n' r \<Longrightarrow> P pos n req"
  shows "P pos n req"
  using res
proof (induction "length data - pos" arbitrary: pos n req rule: less_induct)
  case less
  show ?case
  proof (cases "find_from data crlf pos = Some pos \<or> find_from data crlf pos = None")
    case True
    with less.prems show ?thesis by (intro stop [OF True]) (simp_all add: header_loop_stop)
  next
    case False
    then obtain nxt where nxt: "find_from data crlf pos = Some nxt" "nxt \<noteq> pos" by auto
    with find_from_bounds [OF nxt(1)] have dec: "length data - (nxt + 2) < length data - pos" by simp arith
    from nxt less.prems show ?thesis
    proof (cases rule: header_loop_step)
      case 1
      with less.hyps [OF dec] nxt show ?thesis by (blast intro: step)
    next
      case (2 h c)
      with less.hyps [OF dec] nxt show ?thesis by (blast intro: step)
    qed
  qed
qed

lemma header_loop_keeps:
  assumes "header_loop data m pos n req = Inr (req', pos')" and "P req"
    and "\<And>r h c. P r \<Longrightarrow> sublist h data \<Longrightarrow> P (add_header r h c)"
  shows "P req'"
  using assms(1,2) by (induction rule: header_loop_induct) (use assms(3) in blast)+

lemma dom_add_header: "dom (rq_headers (add_header r h c)) \<subseteq> insert (substr h 0 c) (dom (rq_headers r))"
  by (auto simp: add_header_def Let_def split: if_splits)

lemma card_add_header:
  assumes "finite (dom (rq_headers r))"
  shows "finite (dom (rq_headers (add_header r h c)))
    \<and> card (dom (rq_headers (add_header r h c))) \<le> Suc (card (dom (rq_headers r)))"
proof -
  let ?A = "insert (substr h 0 c) (dom (rq_headers r))"
  have "finite ?A" using assms by simp
  moreover have "card ?A \<le> Suc (card (dom (rq_headers r)))"
    using assms by (simp add: card_insert_if)
  ultimately show ?thesis
    using dom_add_header [of r h c] by (meson card_mono finite_subset le_trans)
qed

lemma header_loop_count:
  assumes "header_loop data m pos n req = Inr (req', pos')"
    and "finite (dom (rq_headers req)) \<and> card (dom (rq_headers req)) \<le> n \<and> int n \<le> max 0 m"
  shows "finite (dom (rq_headers req')) \<and> int (card (dom (rq_headers req'))) \<le> max 0 m"
  using assms
proof (induction rule: header_loop_induct)
  case (stop pos n req)
  then show ?case by auto
next
  case (step pos nxt n n' req r)
  from step.hyps(3) show ?case
  proof
    assume "n' = n \<and> r = req"
    with step show ?thesis by simp
  next
    assume "n' = n + 1 \<and> int (n + 1) \<le> m \<and> (\<exists>h c. r = add_header req h c \<and> sublist h data)"
    then obtain h c where "n' = n + 1" "int (n + 1) \<le> m" "r = add_header req h c" by blast
    with step.IH step.prems card_add_header [of req h c] show ?thesis by simp
  qed
qed

lemma header_loop_end:
  assumes "header_loop data m pos n req = Inr (req', pos')"
    and "find_sub (crlf @ crlf) data = Some he" and "at_line_start data pos" and "pos \<le> he + 2"
  shows "pos' = he + 2"
  using assms
proof (induction rule: header_loop_induct)
  case (stop pos n req)
  then show ?case by (metis line_start_next option.inject option.distinct(1))
next
  case (step pos nxt n n' req r)
  obtain nxt' where "find_from data crlf pos = Some nxt'"
    "nxt' \<noteq> pos \<Longrightarrow> at_line_start data (nxt' + 2) \<and> nxt' + 2 \<le> he + 2"
    using line_start_next [OF step.prems] by metis
  with step show ?case by simp
qed


subsection \<open>What the parser guarantees\<close>

text \<open>The fields of a request that the request line fixes, and what it guarantees of them.\<close>

definition line_ok :: "request \<Rightarrow> bool" where
  "line_ok r \<longleftrightarrow> rq_method r \<in> set known_methods \<and> rq_version r \<in> set known_versions
     \<and> normalizePath (rq_path r) = rq_path r \<and> \<not> isDoubleEncoded (rq_path r)
     \<and> rq_session r = None \<and> rq_params r = Map.empty \<and> \<not> rq_parse_error r"

lemma normalizePath_idem: "normalizePath (normalizePath p) = normalizePath p"
  by (simp add: normalizePath_split [of "normalizePath p"] path_segments_normalize)
    (simp add: normalizePath_split)

lemma parse_request_line_Inr:
  assumes "parse_request_line data = Inr (r, line_end)"
  shows "line_ok r \<and> rq_headers r = Map.empty \<and> find_sub crlf data = Some line_end"
  using assms
  by (auto simp: parse_request_line_def line_ok_def empty_request_def Let_def normalizePath_idem
    normalizePath_no_new_escape split: option.splits prod.splits if_splits)

lemma first_line_start:
  assumes "find_sub crlf data = Some line_end" and "find_sub (crlf @ crlf) data = Some he"
  shows "at_line_start data (line_end + 2)" and "line_end + 2 \<le> he + 2"
proof -
  from assms(1) show "at_line_start data (line_end + 2)"
    by (simp add: at_line_start_def find_sub_Some_iff)
  have "prefix crlf (drop he data)"
    using assms(2) blank_line_at by (simp only: find_sub_Some_iff)
  then have "\<not> he < line_end" using assms(1) by (auto simp only: find_sub_Some_iff)
  then show "line_end + 2 \<le> he + 2" by simp
qed

lemma line_ok_add_header: "line_ok r \<Longrightarrow> line_ok (add_header r h c)"
  by (simp add: line_ok_def add_header_def Let_def)

text \<open>
  \<open>parse_body\<close> fills in the parts and the form, and may turn the request into an error;
  nothing else of the request changes.
\<close>

definition without_form :: "request \<Rightarrow> request" where
  "without_form r = r\<lparr>rq_parts := [], rq_form_data := Map.empty\<rparr>"

lemma without_form_fields:
  assumes "without_form r = without_form req"
  shows "rq_headers r = rq_headers req" "rq_body r = rq_body req" "line_ok r = line_ok req"
    "rq_query_params r = rq_query_params req" "rq_method r = rq_method req" "rq_path r = rq_path req"
    "rq_version r = rq_version req" "rq_parse_error r = rq_parse_error req"
  using arg_cong [OF assms, of rq_headers] arg_cong [OF assms, of rq_body] arg_cong [OF assms, of line_ok]
    arg_cong [OF assms, of rq_query_params] arg_cong [OF assms, of rq_method] arg_cong [OF assms, of rq_path]
    arg_cong [OF assms, of rq_version] arg_cong [OF assms, of rq_parse_error]
  by (simp_all add: without_form_def line_ok_def)

lemma parse_form_parts_Inr:
  assumes "parse_form_parts new h req ct = (Inr r, h')"
  shows "without_form r = without_form req \<and> h' = h(new h := None)
    \<and> parse_multipart (new h) (rq_body req) ct = Inr (rq_parts r)"
  using assms by (auto simp: parse_form_parts_def Let_def bind_result_eq_Inr without_form_def)

lemma parse_body_Inr:
  assumes "parse_body new h req = (Inr r, h')" and "\<not> rq_parse_error r"
  shows "without_form r = without_form req"
  using assms by (auto simp: parse_body_def request_error_def without_form_def
    split: option.splits if_splits dest!: parse_form_parts_Inr)

lemma parse_request_line_Inl: "parse_request_line data = Inl r \<Longrightarrow> rq_parse_error r"
  by (auto simp: parse_request_line_def request_error_def Let_def
    split: option.splits prod.splits if_splits)

lemma header_loop_Inl: "header_loop data m pos n req = Inl r \<Longrightarrow> rq_parse_error r"
proof (induction data m pos n req rule: header_loop.induct)
  case (1 data m pos n req)
  then show ?case
    by (auto simp: header_loop.simps [of data m pos] request_error_def Let_def
      split: option.splits if_splits)
qed

text \<open>The shape of an accepted request.\<close>

lemma parse_limits_Inr:
  assumes "parse_limits config data = Inr he"
  shows "find_sub (crlf @ crlf) data = Some he" "he + 4 \<le> length data"
    "he \<le> cfg_max_header_size config" "length data - (he + 4) \<le> cfg_max_body_size config"
  using assms find_sub_bound [of "crlf @ crlf" data he]
  by (auto simp: parse_limits_def split: option.splits if_splits)

lemma parse_request_accepted:
  assumes "parse_request new config h data = (Inr r, h')" and "\<not> rq_parse_error r"
  obtains he req1 line_end req2 where
    "parse_limits config data = Inr he"
    "parse_request_line data = Inr (req1, line_end)"
    "header_loop data (cfg_max_headers config) (line_end + 2) 0 req1 = Inr (req2, he + 2)"
    "content_length_ok (req2\<lparr>rq_body := drop (he + 4) data\<rparr>)"
    "parse_body new h (req2\<lparr>rq_body := drop (he + 4) data\<rparr>) = (Inr r, h')"
proof -
  from assms parse_request_line_Inl header_loop_Inl obtain he req1 le req2 pos body where
    lim: "parse_limits config data = Inr he"
    and line: "parse_request_line data = Inr (req1, le)"
    and loop: "header_loop data (cfg_max_headers config) (le + 2) 0 req1 = Inr (req2, pos)"
    and body: "substr_at data (pos + 2) None = Inr body"
    and rest: "content_length_ok (req2\<lparr>rq_body := body\<rparr>)"
      "parse_body new h (req2\<lparr>rq_body := body\<rparr>) = (Inr r, h')"
    by (auto simp: parse_request_def request_error_def Let_def split: sum.splits if_splits)
  have "find_sub crlf data = Some le" using parse_request_line_Inr [OF line] by blast
  note start = first_line_start [OF this parse_limits_Inr(1) [OF lim]]
  have "pos = he + 2"
    by (rule header_loop_end [OF loop parse_limits_Inr(1) [OF lim] start])
  with body have "body = drop (he + 4) data"
    by (simp add: substr_at_def numeral_eq_Suc split: if_splits)
  with \<open>pos = he + 2\<close> that lim line loop rest show thesis by simp
qed


lemma accepted_line_ok:
  assumes "parse_request new config h data = (Inr r, h')" and "\<not> rq_parse_error r"
  shows "line_ok r"
  using assms
proof (rule parse_request_accepted)
  fix he req1 le req2
  assume line: "parse_request_line data = Inr (req1, le)"
    and loop: "header_loop data (cfg_max_headers config) (le + 2) 0 req1 = Inr (req2, he + 2)"
    and body: "parse_body new h (req2\<lparr>rq_body := drop (he + 4) data\<rparr>) = (Inr r, h')"
  have "line_ok req2"
    using parse_request_line_Inr [OF line] by (intro header_loop_keeps [OF loop, of line_ok] line_ok_add_header) auto
  then have "line_ok (req2\<lparr>rq_body := drop (he + 4) data\<rparr>)" by (simp add: line_ok_def)
  then show "line_ok r"
    using without_form_fields(3) [OF parse_body_Inr [OF body assms(2)]] by simp
qed

lemma accepted_limits:
  assumes "parse_request new config h data = (Inr r, h')" and "\<not> rq_parse_error r"
  shows "\<exists>he. find_sub (crlf @ crlf) data = Some he \<and> rq_body r = drop (he + 4) data
    \<and> he \<le> cfg_max_header_size config \<and> length (rq_body r) \<le> cfg_max_body_size config
    \<and> int (card (dom (rq_headers r))) \<le> max 0 (cfg_max_headers config) \<and> content_length_ok r"
  using assms
proof (rule parse_request_accepted)
  fix he req1 le req2
  assume lim: "parse_limits config data = Inr he"
    and line: "parse_request_line data = Inr (req1, le)"
    and loop: "header_loop data (cfg_max_headers config) (le + 2) 0 req1 = Inr (req2, he + 2)"
    and cl: "content_length_ok (req2\<lparr>rq_body := drop (he + 4) data\<rparr>)"
    and body: "parse_body new h (req2\<lparr>rq_body := drop (he + 4) data\<rparr>) = (Inr r, h')"
  note same = without_form_fields [OF parse_body_Inr [OF body assms(2)]]
  have "int (card (dom (rq_headers req2))) \<le> max 0 (cfg_max_headers config)"
    using header_loop_count [OF loop] parse_request_line_Inr [OF line] by simp
  moreover have "content_length_ok r"
    using cl same by (simp add: content_length_ok_def getHeader_def split: option.splits sum.splits)
  ultimately show ?thesis
    using parse_limits_Inr [OF lim] same by simp
qed


subsection \<open>Exceptions and views\<close>

definition values_in :: "string \<Rightarrow> request \<Rightarrow> bool" where
  "values_in data r \<longleftrightarrow> (\<forall>v \<in> ran (rq_headers r). sublist v data)"

lemma add_header_values:
  assumes "values_in data r" and "sublist h data"
  shows "values_in data (add_header r h c)"
proof -
  have "sublist (drop k h) data" for k
    using assms(2) by (rule sublist_order.order_trans [OF sublist_drop])
  then show ?thesis
    using assms(1) by (auto simp: values_in_def add_header_def Let_def ran_def split: option.splits if_splits)
qed

lemma contains_sublist: "contains s pat \<longleftrightarrow> sublist pat s"
proof
  assume "contains s pat"
  then obtain i where "find_sub pat s = Some i" by (auto simp: contains_def)
  then have "prefix pat (drop i s)" by (simp add: find_sub_Some_iff)
  then show "sublist pat s"
    by (rule sublist_order.order_trans [OF prefix_imp_sublist sublist_drop])
next
  assume "sublist pat s"
  then obtain xs ys where s: "s = xs @ pat @ ys" by (auto simp: sublist_def)
  then have "length xs \<le> length s" "prefix pat (drop (length xs) s)" by simp_all
  then show "contains s pat" by (auto simp: contains_def find_sub_None_iff)
qed

lemma contains_infix: "contains (xs @ pat @ ys) pat"
  by (auto simp: contains_sublist sublist_def)

lemma sublist_find: "contains v pat \<Longrightarrow> sublist v data \<Longrightarrow> contains data pat"
  unfolding contains_sublist by (rule sublist_order.order_trans)

lemma parsePart_in_buffer: "parsePart a base raw = Inr (Some p) \<Longrightarrow> in_buffer a p"
  by (auto simp: parsePart_def in_buffer_def Let_def bind_result_eq_Inr split: option.splits if_splits)

lemma part_loop_in_buffer:
  "part_loop a body sep cur prev parts = Inr ps \<Longrightarrow> \<forall>p \<in> set parts. in_buffer a p \<Longrightarrow>
   \<forall>p \<in> set ps. in_buffer a p"
proof (induction a body sep cur prev parts rule: part_loop.induct)
  case (1 a body sep cur prev parts)
  show ?case
  proof (cases "find_from body sep cur")
    case None
    with "1.prems" show ?thesis by (simp add: part_loop.simps [of a body sep cur])
  next
    case (Some it)
    define chunk where "chunk = (case prev of None \<Rightarrow> Inr parts
      | Some p \<Rightarrow> if it - p > 2
          then bind_result (parsePart a p (substr body p (it - p - 2))) (\<lambda>q. Inr (push_part parts q))
          else Inr parts)"
    from Some "1.prems"(1) obtain parts' where parts': "chunk = Inr parts'"
      and rest: "it + length sep + 2 > length body \<and> ps = parts' \<or>
        \<not> it + length sep + 2 > length body
        \<and> part_loop a body sep (it + length sep + 2) (Some (it + length sep + 2)) parts' = Inr ps"
      by (auto simp: part_loop.simps [of a body sep cur] Let_def bind_result_eq_Inr chunk_def split: if_splits)
    have "\<forall>p \<in> set parts'. in_buffer a p"
      using parts' "1.prems"(2)
      by (auto simp: chunk_def push_part_def bind_result_eq_Inr split: option.splits if_splits)
        (metis parsePart_in_buffer)
    with rest "1.IH" [OF Some refl] show ?thesis by auto
  qed
qed

lemma parse_multipart_in_buffer: "parse_multipart a body ct = Inr ps \<Longrightarrow> \<forall>p \<in> set ps. in_buffer a p"
  by (auto simp: parse_multipart_def Let_def split: if_splits dest: part_loop_in_buffer)

lemma accepted_parts_in_buffer:
  assumes "parse_request new config h data = (Inr r, h')" and "\<not> rq_parse_error r"
  shows "rq_parts r = [] \<or> h' = h(new h := None) \<and> (\<forall>p \<in> set (rq_parts r). in_buffer (new h) p)"
  using assms
proof (rule parse_request_accepted)
  fix he req1 le req2
  assume line: "parse_request_line data = Inr (req1, le)"
    and loop: "header_loop data (cfg_max_headers config) (le + 2) 0 req1 = Inr (req2, he + 2)"
    and body: "parse_body new h (req2\<lparr>rq_body := drop (he + 4) data\<rparr>) = (Inr r, h')"
  have "rq_parts req1 = []"
    using line by (auto simp: parse_request_line_def empty_request_def Let_def
      split: option.splits prod.splits if_splits)
  then have "rq_parts req2 = []"
    by (intro header_loop_keeps [OF loop, of "\<lambda>r. rq_parts r = []"])
      (auto simp: add_header_def Let_def)
  with body show ?thesis
    by (auto simp: parse_body_def request_error_def split: option.splits if_splits
      dest!: parse_form_parts_Inr parse_multipart_in_buffer)
qed


lemma copy_form_live:
  assumes "h a = Some t" and "\<forall>p \<in> set ps. in_buffer a p"
  shows "\<exists>form'. copy_form h ps form = Inr form'"
  using assms(2)
  by (induction ps arbitrary: form) (auto simp: read_view_def in_buffer_def assms(1))

lemma part_content_type_Inl: "part_content_type header = Inl e \<Longrightarrow> e = Out_of_range"
  by (auto simp: part_content_type_def substr_at_def Let_def split: option.splits if_splits)

lemma bind_result_eq_Inl:
  "bind_result m f = Inl e \<longleftrightarrow> m = Inl e \<or> (\<exists>x. m = Inr x \<and> f x = Inl e)"
  by (cases m) auto

lemma parsePart_Inl: "parsePart a base raw = Inl e \<Longrightarrow> e = Out_of_range"
  by (auto simp: parsePart_def Let_def bind_result_eq_Inl split: option.splits if_splits
    dest: part_content_type_Inl)

lemma part_loop_Inl: "part_loop a body sep cur prev parts = Inl e \<Longrightarrow> e = Out_of_range"
proof (induction a body sep cur prev parts rule: part_loop.induct)
  case (1 a body sep cur prev parts)
  from "1.prems" obtain it where Some: "find_from body sep cur = Some it"
    by (auto simp: part_loop.simps [of a body sep cur] split: option.splits)
  with "1.prems" "1.IH" [OF Some refl] show ?case
    by (auto simp: part_loop.simps [of a body sep cur] Let_def bind_result_eq_Inl
      split: option.splits if_splits dest: parsePart_Inl)
qed

lemma parse_multipart_Inl: "parse_multipart a body ct = Inl e \<Longrightarrow> e = Out_of_range"
  by (auto simp: parse_multipart_def Let_def split: if_splits dest: part_loop_Inl)

lemma parse_form_parts_Inl:
  assumes "parse_form_parts new h req ct = (Inl e, h')"
  shows "e = Out_of_range"
proof (cases "parse_multipart (new h) (rq_body req) ct")
  case (Inl e')
  with assms parse_multipart_Inl show ?thesis by (simp add: parse_form_parts_def Let_def)
next
  case (Inr ps)
  obtain form where "copy_form (h(new h \<mapsto> rq_body req)) ps (rq_form_data req) = Inr form"
    using copy_form_live [of "h(new h \<mapsto> rq_body req)" "new h" "rq_body req" ps "rq_form_data req"]
      parse_multipart_in_buffer [OF Inr] by auto
  with assms Inr show ?thesis by (simp add: parse_form_parts_def Let_def)
qed

lemma parse_body_Inl:
  assumes "parse_body new h req = (Inl e, h')"
  obtains ct where "rq_headers req ''Content-Type'' = Some ct" "contains ct ''multipart/form-data''"
    "parse_form_parts new h req ct = (Inl e, h')"
  using assms by (auto simp: parse_body_def getHeader_def split: option.splits if_splits)

lemma parse_request_Inl:
  assumes "parse_request new config h data = (Inl e, h')"
  shows "e = Out_of_range \<and> contains data ''multipart/form-data''"
proof -
  from assms obtain he req1 le req2 pos where
    lim: "parse_limits config data = Inr he"
    and line: "parse_request_line data = Inr (req1, le)"
    and loop: "header_loop data (cfg_max_headers config) (le + 2) 0 req1 = Inr (req2, pos)"
    and rest: "substr_at data (pos + 2) None = Inl e
      \<or> parse_body new h (req2\<lparr>rq_body := drop (pos + 2) data\<rparr>) = (Inl e, h')"
    by (auto simp: parse_request_def Let_def substr_at_def split: sum.splits if_splits)
  have "find_sub crlf data = Some le" using parse_request_line_Inr [OF line] by blast
  note start = first_line_start [OF this parse_limits_Inr(1) [OF lim]]
  have "pos = he + 2"
    by (rule header_loop_end [OF loop parse_limits_Inr(1) [OF lim] start])
  with rest parse_limits_Inr(2) [OF lim]
  have body: "parse_body new h (req2\<lparr>rq_body := drop (pos + 2) data\<rparr>) = (Inl e, h')"
    by (auto simp: substr_at_def)
  have "values_in data req2"
    by (rule header_loop_keeps [OF loop, of "values_in data"])
      (simp_all add: parse_request_line_Inr [OF line] values_in_def [of _ req1] add_header_values)
  moreover from body obtain ct where ct: "rq_headers req2 ''Content-Type'' = Some ct"
    "contains ct ''multipart/form-data''" and "e = Out_of_range"
    by (rule parse_body_Inl) (auto dest: parse_form_parts_Inl)
  moreover from ct(1) have "ct \<in> ran (rq_headers req2)" by (rule ranI)
  ultimately show ?thesis using sublist_find [OF ct(2)] by (simp add: values_in_def)
qed


subsection \<open>Properties\<close>

text \<open>C7. Every accepted request has a known method and version and a path in normal form that
  holds neither a null byte nor a percent escape: inspection of the path (routes, the path
  guard, static files) cannot be bypassed by another spelling of it.\<close>

theorem accepted_request_canonical:
  assumes "parse_request new config h data = (Inr r, h')" and "\<not> rq_parse_error r"
  shows "rq_method r \<in> set known_methods \<and> rq_version r \<in> set known_versions
    \<and> normalizePath (rq_path r) = rq_path r \<and> \<not> isDoubleEncoded (rq_path r)"
  using accepted_line_ok [OF assms] by (simp add: line_ok_def)

text \<open>C8. Every accepted request respects the configured limits on the header block, the body
  and the number of headers; its body is exactly what follows the first blank line, and agrees
  with the declared length when there is one.\<close>

theorem accepted_request_limits:
  assumes "parse_request new config h data = (Inr r, h')" and "\<not> rq_parse_error r"
  shows "\<exists>he. find_sub (crlf @ crlf) data = Some he \<and> rq_body r = drop (he + 4) data
    \<and> he \<le> cfg_max_header_size config \<and> length (rq_body r) \<le> cfg_max_body_size config
    \<and> int (card (dom (rq_headers r))) \<le> max 0 (cfg_max_headers config)
    \<and> (\<forall>cl. getHeader r ''Content-Length'' = Some cl \<longrightarrow> from_chars_size cl = Inr (length (rq_body r)))"
  using accepted_limits [OF assms]
  by (auto simp: content_length_ok_def split: option.splits sum.splits)

text \<open>The parser throws nothing but \<open>std::out_of_range\<close>, and only on input that contains
  the text \<^verbatim>\<open>multipart/form-data\<close>; in particular the bytes after the header
  loop are always within range.\<close>

theorem parse_request_exceptions:
  assumes "fst (parse_request new config h data) = Inl e"
  shows "e = Out_of_range \<and> contains data ''multipart/form-data''"
  using parse_request_Inl [of new config h data e "snd (parse_request new config h data)"] assms
  by (metis prod.collapse)

text \<open>The data of the parts of an accepted multipart request cannot be read: the views
  point into a buffer that was released when the parser returned. Every consumer of
  \<open>getParts()\<close> (the CSRF check, \<open>saveFile\<close>) reads memory that is no longer alive.\<close>

theorem accepted_parts_dangle:
  assumes "parse_request new config h data = (Inr r, h')" and "\<not> rq_parse_error r"
    and "p \<in> set (rq_parts r)"
  shows "read_view h' (pt_data p) = Inl Undefined_behaviour"
  using accepted_parts_in_buffer [OF assms(1,2)] assms(3)
  by (auto simp: read_view_def in_buffer_def)

end
