(* ===== verification/Request_Roundtrip.thy ===== *)
theory Request_Roundtrip
  imports Request
begin

section \<open>Serialised requests are parsed back\<close>

text \<open>
  The converse of the guarantees of theory Request: a request written the way a client writes
  it is accepted, and every component comes back. The message is a method, a percent-coded
  path with an optional query string, a version, a list of headers and a body.
\<close>

record message =
  ms_method :: string
  ms_path :: string
  ms_query :: "(string \<times> string) list"
  ms_version :: string
  ms_headers :: "(string \<times> string) list"
  ms_body :: string

definition message_target :: "message \<Rightarrow> string" where
  "message_target m =
     urlEncode (ms_path m) @ (if ms_query m = [] then [] else CHR ''?'' # encode_query (ms_query m))"

definition header_line :: "string \<times> string \<Rightarrow> string" where
  "header_line kv = fst kv @ '': '' @ snd kv"

definition lines_text :: "string list \<Rightarrow> string" where
  "lines_text ls = concat (map (\<lambda>l. l @ crlf) ls)"

definition request_line :: "message \<Rightarrow> string" where
  "request_line m = ms_method m @ '' '' @ message_target m @ '' '' @ ms_version m"

definition message_text :: "message \<Rightarrow> string" where
  "message_text m =
     lines_text (request_line m # map header_line (ms_headers m)) @ crlf @ ms_body m"

subsection \<open>Lines\<close>

lemma lines_text_simps [simp]:
  "lines_text [] = []" "lines_text (l # ls) = l @ crlf @ lines_text ls"
  by (simp_all add: lines_text_def)

definition line_text_ok :: "string \<Rightarrow> bool" where
  "line_text_ok l \<longleftrightarrow> l \<noteq> [] \<and> CHR 0x0D \<notin> set l"

lemma find_crlf_line: "line_text_ok l \<Longrightarrow> find_sub crlf (l @ crlf @ t) = Some (length l)"
  by (simp add: line_text_ok_def find_sub_skip find_sub_here)

lemma find_blank_line:
  "\<forall>l \<in> set (l # ls). line_text_ok l \<Longrightarrow>
   find_sub (crlf @ crlf) (lines_text (l # ls) @ crlf @ t) = Some (length (lines_text (l # ls)) - 2)"
proof (induction ls arbitrary: l)
  case Nil
  then show ?case by (simp add: line_text_ok_def find_sub_skip find_sub_here)
next
  case (Cons l' ls)
  then obtain c cs where l': "l' = c # cs" "c \<noteq> CHR 0x0D" by (cases l') (auto simp: line_text_ok_def)
  have "find_sub (crlf @ crlf) (l @ crlf @ lines_text (l' # ls) @ crlf @ t)
      = map_option ((+) (length l + 2)) (find_sub (crlf @ crlf) (lines_text (l' # ls) @ crlf @ t))"
    using Cons.prems l' by (simp add: line_text_ok_def find_sub_skip option.map_comp o_def)
  moreover have "2 \<le> length (lines_text (l' # ls))" by simp
  ultimately show ?case
    using Cons.IH [of l'] Cons.prems by simp
qed

subsection \<open>The header loop on a list of lines\<close>

definition header_ok :: "string \<times> string \<Rightarrow> bool" where
  "header_ok kv \<longleftrightarrow> CHR '':'' \<notin> set (fst kv) \<and> CHR 0x0D \<notin> set (fst kv) \<and> CHR 0x0D \<notin> set (snd kv)
     \<and> (snd kv = [] \<or> hd (snd kv) \<notin> {CHR '' '', CHR 0x09})"

lemma header_line_ok: "header_ok kv \<Longrightarrow> line_text_ok (header_line kv)"
  by (simp add: header_ok_def line_text_ok_def header_line_def)

lemma header_line_colon: "header_ok kv \<Longrightarrow> find_from (header_line kv) '':'' 0 = Some (length (fst kv))"
  by (simp add: header_ok_def header_line_def)

lemma add_header_line:
  assumes "header_ok kv"
  shows "add_header r (header_line kv) (length (fst kv)) = r\<lparr>rq_headers := (rq_headers r)(fst kv \<mapsto> snd kv)\<rparr>"
proof -
  have "substr (header_line kv) 0 (length (fst kv)) = fst kv"
    by (simp add: substr_def header_line_def)
  moreover have "drop (length (fst kv) + 1) (header_line kv) = CHR '' '' # snd kv"
    by (simp add: header_line_def)
  moreover have "drop (Suc (length (fst kv) + 1)) (header_line kv) = snd kv"
    by (simp add: header_line_def)
  moreover have "length (header_line kv) = length (fst kv) + 2 + length (snd kv)"
    by (simp add: header_line_def)
  ultimately show ?thesis
    using assms by (cases "snd kv") (simp_all add: add_header_def find_first_not_of_def header_ok_def)
qed

lemma header_loop_line:
  assumes "header_ok kv" and "data = pre @ header_line kv @ crlf @ t" and "int (n + 1) \<le> m"
  shows "header_loop data m (length pre) n r =
    header_loop data m (length pre + length (header_line kv) + 2) (n + 1)
      (r\<lparr>rq_headers := (rq_headers r)(fst kv \<mapsto> snd kv)\<rparr>)"
proof -
  have "find_from data crlf (length pre) = Some (length pre + length (header_line kv))"
    using find_crlf_line [OF header_line_ok [OF assms(1)], of t] by (simp add: find_from_def assms(2))
  moreover have "substr data (length pre) (length (header_line kv)) = header_line kv"
    by (simp add: substr_def assms(2))
  moreover have "header_line kv \<noteq> []" using header_line_ok [OF assms(1)] by (simp add: line_text_ok_def)
  ultimately show ?thesis
    using assms(3) header_line_colon [OF assms(1)] add_header_line [OF assms(1)]
    by (simp add: header_loop.simps [of data m "length pre"] Let_def)
qed

lemma header_loop_lines:
  assumes "\<forall>kv \<in> set hs. header_ok kv" and "data = pre @ lines_text (map header_line hs) @ crlf @ t"
    and "int (n + length hs) \<le> m"
  shows "header_loop data m (length pre) n r =
    Inr (r\<lparr>rq_headers := rq_headers r ++ map_of (rev hs)\<rparr>, length pre + length (lines_text (map header_line hs)))"
  using assms
proof (induction hs arbitrary: pre n r)
  case Nil
  then have "find_from data crlf (length pre) = Some (length pre)"
    by (simp add: find_from_def find_sub_here)
  then show ?case by (simp add: header_loop_stop)
next
  case (Cons kv hs)
  let ?pre = "pre @ header_line kv @ crlf"
  define M where "M = (rq_headers r)(fst kv \<mapsto> snd kv)"
  have data: "data = ?pre @ lines_text (map header_line hs) @ crlf @ t" using Cons.prems(2) by simp
  have "header_loop data m (length pre) n r = header_loop data m (length ?pre) (n + 1) (r\<lparr>rq_headers := M\<rparr>)"
    using Cons.prems header_loop_line [of kv data pre "lines_text (map header_line hs) @ crlf @ t" n m r]
    by (simp add: M_def)
  moreover have "header_loop data m (length ?pre) (n + 1) (r\<lparr>rq_headers := M\<rparr>)
    = Inr (r\<lparr>rq_headers := M ++ map_of (rev hs)\<rparr>, length ?pre + length (lines_text (map header_line hs)))"
    using Cons.prems Cons.IH [OF _ data, of "n + 1" "r\<lparr>rq_headers := M\<rparr>"] by simp
  moreover have "M ++ map_of (rev hs) = rq_headers r ++ map_of (rev (kv # hs))"
    by (auto simp: M_def map_add_def fun_eq_iff split: option.split)
  ultimately show ?case by simp
qed


subsection \<open>The request line\<close>

lemma urlEncode_no: "\<not> is_unreserved c \<Longrightarrow> c \<noteq> CHR ''%'' \<Longrightarrow> c \<notin> set (urlEncode s)"
  using urlEncode_chars by blast

lemma encode_query_chars:
  assumes "c \<in> set (encode_query kvs)"
  shows "is_unreserved c \<or> c \<in> {CHR ''%'', CHR ''='', CHR ''&''}"
proof -
  have "c \<in> set (join_with (CHR ''&'') (map encode_pair kvs))"
    using assms by (metis encode_query_def list.set_sel(2) list.sel(2))
  then have "c = CHR ''&'' \<or> (\<exists>kv \<in> set kvs. c \<in> set (encode_pair kv))"
    by (auto dest!: set_join_with)
  then show ?thesis
    by (auto simp: encode_pair_def dest: urlEncode_chars)
qed

lemma reserved_chars:
  "\<not> is_unreserved (CHR '' '')" "\<not> is_unreserved (CHR 0x0D)" "\<not> is_unreserved (CHR ''?'')"
  by (simp_all add: is_unreserved_def is_alnum_def char_class)

lemma target_chars: "CHR '' '' \<notin> set (message_target m)" "CHR 0x0D \<notin> set (message_target m)"
  using reserved_chars
  by (auto simp: message_target_def dest!: encode_query_chars urlEncode_chars split: if_splits)

lemma split_message_target:
  "split_target (message_target m) = (urlEncode (ms_path m), map_of (rev (ms_query m)))"
proof (cases "ms_query m = []")
  case True
  then show ?thesis
    by (simp add: message_target_def split_target_def find_simps urlEncode_no reserved_chars)
next
  case False
  then show ?thesis
    by (simp add: message_target_def split_target_def urlEncode_no reserved_chars substr_def
      parseQuery_fold query_pieces_encode foldl_query_add_encode foldl_upd_map_of)
qed

definition message_ok :: "message \<Rightarrow> bool" where
  "message_ok m \<longleftrightarrow> ms_method m \<in> set known_methods \<and> ms_version m \<in> set known_versions
     \<and> \<not> isDoubleEncoded (ms_path m) \<and> (\<forall>kv \<in> set (ms_headers m). header_ok kv)"

lemma known_chars:
  "v \<in> set known_methods \<Longrightarrow> CHR '' '' \<notin> set v \<and> CHR 0x0D \<notin> set v"
  "v \<in> set known_versions \<Longrightarrow> CHR 0x0D \<notin> set v"
  by (auto simp: known_methods_def known_versions_def)

lemma request_line_ok: "message_ok m \<Longrightarrow> line_text_ok (request_line m)"
  using known_chars target_chars by (simp add: message_ok_def line_text_ok_def request_line_def)

definition message_head :: "message \<Rightarrow> request" where
  "message_head m =
     empty_request\<lparr>rq_method := ms_method m, rq_path := normalizePath (ms_path m),
       rq_version := ms_version m, rq_query_params := map_of (rev (ms_query m))\<rparr>"

lemma parse_message_line:
  assumes ok: "message_ok m"
  shows "parse_request_line (request_line m @ crlf @ t) = Inr (message_head m, length (request_line m))"
proof -
  let ?m = "ms_method m" and ?t = "message_target m" and ?v = "ms_version m"
  let ?data = "request_line m @ crlf @ t"
  have chars: "CHR '' '' \<notin> set ?m" using ok known_chars by (simp add: message_ok_def)
  have sp1: "find_from ?data '' '' 0 = Some (length ?m)"
    using chars by (simp add: request_line_def)
  have "?data = (?m @ '' '') @ ?t @ CHR '' '' # ?v @ crlf @ t" by (simp add: request_line_def)
  then have sp2: "find_from ?data '' '' (length ?m + 1) = Some (length ?m + 1 + length ?t)"
    using find_from_append [of "?m @ '' ''" "?t @ CHR '' '' # ?v @ crlf @ t" "'' ''"] target_chars by simp
  have le: "find_from ?data crlf 0 = Some (length (request_line m))"
    using find_crlf_line [OF request_line_ok [OF ok]] by simp
  have len: "length (request_line m) = length ?m + length ?t + length ?v + 2"
    by (simp add: request_line_def)
  have "substr ?data 0 (length ?m) = ?m" "substr ?data (length ?m + 1) (length ?t) = ?t"
    "substr ?data (length ?m + length ?t + 2) (length ?v) = ?v"
    by (simp_all add: substr_def request_line_def)
  with sp1 sp2 le ok show ?thesis
    by (simp add: parse_request_line_def len split_message_target urlDecode_urlEncode message_ok_def
      message_head_def empty_request_def)
qed

subsection \<open>The whole message\<close>

definition message_fits :: "config \<Rightarrow> message \<Rightarrow> bool" where
  "message_fits config m \<longleftrightarrow>
     cfg_max_header_size config + cfg_max_body_size config < 2 ^ 64
     \<and> length (lines_text (request_line m # map header_line (ms_headers m))) \<le> cfg_max_header_size config
     \<and> length (ms_body m) + 2 \<le> cfg_max_body_size config
     \<and> int (length (ms_headers m)) \<le> cfg_max_headers config"

definition message_length_ok :: "message \<Rightarrow> bool" where
  "message_length_ok m \<longleftrightarrow>
     map_of (rev (ms_headers m)) ''Content-Length'' \<in> {None, Some (show_nat (length (ms_body m)))}"

definition message_request :: "message \<Rightarrow> request" where
  "message_request m =
     (message_head m)\<lparr>rq_headers := map_of (rev (ms_headers m)), rq_body := ms_body m\<rparr>"

lemma parse_request_steps:
  assumes "parse_limits config data = Inr he" and "parse_request_line data = Inr (req1, le)"
    and "header_loop data (cfg_max_headers config) (le + 2) 0 req1 = Inr (req2, pos)"
    and "substr_at data (pos + 2) None = Inr body"
  shows "parse_request new config h data =
    (if content_length_ok (req2\<lparr>rq_body := body\<rparr>) then parse_body new h (req2\<lparr>rq_body := body\<rparr>)
     else (Inr (request_error (req2\<lparr>rq_body := body\<rparr>) 400), h))"
  using assms by (simp add: parse_request_def Let_def)

lemma message_lines_ok:
  "message_ok m \<Longrightarrow> \<forall>l \<in> set (request_line m # map header_line (ms_headers m)). line_text_ok l"
  using request_line_ok header_line_ok by (auto simp: message_ok_def)

text \<open>A message is accepted or refused by its declared length alone.\<close>

lemma parse_message_text:
  assumes ok: "message_ok m" and fits: "message_fits config m"
  shows "parse_request new config h (message_text m) =
    (if content_length_ok (message_request m) then parse_body new h (message_request m)
     else (Inr (request_error (message_request m) 400), h))"
proof -
  let ?ls = "map header_line (ms_headers m)"
  let ?head = "lines_text (request_line m # ?ls)"
  let ?pre = "request_line m @ crlf"
  let ?r = "(message_head m)\<lparr>rq_headers := map_of (rev (ms_headers m))\<rparr>"
  have len: "length (message_text m) = length ?head + 2 + length (ms_body m)" "2 \<le> length ?head"
    by (simp_all add: message_text_def)
  have "find_sub (crlf @ crlf) (message_text m) = Some (length ?head - 2)"
    unfolding message_text_def by (rule find_blank_line [OF message_lines_ok [OF ok]])
  then have limits: "parse_limits config (message_text m) = Inr (length ?head - 2)"
    using fits len by (simp add: parse_limits_def message_fits_def)
  have line: "parse_request_line (message_text m) = Inr (message_head m, length (request_line m))"
    using parse_message_line [OF ok, of "lines_text ?ls @ crlf @ ms_body m"] by (simp add: message_text_def)
  have "header_loop (message_text m) (cfg_max_headers config) (length ?pre) 0 (message_head m)
      = Inr ((message_head m)\<lparr>rq_headers := rq_headers (message_head m) ++ map_of (rev (ms_headers m))\<rparr>,
          length ?pre + length (lines_text ?ls))"
    using ok fits by (intro header_loop_lines) (simp_all add: message_ok_def message_fits_def message_text_def)
  then have loop: "header_loop (message_text m) (cfg_max_headers config) (length (request_line m) + 2) 0
      (message_head m) = Inr (?r, length ?head)"
    by (simp add: message_head_def empty_request_def)
  have "message_text m = (?head @ crlf) @ ms_body m" by (simp add: message_text_def)
  then have "drop (length (?head @ crlf)) (message_text m) = ms_body m"
    by (metis append_eq_conv_conj)
  then have rest: "substr_at (message_text m) (length ?head + 2) None = Inr (ms_body m)"
    using len by (simp add: substr_at_def)
  show ?thesis
    unfolding message_request_def by (rule parse_request_steps [OF limits line loop rest])
qed

lemma parse_message:
  assumes ok: "message_ok m" and fits: "message_fits config m" and body: "message_length_ok m"
  shows "parse_request new config h (message_text m) = parse_body new h (message_request m)"
proof -
  have "content_length_ok (message_request m)"
    using body fits from_chars_show_nat [of "length (ms_body m)" "[]"]
    by (auto simp: content_length_ok_def getHeader_def message_length_ok_def message_fits_def
      message_request_def)
  then show ?thesis by (simp add: parse_message_text [OF ok fits])
qed

text \<open>
  What the type of the body adds: a multipart form has parts (below), an urlencoded form has form
  data, and any other body is left alone.
\<close>

definition content_type :: "message \<Rightarrow> string option" where
  "content_type m = map_of (rev (ms_headers m)) ''Content-Type''"

definition typed :: "string \<Rightarrow> message \<Rightarrow> bool" where
  "typed kind m = (case content_type m of None \<Rightarrow> False | Some ct \<Rightarrow> contains ct kind)"

definition multipart :: "message \<Rightarrow> bool" where
  "multipart m = typed ''multipart/form-data'' m"

definition parsed_request :: "message \<Rightarrow> request" where
  "parsed_request m = (message_request m)\<lparr>rq_form_data :=
     (if typed ''application/x-www-form-urlencoded'' m then parseQuery (ms_body m) else Map.empty)\<rparr>"

lemma parsed_request_untyped: "content_type m = None \<Longrightarrow> \<not> multipart m \<and> parsed_request m = message_request m"
  by (simp add: multipart_def typed_def parsed_request_def message_request_def message_head_def empty_request_def)

lemma parse_message_plain:
  assumes "message_ok m" and "message_fits config m" and "message_length_ok m" and "\<not> multipart m"
  shows "parse_request new config h (message_text m) = (Inr (parsed_request m), h)"
proof -
  have "rq_headers (message_request m) ''Content-Type'' = content_type m" "rq_body (message_request m) = ms_body m"
    "rq_form_data (message_request m) = Map.empty"
    by (simp_all add: message_request_def content_type_def message_head_def empty_request_def)
  then show ?thesis
    using assms(4)
    by (auto simp: parse_message [OF assms(1-3)] parse_body_def getHeader_def parsed_request_def multipart_def typed_def
        split: option.split)
qed

subsection \<open>Submitted forms\<close>

text \<open>The plain fields of a form go to the form data, files do not.\<close>

definition plain_fields :: "field list \<Rightarrow> (string \<times> string) list" where
  "plain_fields fs = map (\<lambda>f. (fd_name f, fd_data f)) (filter (\<lambda>f. fd_filename f = []) fs)"

lemma plain_fields_simps [simp]:
  "plain_fields [] = []"
  "plain_fields (f # fs) =
     (if fd_filename f = [] then (fd_name f, fd_data f) # plain_fields fs else plain_fields fs)"
  by (simp_all add: plain_fields_def)

lemma part_field_simps [simp]:
  "fd_name (part_field body p) = pt_name p" "fd_filename (part_field body p) = pt_filename p"
  "fd_data (part_field body p) = view_text body (pt_data p)"
  by (simp_all add: part_field_def)

lemma copy_form_fields:
  assumes "h a = Some body" and "\<forall>p \<in> set ps. in_buffer a p"
  shows "copy_form h ps form = Inr (form ++ map_of (rev (plain_fields (map (part_field body) ps))))"
  using assms(2)
proof (induction ps arbitrary: form)
  case (Cons p ps)
  let ?rest = "map_of (rev (plain_fields (map (part_field body) ps)))"
  have upd: "form(k \<mapsto> v) ++ m = form ++ ([k \<mapsto> v] ++ m)" for k v m
    by (auto simp: map_add_def fun_eq_iff split: option.split)
  have "read_view h (pt_data p) = Inr (view_text body (pt_data p))"
    using Cons.prems by (simp add: read_view_def in_buffer_def assms(1))
  then have "copy_form h (p # ps) form =
      Inr ((if pt_filename p = [] then form(pt_name p \<mapsto> view_text body (pt_data p)) else form) ++ ?rest)"
    using Cons by simp
  then show ?case
    using upd [of "pt_name p" "view_text body (pt_data p)" ?rest]
    by simp
qed simp

definition upload_ok :: "string \<Rightarrow> field list \<Rightarrow> bool" where
  "upload_ok b fs \<longleftrightarrow> b \<noteq> [] \<and> hd b \<noteq> CHR 0x22 \<and> CHR 0x0A \<notin> set b
     \<and> (\<forall>f \<in> set fs. field_ok f \<and> chunk_ok (''--'' @ b) (field_chunk f))"

lemma multipart_header_kind:
  "contains (multipart_header b) ''multipart/form-data''" "contains (multipart_header b) ''boundary=''"
  using contains_infix [of "[]" "''multipart/form-data''" "''; boundary='' @ b"]
    contains_infix [of "''multipart/form-data; ''" "''boundary=''" b]
  by (simp_all add: multipart_header_def)

lemma parse_body_upload:
  assumes "upload_ok b fs" and "rq_headers req ''Content-Type'' = Some (multipart_header b)"
    and "rq_body req = encode_multipart b (map field_chunk fs)"
  obtains ps where "map (part_field (rq_body req)) ps = fs"
    and "parse_body new h req =
      (Inr (req\<lparr>rq_parts := ps, rq_form_data := rq_form_data req ++ map_of (rev (plain_fields fs))\<rparr>),
       h(new h := None))"
proof -
  obtain ps where ps: "parse_multipart (new h) (rq_body req) (multipart_header b) = Inr ps"
    "map (part_field (rq_body req)) ps = fs" "\<forall>p \<in> set ps. in_buffer (new h) p"
    using assms encode_fields_parse [of b fs "rq_body req" "new h"] by (auto simp: upload_ok_def)
  have "parse_form_parts new h req (multipart_header b) =
      (Inr (req\<lparr>rq_parts := ps, rq_form_data := rq_form_data req ++ map_of (rev (plain_fields fs))\<rparr>),
       h(new h := None))"
    using copy_form_fields [of "h(new h \<mapsto> rq_body req)" "new h" "rq_body req" ps "rq_form_data req"] ps
    by (simp add: parse_form_parts_def Let_def)
  then show thesis
    using ps(2) assms(2) by (intro that) (simp_all add: parse_body_def getHeader_def multipart_header_kind)
qed

subsection \<open>A content type without a value\<close>

text \<open>
  A part whose header ends in \<^verbatim>\<open>Content-Type:\<close> makes the parser take a
  substring that starts one past the end of the header.
\<close>

definition untyped_chunk :: "string \<Rightarrow> string \<Rightarrow> string" where
  "untyped_chunk n data =
     (name_intro @ CHR 0x22 # n @ CHR 0x22 # crlf @ type_key) @ crlf @ crlf @ data"

lemma parsePart_untyped:
  assumes "quotable n"
  shows "parsePart a base (untyped_chunk n data) = Inl Out_of_range"
proof -
  define header where "header = name_intro @ CHR 0x22 # n @ CHR 0x22 # crlf @ type_key"
  have chunk: "untyped_chunk n data = header @ crlf @ crlf @ data"
    by (simp add: untyped_chunk_def header_def)
  have tl: "length type_key = 13" by (simp add: type_key_def)
  then have len: "length header = length n + 54" by (simp add: header_def intro_searches)
  have cr: "CHR 0x0D \<notin> set name_intro" "CHR 0x0D \<notin> set type_key" "CHR 0x0D \<notin> set n" "CHR 0x22 \<notin> set n"
    using assms by (simp_all add: name_intro_def type_key_def quotable_def)
  have "header @ crlf @ crlf @ data
      = (name_intro @ CHR 0x22 # n @ [CHR 0x22]) @ crlf @ type_key @ crlf @ crlf @ data"
    by (simp add: header_def)
  moreover have "find_sub (crlf @ crlf) (crlf @ type_key @ crlf @ crlf @ data) = Some 15"
    by (simp add: type_key_def)
  ultimately have "find_sub (crlf @ crlf) (untyped_chunk n data) = Some (length header)"
    using find_sub_skip [of "CHR 0x0D" "name_intro @ CHR 0x22 # n @ [CHR 0x22]" "CHR 0x0A # crlf"
      "crlf @ type_key @ crlf @ crlf @ data"] cr
    by (simp add: chunk len tl intro_searches del: find_sub.simps)
  moreover have "substr (untyped_chunk n data) 0 (length header) = header"
    by (simp add: chunk substr_def)
  moreover have "find_sub ''name=\"'' header = Some 32" by (simp add: header_def name_intro_def)
  moreover have "find_sub filename_key (crlf @ type_key) = None"
    by (simp add: filename_key_def type_key_def)
  then have "find_sub ''filename=\"'' header = None"
    using past_name(1) [OF assms, of "crlf @ type_key"] by (simp add: header_def filename_key_def)
  moreover have "quoted_value header 38 = Some n"
    using cr by (intro quoted_value_at [of _ "name_intro @ [CHR 0x22]"]) (simp_all add: header_def intro_searches)
  moreover have "find_sub type_key (crlf @ type_key) = Some 2" by (simp add: type_key_def)
  then have "find_sub ''Content-Type:'' header = Some (41 + length n)"
    using past_name(2) [OF assms, of "crlf @ type_key"] by (simp add: header_def type_key_def)
  then have "part_content_type header = Inl Out_of_range"
    by (simp add: part_content_type_def substr_at_def len)
  ultimately show ?thesis
    by (simp add: parsePart_def part_name_start_def part_filename_def)
qed

lemma parse_body_untyped:
  assumes "upload_ok b []" and "quotable n" and "chunk_ok (''--'' @ b) (untyped_chunk n data)"
    and "rq_headers req ''Content-Type'' = Some (multipart_header b)"
    and "rq_body req = encode_multipart b [untyped_chunk n data]"
  shows "fst (parse_body new h req) = Inl Out_of_range"
proof -
  have "parse_multipart (new h) (rq_body req) (multipart_header b) = Inl Out_of_range"
    using assms by (simp add: upload_ok_def parse_multipart_encode parsePart_untyped)
  with assms(4) show ?thesis
    by (simp add: parse_body_def getHeader_def multipart_header_kind parse_form_parts_def Let_def)
qed

subsection \<open>Sample messages\<close>

definition sample_get :: message where
  "sample_get =
     \<lparr>ms_method = ''GET'', ms_path = ''/a/../b c'', ms_query = [(''q'', ''1&2''), (''p'', ''3'')],
      ms_version = ''HTTP/1.1'', ms_headers = [(''Host'', ''x''), (''Content-Length'', ''2'')], ms_body = ''ok''\<rparr>"

definition sample_fields :: "field list" where
  "sample_fields =
     [\<lparr>fd_name = ''a'', fd_filename = [], fd_content_type = [], fd_data = ''1''\<rparr>,
      \<lparr>fd_name = ''f'', fd_filename = ''x.y'', fd_content_type = ''t/p'', fd_data = ''D''\<rparr>]"

definition sample_post :: "string list \<Rightarrow> message" where
  "sample_post chunks =
     \<lparr>ms_method = ''POST'', ms_path = ''/'', ms_query = [], ms_version = ''HTTP/1.1'',
      ms_headers = [(''Content-Type'', multipart_header ''B'')],
      ms_body = encode_multipart ''B'' chunks\<rparr>"

lemmas sample_size = message_fits_def default_config_def request_line_def message_target_def
  header_line_def encode_query_def encode_pair_def is_unreserved_def is_alnum_def char_class
  multipart_header_def encode_multipart_def frame_chunk_def

lemma sample_get_ok:
  "message_ok sample_get" "message_length_ok sample_get"
  "map_of (rev (ms_headers sample_get)) ''Content-Type'' = None"
  by code_simp+

lemma sample_get_fits: "message_fits default_config sample_get"
  by (simp add: sample_size sample_get_def)

lemma sample_post_ok:
  "message_ok (sample_post cs)" "message_length_ok (sample_post cs)"
  "map_of (rev (ms_headers (sample_post cs))) ''Content-Type'' = Some (multipart_header ''B'')"
  "ms_body (sample_post cs) = encode_multipart ''B'' cs"
  "rq_headers (message_request (sample_post cs)) ''Content-Type'' = Some (multipart_header ''B'')"
  "rq_body (message_request (sample_post cs)) = encode_multipart ''B'' cs"
proof -
  have "\<not> isDoubleEncoded ''/''" by code_simp
  then show "message_ok (sample_post cs)"
    by (simp add: message_ok_def sample_post_def header_ok_def multipart_header_def
      known_methods_def known_versions_def)
qed (simp_all add: sample_post_def message_length_ok_def message_request_def)

lemma sample_post_fits:
  "message_fits default_config (sample_post (map field_chunk sample_fields))"
  "message_fits default_config (sample_post [untyped_chunk ''a'' ''1''])"
  by (simp_all add: sample_size sample_post_def sample_fields_def field_chunk_def field_header_def
    disposition_def untyped_chunk_def name_intro_def type_key_def)

lemma sample_fields_ok: "upload_ok ''B'' sample_fields" "upload_ok ''B'' []"
  by code_simp+

lemma sample_untyped_ok: "quotable ''a''" "chunk_ok ''--B'' (untyped_chunk ''a'' ''1'')"
  by code_simp+

lemma sample_get_accepted:
  "parse_request new default_config h (message_text sample_get) = (Inr (message_request sample_get), h)"
  "\<not> rq_parse_error (message_request sample_get)"
  using parse_message [OF sample_get_ok(1) sample_get_fits sample_get_ok(2), of new h]
  by (simp_all add: parse_body_def getHeader_def message_request_def message_head_def empty_request_def
    sample_get_def)

subsection \<open>Properties\<close>

text \<open>C1. A request that a client writes with a known method and version, percent-coded path
  and query parameters, well-formed headers and a body that fits the limits comes back exactly:
  method, decoded and normalised path, version, query parameters, headers (the last value of a
  repeated one) and body, and the form data are those of the body when its type is urlencoded
  (for a body that encodes the fields \<open>kvs\<close>, exactly these) and empty when it has any other type or
  none. Only a multipart form is treated otherwise: without a boundary it is refused with 400, and
  with one it is parsed into parts (\<open>upload_roundtrip\<close>, and \<open>empty_content_type_throws\<close> for a form
  that throws), which this property leaves out.\<close>

theorem request_roundtrip:
  assumes "message_ok m" and "message_fits config m" and "message_length_ok m"
    and "multipart m \<Longrightarrow> \<not> typed ''boundary='' m"
  shows "\<exists>r. parse_request new config h (message_text m) = (Inr (if multipart m then request_error r 400 else r), h) \<and>
    r = empty_request\<lparr>rq_method := ms_method m, rq_path := normalizePath (ms_path m),
       rq_version := ms_version m, rq_headers := map_of (rev (ms_headers m)), rq_body := ms_body m,
       rq_query_params := map_of (rev (ms_query m)),
       rq_form_data := (if multipart m then Map.empty
         else if typed ''application/x-www-form-urlencoded'' m then parseQuery (ms_body m) else Map.empty)\<rparr> \<and>
    (\<forall>kvs. ms_body m = encode_query kvs \<longrightarrow> \<not> multipart m \<longrightarrow> typed ''application/x-www-form-urlencoded'' m \<longrightarrow>
       rq_form_data r = map_of (rev kvs))"
proof (cases "multipart m")
  case True
  have "rq_headers (message_request m) ''Content-Type'' = content_type m"
    by (simp add: message_request_def content_type_def)
  with True assms(4) have "parse_request new config h (message_text m) = (Inr (request_error (message_request m) 400), h)"
    by (auto simp: parse_message [OF assms(1-3)] parse_body_def getHeader_def multipart_def typed_def split: option.splits)
  with True show ?thesis by (simp add: message_request_def message_head_def empty_request_def)
next
  case False
  then show ?thesis
    using parse_message_plain [OF assms(1-3)] query_roundtrip
    by (simp add: parsed_request_def message_request_def message_head_def empty_request_def)
qed

text \<open>C9. A file upload end to end: a client's multipart message is accepted, the parts
  (resolved against the body) are the fields that were sent, in order, with names, file names,
  content types and data, and exactly the plain fields are form parameters.\<close>

theorem upload_roundtrip:
  assumes "message_ok m" and "message_fits config m" and "message_length_ok m"
    and "map_of (rev (ms_headers m)) ''Content-Type'' = Some (multipart_header b)"
    and "ms_body m = encode_multipart b (map field_chunk fs)" and "upload_ok b fs"
  shows "\<exists>r h'. parse_request new config h (message_text m) = (Inr r, h') \<and> \<not> rq_parse_error r
    \<and> map (part_field (ms_body m)) (rq_parts r) = fs \<and> rq_form_data r = map_of (rev (plain_fields fs))"
proof -
  have req: "rq_headers (message_request m) ''Content-Type'' = Some (multipart_header b)"
    "rq_body (message_request m) = ms_body m" "rq_form_data (message_request m) = Map.empty"
    "\<not> rq_parse_error (message_request m)"
    using assms by (simp_all add: message_request_def message_head_def empty_request_def)
  then obtain ps where "map (part_field (ms_body m)) ps = fs"
    "parse_body new h (message_request m) =
      (Inr ((message_request m)\<lparr>rq_parts := ps, rq_form_data := map_of (rev (plain_fields fs))\<rparr>), h(new h := None))"
    using assms parse_body_upload [of b fs "message_request m" new h] by auto
  with req show ?thesis by (simp add: parse_message [OF assms(1-3)])
qed

text \<open>A part whose header ends in \<^verbatim>\<open>Content-Type:\<close> takes the parser down: an
  otherwise well-formed multipart message with such a part is neither accepted nor rejected, but
  leaves \<open>Request::parse\<close> with \<open>std::out_of_range\<close>.\<close>

theorem empty_content_type_throws:
  assumes "message_ok m" and "message_fits config m" and "message_length_ok m"
    and "map_of (rev (ms_headers m)) ''Content-Type'' = Some (multipart_header b)"
    and "ms_body m = encode_multipart b [untyped_chunk n data]" and "upload_ok b []" and "quotable n"
    and "chunk_ok (''--'' @ b) (untyped_chunk n data)"
  shows "fst (parse_request new config h (message_text m)) = Inl Out_of_range"
  unfolding parse_message [OF assms(1-3)]
  by (rule parse_body_untyped [OF assms(6-8)])
    (use assms in \<open>simp_all add: message_request_def\<close>)

subsection \<open>Witnesses\<close>

theorem accepted_request_canonical_witness:
  "normalizePath (rq_path (message_request sample_get)) = rq_path (message_request sample_get)
   \<and> rq_path (message_request sample_get) = ''/b c''"
proof -
  have "rq_path (message_request sample_get) = ''/b c''" by code_simp
  then show ?thesis using accepted_request_canonical [OF sample_get_accepted] by blast
qed

theorem accepted_request_limits_witness:
  "from_chars_size ''2'' = Inr (length (rq_body (message_request sample_get)))
   \<and> rq_body (message_request sample_get) = ''ok''"
proof -
  have "getHeader (message_request sample_get) ''Content-Length'' = Some ''2''"
    "rq_body (message_request sample_get) = ''ok''" by code_simp+
  then show ?thesis using accepted_request_limits [OF sample_get_accepted] by blast
qed

theorem parse_request_exceptions_witness:
  "contains (message_text (sample_post [untyped_chunk ''a'' ''1''])) ''multipart/form-data''"
proof -
  have "fst (parse_request (\<lambda>h. 0) default_config Map.empty
      (message_text (sample_post [untyped_chunk ''a'' ''1'']))) = Inl Out_of_range"
    unfolding parse_message [OF sample_post_ok(1) sample_post_fits(2) sample_post_ok(2)]
    by (rule parse_body_untyped [OF sample_fields_ok(2) sample_untyped_ok(1)])
      (simp_all add: sample_untyped_ok(2) sample_post_ok)
  then show ?thesis by (rule parse_request_exceptions [THEN conjunct2])
qed

theorem accepted_parts_dangle_witness:
  "\<exists>r h'. parse_request (\<lambda>h. 0) default_config Map.empty
       (message_text (sample_post (map field_chunk sample_fields))) = (Inr r, h')
     \<and> length (rq_parts r) = 2 \<and> (\<forall>p \<in> set (rq_parts r). read_view h' (pt_data p) = Inl Undefined_behaviour)"
proof -
  let ?m = "sample_post (map field_chunk sample_fields)"
  obtain ps where ps: "map (part_field (rq_body (message_request ?m))) ps = sample_fields"
    and parse: "parse_body (\<lambda>h. 0) Map.empty (message_request ?m) =
      (Inr ((message_request ?m)\<lparr>rq_parts := ps, rq_form_data := rq_form_data (message_request ?m)
        ++ map_of (rev (plain_fields sample_fields))\<rparr>), Map.empty(0 := None))"
    by (rule parse_body_upload [OF sample_fields_ok(1) sample_post_ok(5,6)])
  have "\<not> rq_parse_error (message_request ?m)"
    by (simp add: message_request_def message_head_def empty_request_def)
  moreover have "length ps = 2" using arg_cong [OF ps, of length] by (simp add: sample_fields_def)
  moreover note parse [folded parse_message [OF sample_post_ok(1) sample_post_fits(1) sample_post_ok(2)]]
  ultimately show ?thesis
    using accepted_parts_dangle by (intro exI conjI) (assumption, simp, fastforce)
qed

text \<open>An urlencoded form.\<close>

definition sample_form :: message where
  "sample_form =
     \<lparr>ms_method = ''POST'', ms_path = ''/a/../b c'', ms_query = [(''q'', ''1&2'')], ms_version = ''HTTP/1.1'',
      ms_headers = [(''Host'', ''x''), (''Content-Type'', ''application/x-www-form-urlencoded''), (''Content-Length'', ''14'')],
      ms_body = encode_query [(''k'', ''a b''), (''n'', ''=1'')]\<rparr>"

theorem request_roundtrip_witness:
  "\<exists>r. parse_request (\<lambda>h. 0) default_config Map.empty (message_text sample_form) = (Inr r, Map.empty)
     \<and> rq_path r = ''/b c'' \<and> rq_query_params r = [''q'' \<mapsto> ''1&2''] \<and> rq_form_data r = [''k'' \<mapsto> ''a b'', ''n'' \<mapsto> ''=1'']"
proof -
  have ok: "message_ok sample_form" "message_length_ok sample_form" "\<not> multipart sample_form"
    "typed ''application/x-www-form-urlencoded'' sample_form" "normalizePath (ms_path sample_form) = ''/b c''"
    by code_simp+
  have "message_fits default_config sample_form" by (simp add: sample_size sample_form_def)
  from request_roundtrip [OF ok(1) this ok(2), of "\<lambda>h. 0" Map.empty] ok(3-5) show ?thesis
    by (auto simp: sample_form_def)
qed

theorem upload_roundtrip_witness:
  "\<exists>r h'. parse_request (\<lambda>h. 0) default_config Map.empty
       (message_text (sample_post (map field_chunk sample_fields))) = (Inr r, h')
     \<and> \<not> rq_parse_error r
     \<and> map (part_field (ms_body (sample_post (map field_chunk sample_fields)))) (rq_parts r) = sample_fields
     \<and> rq_form_data r = map_of (rev (plain_fields sample_fields))"
  by (rule upload_roundtrip [OF sample_post_ok(1) sample_post_fits(1) sample_post_ok(2,3,4) sample_fields_ok(1)])

theorem empty_content_type_throws_witness:
  "fst (parse_request (\<lambda>h. 0) default_config Map.empty
     (message_text (sample_post [untyped_chunk ''a'' ''1'']))) = Inl Out_of_range"
  by (rule empty_content_type_throws [OF sample_post_ok(1) sample_post_fits(2) sample_post_ok(2,3,4)
    sample_fields_ok(2) sample_untyped_ok(1)]) (simp add: sample_untyped_ok(2))

end
