(* ===== verification/Connection.thy ===== *)
theory Connection
  imports Prelude "HOL-Library.Word"
begin

section \<open>Connections\<close>

text \<open>
  Models \<^verbatim>\<open>src/net/connection.cpp\<close>. A connection owns a file descriptor and, with
  TLS, an \<^verbatim>\<open>SSL\<close> object, named by its address. The state of the operating system
  and of the TLS library that matters here is the set of descriptors that are open and the set of
  \<^verbatim>\<open>SSL\<close> objects that are alive. Closing a descriptor that is not open fails with a
  code nobody reads; freeing an object that is not alive is undefined. What the system calls and
  the TLS library answer are arguments.
\<close>

record net =
  nt_open :: "int set"
  nt_ssl :: "nat set"

definition sys_close :: "int \<Rightarrow> net \<Rightarrow> net" where
  "sys_close fd w = w\<lparr>nt_open := nt_open w - {fd}\<rparr>"

definition ssl_free :: "nat \<Rightarrow> net \<Rightarrow> net result" where
  "ssl_free s w = (if s \<in> nt_ssl w then Inr (w\<lparr>nt_ssl := nt_ssl w - {s}\<rparr>) else Inl Undefined_behaviour)"

definition ssl_free_opt :: "nat option \<Rightarrow> net \<Rightarrow> net result" where
  "ssl_free_opt s w = (case s of None \<Rightarrow> Inr w | Some a \<Rightarrow> ssl_free a w)"

record conn =
  cn_fd :: int
  cn_ip :: string
  cn_port :: "16 word"
  cn_ssl :: "nat option"

definition new_conn :: "int \<Rightarrow> string \<Rightarrow> 16 word \<Rightarrow> conn" where
  "new_conn fd ip port = \<lparr>cn_fd = fd, cn_ip = ip, cn_port = port, cn_ssl = None\<rparr>"

definition setSSL :: "nat option \<Rightarrow> conn \<Rightarrow> conn" where
  "setSSL s c = c\<lparr>cn_ssl := s\<rparr>"

subsection \<open>Moving\<close>

text \<open>What a move leaves behind; the string that is moved from is left empty.\<close>

definition moved_out :: "conn \<Rightarrow> conn" where
  "moved_out c = c\<lparr>cn_fd := -1, cn_ip := [], cn_port := 0, cn_ssl := None\<rparr>"

text \<open>The move constructor: the new connection and what the other one becomes.\<close>

definition move_construct :: "conn \<Rightarrow> conn \<times> conn" where
  "move_construct other =
     (\<lparr>cn_fd = cn_fd other, cn_ip = cn_ip other, cn_port = cn_port other, cn_ssl = cn_ssl other\<rparr>,
      moved_out other)"

definition move_assign :: "conn \<Rightarrow> conn \<Rightarrow> net \<Rightarrow> (conn \<times> conn \<times> net) result" where
  "move_assign this other w =
     (let w1 = (if cn_fd this \<noteq> -1 then sys_close (cn_fd this) w else w)
      in bind_result (ssl_free_opt (cn_ssl this) w1) (\<lambda>w2.
         Inr (this\<lparr>cn_fd := cn_fd other, cn_ip := cn_ip other, cn_port := cn_port other,
                cn_ssl := cn_ssl other\<rparr>, moved_out other, w2)))"

subsection \<open>Reading, writing, closing\<close>

definition conn_read :: "conn \<Rightarrow> (nat \<Rightarrow> int) \<Rightarrow> (nat \<Rightarrow> int) \<Rightarrow> nat \<Rightarrow> int" where
  "conn_read c SSL_read recv len =
     (if cn_fd c = -1 then -1 else if cn_ssl c \<noteq> None then SSL_read len else recv len)"

definition conn_write :: "conn \<Rightarrow> (nat \<Rightarrow> int) \<Rightarrow> (nat \<Rightarrow> int) \<Rightarrow> nat \<Rightarrow> int" where
  "conn_write c SSL_write send len =
     (if cn_fd c = -1 then -1 else if cn_ssl c \<noteq> None then SSL_write len else send len)"

text \<open>
  Closing, with the number of \<^verbatim>\<open>SSL_shutdown\<close> calls made: the second one waits for
  the peer, at most a second.
\<close>

definition shutdown_calls :: "int \<Rightarrow> int \<Rightarrow> bool \<Rightarrow> nat" where
  "shutdown_calls ret poll_ret pollin = (if ret = 0 \<and> poll_ret > 0 \<and> pollin then 2 else 1)"

definition conn_close :: "conn \<Rightarrow> net \<Rightarrow> (conn \<times> net) result" where
  "conn_close c w =
     (if cn_fd c = -1 then Inr (c, w)
      else bind_result (ssl_free_opt (cn_ssl c) w) (\<lambda>w1.
           Inr (c\<lparr>cn_ssl := None, cn_fd := -1\<rparr>, sys_close (cn_fd c) w1)))"

definition conn_destroy :: "conn \<Rightarrow> net \<Rightarrow> net result" where
  "conn_destroy c w = (if cn_fd c \<noteq> -1 then bind_result (conn_close c w) (\<lambda>(c', w'). Inr w') else Inr w)"

subsection \<open>The TLS handshake\<close>

text \<open>
  Attempt \<open>i\<close> has the result of \<^verbatim>\<open>SSL_accept\<close>, the error the library
  reports for it and the result of the \<^verbatim>\<open>poll\<close> that follows a request to wait.
\<close>

datatype ssl_error = Want_read | Want_write | Other_error

definition max_handshake_retries :: nat where
  "max_handshake_retries = 5"

fun handshake_loop :: "(nat \<Rightarrow> int) \<Rightarrow> (nat \<Rightarrow> ssl_error) \<Rightarrow> (nat \<Rightarrow> int) \<Rightarrow> nat \<Rightarrow> nat \<Rightarrow> bool" where
  "handshake_loop ret err pr i 0 = False"
| "handshake_loop ret err pr i (Suc n) =
     (if ret i = 1 then True
      else (case err i of
              Want_read \<Rightarrow> if pr i \<le> 0 then False else handshake_loop ret err pr (i + 1) n
            | Want_write \<Rightarrow> if pr i \<le> 0 then False else handshake_loop ret err pr (i + 1) n
            | Other_error \<Rightarrow> False))"

definition handshake :: "conn \<Rightarrow> (nat \<Rightarrow> int) \<Rightarrow> (nat \<Rightarrow> ssl_error) \<Rightarrow> (nat \<Rightarrow> int) \<Rightarrow> bool" where
  "handshake c ret err pr =
     (if cn_ssl c = None then False else handshake_loop ret err pr 0 max_handshake_retries)"

definition waits :: "(nat \<Rightarrow> int) \<Rightarrow> (nat \<Rightarrow> ssl_error) \<Rightarrow> (nat \<Rightarrow> int) \<Rightarrow> nat \<Rightarrow> bool" where
  "waits ret err pr i \<longleftrightarrow> ret i \<noteq> 1 \<and> err i \<noteq> Other_error \<and> 0 < pr i"

lemma handshake_loop_iff:
  "handshake_loop ret err pr i n \<longleftrightarrow> (\<exists>k < n. ret (i + k) = 1 \<and> (\<forall>j < k. waits ret err pr (i + j)))"
proof (induction n arbitrary: i)
  case (Suc n)
  have "(\<exists>k < Suc n. ret (i + k) = 1 \<and> (\<forall>j < k. waits ret err pr (i + j)))
      \<longleftrightarrow> ret i = 1 \<or> waits ret err pr i
          \<and> (\<exists>k < n. ret (i + 1 + k) = 1 \<and> (\<forall>j < k. waits ret err pr (i + 1 + j)))"
    by (auto simp: Ex_less_Suc2 All_less_Suc2)
  with Suc.IH [of "i + 1"] show ?case
    by (cases "err i") (auto simp: waits_def)
qed simp


subsection \<open>Ownership\<close>

text \<open>
  A program that uses connections: named variables hold connections, and the steps are what C++
  code can do with them, an accepted socket becoming a connection, a fresh TLS object being
  attached to an open connection without one, moves, closing and the end of a variable's life.
\<close>

type_synonym conns = "nat \<rightharpoonup> conn"

inductive conn_step :: "conns \<times> net \<Rightarrow> conns \<times> net \<Rightarrow> bool" where
  accept: "x \<notin> dom cs \<Longrightarrow> fd \<ge> 0 \<Longrightarrow> fd \<notin> nt_open w \<Longrightarrow>
    conn_step (cs, w) (cs(x \<mapsto> new_conn fd ip port), w\<lparr>nt_open := insert fd (nt_open w)\<rparr>)"
| attach: "cs x = Some c \<Longrightarrow> cn_fd c \<noteq> -1 \<Longrightarrow> cn_ssl c = None \<Longrightarrow> s \<notin> nt_ssl w \<Longrightarrow>
    conn_step (cs, w) (cs(x \<mapsto> setSSL (Some s) c), w\<lparr>nt_ssl := insert s (nt_ssl w)\<rparr>)"
| construct: "cs y = Some c \<Longrightarrow> x \<notin> dom cs \<Longrightarrow> move_construct c = (a, b) \<Longrightarrow>
    conn_step (cs, w) (cs(x \<mapsto> a, y \<mapsto> b), w)"
| assign: "cs x = Some t \<Longrightarrow> cs y = Some c \<Longrightarrow> x \<noteq> y \<Longrightarrow> move_assign t c w = Inr (a, b, w') \<Longrightarrow>
    conn_step (cs, w) (cs(x \<mapsto> a, y \<mapsto> b), w')"
| close: "cs x = Some c \<Longrightarrow> conn_close c w = Inr (c', w') \<Longrightarrow> conn_step (cs, w) (cs(x \<mapsto> c'), w')"
| destroy: "cs x = Some c \<Longrightarrow> conn_destroy c w = Inr w' \<Longrightarrow> conn_step (cs, w) (cs(x := None), w')"

inductive_cases conn_stepE: "conn_step (cs, w) (cs', w')"

text \<open>
  Resources and their owners: \<open>exclusive m S\<close> says that every resource of \<open>S\<close> has
  exactly one owner in the map \<open>m\<close>, which owns no others.
\<close>

definition exclusive :: "('x \<rightharpoonup> 'r) \<Rightarrow> 'r set \<Rightarrow> bool" where
  "exclusive m S \<longleftrightarrow> ran m = S \<and> inj_on m (dom m)"

lemma exclusive_new:
  assumes "exclusive m S" and "m x = None" and "r \<notin> S"
  shows "exclusive (m(x \<mapsto> r)) (insert r S)"
proof -
  have "inj_on (m(x \<mapsto> r)) (dom m)"
    using assms by (auto simp: exclusive_def inj_on_def domIff)
  moreover have "Some r \<notin> m ` dom m" using assms(1,3) by (auto simp: exclusive_def ran_def)
  then have "Some r \<notin> (m(x \<mapsto> r)) ` (dom m - {x})" by auto
  ultimately show ?thesis using assms(1,2) by (simp add: exclusive_def)
qed

lemma exclusive_drop:
  assumes "exclusive m S" and "m x = Some r"
  shows "exclusive (m(x := None)) (S - {r})"
proof -
  have "ran (m(x := None)) = ran m - {r}"
    using assms by (auto simp: exclusive_def ran_def inj_on_def domIff split: if_splits) force
  moreover have "inj_on (m(x := None)) (dom m - {x})"
    using assms(1) by (auto simp: exclusive_def inj_on_def domIff)
  ultimately show ?thesis using assms(1) by (simp add: exclusive_def)
qed

lemma exclusive_move:
  assumes "exclusive m S" and "m x = None"
  shows "exclusive (m(x := m y, y := None)) S"
proof (cases "m y")
  case None
  with assms have "m(x := m y, y := None) = m" by (simp add: fun_eq_iff)
  with assms(1) show ?thesis by simp
next
  case (Some r)
  then have S: "insert r (S - {r}) = S" and neq: "x \<noteq> y"
    using assms by (auto simp: exclusive_def ran_def)
  have "exclusive ((m(y := None))(x \<mapsto> r)) (insert r (S - {r}))"
    using assms neq by (intro exclusive_new exclusive_drop Some) simp_all
  with S neq Some show ?thesis by (simp add: fun_upd_twist)
qed

text \<open>
  The invariant: descriptors and TLS objects are owned exclusively by the connections, and only
  a connection with a descriptor owns a TLS object.
\<close>

definition owned_fd :: "conn \<Rightarrow> int option" where
  "owned_fd c = (if cn_fd c = -1 then None else Some (cn_fd c))"

definition holds :: "(conn \<Rightarrow> 'r option) \<Rightarrow> conns \<Rightarrow> nat \<rightharpoonup> 'r" where
  "holds f cs x = Option.bind (cs x) f"

definition owned :: "conns \<Rightarrow> net \<Rightarrow> bool" where
  "owned cs w \<longleftrightarrow>
     exclusive (holds owned_fd cs) (nt_open w)
     \<and> exclusive (holds cn_ssl cs) (nt_ssl w)
     \<and> (\<forall>x c. cs x = Some c \<longrightarrow> cn_fd c = -1 \<longrightarrow> cn_ssl c = None)"

lemma holds_upd [simp]: "holds f (cs(x := v)) = (holds f cs)(x := Option.bind v f)"
  by (simp add: holds_def fun_eq_iff)

lemma exclusive_live: "exclusive m S \<Longrightarrow> m x = Some r \<Longrightarrow> r \<in> S"
  by (auto simp: exclusive_def ran_def)

lemma owned_live: "owned cs w \<Longrightarrow> cs x = Some c \<Longrightarrow> cn_ssl c = Some s \<Longrightarrow> s \<in> nt_ssl w"
  by (rule exclusive_live [of "holds cn_ssl cs" _ x]) (simp_all add: owned_def holds_def)

lemma exclusive_same: "exclusive m S \<Longrightarrow> m x = v \<Longrightarrow> exclusive (m(x := v)) S"
  by (simp add: fun_upd_idem)

text \<open>Giving up what a connection owns, as closing and assigning to it do.\<close>

definition released :: "conn \<Rightarrow> net \<Rightarrow> net" where
  "released c w =
     \<lparr>nt_open = nt_open w - set_option (owned_fd c), nt_ssl = nt_ssl w - set_option (cn_ssl c)\<rparr>"

lemma owned_release:
  assumes "owned cs w" and "cs x = Some c"
  shows "owned (cs(x := None)) (released c w)"
    and "cn_fd d = -1 \<Longrightarrow> cn_ssl d = None \<Longrightarrow> owned (cs(x \<mapsto> d)) (released c w)"
proof -
  have drop: "exclusive (m(x := None)) (S - set_option (m x))" if "exclusive m S" for m :: "nat \<rightharpoonup> 'r" and S
    using that by (cases "m x") (auto intro: exclusive_drop exclusive_same)
  show "owned (cs(x := None)) (released c w)"
    using assms drop [of "holds owned_fd cs" "nt_open w"] drop [of "holds cn_ssl cs" "nt_ssl w"]
    by (simp add: owned_def released_def holds_def [of _ cs])
  then show "cn_fd d = -1 \<Longrightarrow> cn_ssl d = None \<Longrightarrow> owned (cs(x \<mapsto> d)) (released c w)"
    by (auto simp: owned_def owned_fd_def split: if_splits)
qed

lemma conn_close_released:
  assumes "owned cs w" and "cs x = Some c"
  shows "conn_close c w = Inr (c\<lparr>cn_ssl := None, cn_fd := -1\<rparr>, released c w)"
  using assms owned_live [OF assms]
  by (cases "cn_ssl c")
    (auto simp: conn_close_def released_def owned_fd_def sys_close_def ssl_free_opt_def ssl_free_def owned_def)

lemma owned_move:
  assumes inv: "owned cs w" and y: "cs y = Some c" "x \<noteq> y"
    and x: "holds owned_fd cs x = None" "holds cn_ssl cs x = None"
    and a: "cn_fd a = cn_fd c" "cn_ssl a = cn_ssl c"
  shows "owned (cs(x \<mapsto> a, y \<mapsto> moved_out c)) w"
proof -
  have "owned_fd a = holds owned_fd cs y" "cn_ssl a = holds cn_ssl cs y"
    using y(1) a by (simp_all add: holds_def owned_fd_def)
  moreover have "owned_fd (moved_out c) = None" "cn_ssl (moved_out c) = None"
    by (simp_all add: moved_out_def owned_fd_def)
  ultimately show ?thesis
    using inv y a x by (auto simp: owned_def intro: exclusive_move split: if_splits)
qed

lemma move_assign_released:
  assumes "owned cs w" and "cs x = Some t"
  shows "move_assign t c w = Inr (t\<lparr>cn_fd := cn_fd c, cn_ip := cn_ip c, cn_port := cn_port c,
    cn_ssl := cn_ssl c\<rparr>, moved_out c, released t w)"
  using assms owned_live [OF assms]
  by (cases "cn_ssl t")
    (auto simp: move_assign_def released_def owned_fd_def sys_close_def ssl_free_opt_def ssl_free_def owned_def)

lemma owned_step:
  assumes "conn_step (cs, w) (cs', w')" and inv: "owned cs w"
  shows "owned cs' w'"
  using assms(1)
proof (cases rule: conn_stepE [consumes 1, case_names accept attach construct assign close destroy])
  case (accept x fd ip port)
  with inv show ?thesis
    using exclusive_new [of "holds owned_fd cs" "nt_open w" x fd] exclusive_same [of "holds cn_ssl cs" "nt_ssl w" x None]
    by (auto simp: owned_def new_conn_def owned_fd_def holds_def [of _ cs] split: if_splits)
next
  case (attach x c s)
  with inv show ?thesis
    using exclusive_new [of "holds cn_ssl cs" "nt_ssl w" x s]
      exclusive_same [of "holds owned_fd cs" "nt_open w" x "Some (cn_fd c)"]
    by (auto simp: owned_def setSSL_def owned_fd_def holds_def [of _ cs] split: if_splits)
next
  case (construct y c x a b)
  then have "x \<noteq> y" by auto
  with construct show ?thesis
    using owned_move [OF inv, of y c x a] by (auto simp: move_construct_def holds_def domIff)
next
  case (assign x t y c a b)
  let ?t = "t\<lparr>cn_fd := -1, cn_ssl := None\<rparr>"
  have "owned (cs(x \<mapsto> ?t)) (released t w)"
    using assign by (intro owned_release(2) [OF inv]) simp_all
  then have "owned ((cs(x \<mapsto> ?t))(x \<mapsto> a, y \<mapsto> moved_out c)) (released t w)"
    using assign move_assign_released [OF inv assign(2), of c]
    by (intro owned_move) (auto simp: holds_def owned_fd_def)
  then show ?thesis
    using assign move_assign_released [OF inv assign(2), of c] by simp
next
  case (close x c c')
  then show ?thesis
    using owned_release(2) [OF inv, of x c] conn_close_released [OF inv, of x c] by auto
next
  case (destroy x c)
  show ?thesis
  proof (cases "cn_fd c = -1")
    case True
    with destroy inv have "released c w = w" by (auto simp: released_def owned_fd_def owned_def)
    with destroy True show ?thesis
      using owned_release(1) [OF inv, of x c] by (simp add: conn_destroy_def)
  next
    case False
    with destroy show ?thesis
      using owned_release(1) [OF inv, of x c] conn_close_released [OF inv, of x c]
      by (simp add: conn_destroy_def)
  qed
qed

lemma holds_empty [simp]: "holds f Map.empty = Map.empty"
  by (simp add: holds_def fun_eq_iff)

lemma owned_start: "owned Map.empty \<lparr>nt_open = {}, nt_ssl = {}\<rparr>"
  by (simp add: owned_def exclusive_def)

interpretation owners: transition_system conn_step "(Map.empty, \<lparr>nt_open = {}, nt_ssl = {}\<rparr>)" "case_prod owned"
  by unfold_locales (auto intro: owned_start owned_step)

lemma owned_reachable:
  "conn_step\<^sup>*\<^sup>* (Map.empty, \<lparr>nt_open = {}, nt_ssl = {}\<rparr>) (cs, w) \<Longrightarrow> owned cs w"
  using owners.inv_reachable by fastforce

subsection \<open>Properties\<close>

text \<open>C28. Connections neither leak nor double-free: whatever a program does with them
  (accepting, attaching TLS, moving, closing, destroying in any order), every open descriptor
  and every live TLS object belongs to exactly one connection, closing, destroying and assigning
  never free a dead object, and once no connection is left nothing is open.\<close>

theorem connections_own_resources:
  assumes "conn_step\<^sup>*\<^sup>* (Map.empty, \<lparr>nt_open = {}, nt_ssl = {}\<rparr>) (cs, w)"
  shows "(\<forall>fd. fd \<in> nt_open w \<longleftrightarrow> fd \<noteq> -1 \<and> (\<exists>!x. \<exists>c. cs x = Some c \<and> cn_fd c = fd))
    \<and> (\<forall>s. s \<in> nt_ssl w \<longleftrightarrow> (\<exists>!x. \<exists>c. cs x = Some c \<and> cn_ssl c = Some s))
    \<and> (\<forall>x c d. cs x = Some c \<longrightarrow> conn_close c w \<noteq> Inl Undefined_behaviour
         \<and> conn_destroy c w \<noteq> Inl Undefined_behaviour \<and> move_assign c d w \<noteq> Inl Undefined_behaviour)
    \<and> (cs = Map.empty \<longrightarrow> nt_open w = {} \<and> nt_ssl w = {})"
proof -
  note inv = owned_reachable [OF assms]
  have unique: "r \<in> S \<longleftrightarrow> (\<exists>!x. m x = Some r)" if "exclusive m S" for m :: "nat \<rightharpoonup> 'r" and S r
    using that by (auto simp: exclusive_def ran_def inj_on_def domIff)
  have fd: "holds owned_fd cs x = Some fd \<longleftrightarrow> fd \<noteq> -1 \<and> (\<exists>c. cs x = Some c \<and> cn_fd c = fd)" for x fd
    by (cases "cs x") (auto simp: holds_def owned_fd_def)
  have ssl: "holds cn_ssl cs x = Some s \<longleftrightarrow> (\<exists>c. cs x = Some c \<and> cn_ssl c = Some s)" for x s
    by (cases "cs x") (auto simp: holds_def)
  have "fd \<in> nt_open w \<longleftrightarrow> (\<exists>!x. fd \<noteq> -1 \<and> (\<exists>c. cs x = Some c \<and> cn_fd c = fd))" for fd
    using unique [of "holds owned_fd cs" "nt_open w" fd] inv by (simp add: owned_def fd)
  then have 1: "fd \<in> nt_open w \<longleftrightarrow> fd \<noteq> -1 \<and> (\<exists>!x. \<exists>c. cs x = Some c \<and> cn_fd c = fd)" for fd
    by auto
  have 2: "s \<in> nt_ssl w \<longleftrightarrow> (\<exists>!x. \<exists>c. cs x = Some c \<and> cn_ssl c = Some s)" for s
    using unique [of "holds cn_ssl cs" "nt_ssl w" s] inv by (simp add: owned_def ssl)
  have 3: "conn_close c w \<noteq> Inl Undefined_behaviour" "conn_destroy c w \<noteq> Inl Undefined_behaviour"
    "move_assign c d w \<noteq> Inl Undefined_behaviour" if "cs x = Some c" for x c d
    using conn_close_released [OF inv that] move_assign_released [OF inv that, of d]
    by (simp_all add: conn_destroy_def)
  have 4: "nt_open w = {} \<and> nt_ssl w = {}" if "cs = Map.empty"
    using 1 2 that by auto
  show ?thesis by (intro conjI allI impI) (rule 1 2 | erule 3 | drule 4, simp)+
qed

text \<open>The witness: a connection is accepted and moved.\<close>

theorem connections_own_resources_witness:
  "\<exists>cs w. conn_step\<^sup>*\<^sup>* (Map.empty, \<lparr>nt_open = {}, nt_ssl = {}\<rparr>) (cs, w) \<and> nt_open w = {7}
     \<and> (\<exists>!x. \<exists>c. cs x = Some c \<and> cn_fd c = 7)"
proof -
  let ?c = "new_conn 7 ''10.0.0.1'' 80"
  let ?cs = "[0 \<mapsto> ?c] :: conns" and ?w = "\<lparr>nt_open = {7}, nt_ssl = {}\<rparr>"
  have "conn_step (Map.empty, \<lparr>nt_open = {}, nt_ssl = {}\<rparr>) (?cs, ?w)"
    using conn_step.accept [of 0 Map.empty 7 "\<lparr>nt_open = {}, nt_ssl = {}\<rparr>" "''10.0.0.1''" 80] by simp
  moreover have "conn_step (?cs, ?w) (?cs(1 \<mapsto> fst (move_construct ?c), 0 \<mapsto> snd (move_construct ?c)), ?w)"
    by (rule conn_step.construct) (simp_all add: prod_eq_iff)
  ultimately obtain cs where reach: "conn_step\<^sup>*\<^sup>* (Map.empty, \<lparr>nt_open = {}, nt_ssl = {}\<rparr>) (cs, ?w)"
    using rtranclp.rtrancl_into_rtrancl [OF r_into_rtranclp] by fast
  have "(7 :: int) \<in> nt_open ?w" by simp
  then have "\<exists>!x. \<exists>c. cs x = Some c \<and> cn_fd c = 7"
    by (rule connections_own_resources [OF reach, THEN conjunct1, rule_format, THEN iffD1, THEN conjunct2])
  moreover have "nt_open ?w = {7}" by simp
  ultimately show ?thesis using reach by blast
qed

text \<open>The handshake succeeds exactly when one of the first five attempts does, all earlier
  ones having asked to wait and been served in time; it never makes a sixth attempt.\<close>

theorem handshake_iff:
  "handshake c ret err pr \<longleftrightarrow>
     cn_ssl c \<noteq> None \<and> (\<exists>k < 5. ret k = 1 \<and> (\<forall>j < k. ret j \<noteq> 1 \<and> err j \<noteq> Other_error \<and> 0 < pr j))"
  by (simp add: handshake_def handshake_loop_iff max_handshake_retries_def waits_def)

end
