(* ===== verification/Response.thy ===== *)
theory Response
  imports Request_Roundtrip Connection
begin

section \<open>Responses\<close>

text \<open>
  Models \<^verbatim>\<open>src/core/response.cpp\<close> and \<^verbatim>\<open>include/ynet/core/response.h\<close>:
  the setters handlers call, the error page, the text that goes on the wire and the loop that
  writes it. The pointer to the cache is only tested for null here; the template engine that
  \<open>render\<close> calls is its argument.
\<close>

record response =
  rs_status :: int
  rs_headers :: "string \<rightharpoonup> string"
  rs_body :: string
  rs_cache :: bool

definition new_response :: response where
  "new_response = \<lparr>rs_status = 200, rs_headers = Map.empty, rs_body = [], rs_cache = False\<rparr>"

definition res_status :: "int \<Rightarrow> response \<Rightarrow> response" where
  "res_status code r = r\<lparr>rs_status := code\<rparr>"

definition res_header :: "string \<Rightarrow> string \<Rightarrow> response \<Rightarrow> response" where
  "res_header key val r = r\<lparr>rs_headers := (rs_headers r)(key \<mapsto> val)\<rparr>"

definition res_body :: "string \<Rightarrow> response \<Rightarrow> response" where
  "res_body body r = r\<lparr>rs_body := body\<rparr>"

definition res_getHeader :: "response \<Rightarrow> string \<Rightarrow> string option" where
  "res_getHeader r key = rs_headers r key"

definition setCache :: "bool \<Rightarrow> response \<Rightarrow> response" where
  "setCache c r = r\<lparr>rs_cache := c\<rparr>"

definition status_msg :: "int \<Rightarrow> string option" where
  "status_msg =
     map_of [(200, ''OK''), (201, ''Created''), (204, ''No Content''), (301, ''Moved Permanently''),
       (302, ''Found''), (400, ''Bad Request''), (401, ''Unauthorized''), (403, ''Forbidden''),
       (404, ''Not Found''), (405, ''Method Not Allowed''), (413, ''Payload Too Large''),
       (429, ''Too Many Requests''), (500, ''Internal Server Error''), (503, ''Service Unavailable'')]"

definition res_error :: "int \<Rightarrow> string \<Rightarrow> response" where
  "res_error code msg =
     (let body = (if msg = []
                  then (case status_msg code of Some m \<Rightarrow> m | None \<Rightarrow> ''Unknown Error'') else msg)
      in res_header ''Connection'' ''close'' (res_header ''Content-Type'' ''text/plain''
           (res_body body (res_status code new_response))))"

definition res_json :: "string \<Rightarrow> response \<Rightarrow> response" where
  "res_json json_str r =
     res_body json_str (res_header ''Content-Type'' ''application/json'' (res_status 200 r))"

definition res_html :: "string \<Rightarrow> response \<Rightarrow> response" where
  "res_html html_str r =
     res_body html_str (res_header ''Content-Type'' ''text/html;charset=utf-8'' (res_status 200 r))"

definition res_redirect :: "string \<Rightarrow> int \<Rightarrow> response \<Rightarrow> response" where
  "res_redirect url code r = res_header ''Location'' url (res_status code r)"

definition res_render :: "('v \<Rightarrow> string result) \<Rightarrow> 'v \<Rightarrow> response \<Rightarrow> response result" where
  "res_render engine vars r =
     (if rs_cache r then bind_result (engine vars) (\<lambda>text. Inr (res_html text r))
      else Inr (res_html ''<h1>500 - Template engine not availble</h1>'' r))"

subsection \<open>The text on the wire\<close>

text \<open>
  \<open>build\<close> writes the length of the body over any earlier value of that header; \<open>ks\<close>
  is the order in which the hash map is visited.
\<close>

definition with_length :: "response \<Rightarrow> response" where
  "with_length r = res_header ''Content-Length'' (show_nat (length (rs_body r))) r"

definition status_line :: "int \<Rightarrow> string" where
  "status_line code =
     ''HTTP/1.1 '' @ show_int code @ '' '' @ (case status_msg code of Some m \<Rightarrow> m | None \<Rightarrow> ''Unknown'')"

definition res_build :: "string list \<Rightarrow> response \<Rightarrow> string" where
  "res_build ks r =
     (let hs = rs_headers (with_length r)
      in status_line (rs_status r) @ crlf @ concat (map (\<lambda>k. k @ '': '' @ the (hs k) @ crlf) ks)
         @ crlf @ rs_body r)"

subsection \<open>Sending\<close>

text \<open>
  \<open>wr k n\<close> is what the \<open>k\<close>-th call of \<^verbatim>\<open>write\<close> returns when it is
  given \<open>n\<close> bytes. The result is the text the peer received; the loop need not end.
\<close>

partial_function (option) send_loop ::
  "(nat \<Rightarrow> nat \<Rightarrow> int) \<Rightarrow> string \<Rightarrow> nat \<Rightarrow> nat \<Rightarrow> string \<Rightarrow> string option" where
  "send_loop wr data k offset sent =
     (let conn_result = wr k (length data - offset) in
      if conn_result = -1 then Some sent
      else
        let offset' = nat ((int offset + conn_result) mod 2 ^ 64);
            sent' = sent @ substr data offset (nat conn_result)
        in if offset' = length data then Some sent' else send_loop wr data (k + 1) offset' sent')"

definition res_send :: "(nat \<Rightarrow> nat \<Rightarrow> int) \<Rightarrow> string list \<Rightarrow> response \<Rightarrow> string option" where
  "res_send wr ks r = send_loop wr (res_build ks r) 0 0 []"

subsection \<open>The send loop\<close>

text \<open>A call of \<^verbatim>\<open>write\<close> that fails or makes progress.\<close>

definition write_ok :: "(nat \<Rightarrow> nat \<Rightarrow> int) \<Rightarrow> bool" where
  "write_ok wr \<longleftrightarrow> (\<forall>k n. 0 < n \<longrightarrow> wr k n = -1 \<or> 0 < wr k n \<and> wr k n \<le> int n)"

lemma send_loop_progress:
  assumes ok: "write_ok wr" and len: "length data < 2 ^ 64" and off: "offset < length data"
  shows "\<exists>sent. send_loop wr data k offset (take offset data) = Some sent \<and> prefix sent data
    \<and> (sent = data \<or> (\<exists>j n. wr j n = -1))"
  using off
proof (induction "length data - offset" arbitrary: k offset rule: less_induct)
  case less
  let ?r = "wr k (length data - offset)"
  show ?case
  proof (cases "?r = -1")
    case True
    then show ?thesis
      by (subst send_loop.simps) (auto simp: take_is_prefix)
  next
    case False
    then have r: "0 < ?r" "?r \<le> int (length data - offset)"
      using ok [unfolded write_ok_def, rule_format, of "length data - offset" k] less.prems by simp_all
    define offset' where "offset' = offset + nat ?r"
    have "int (length data) < 2 ^ 64" using len by simp
    then have "int offset + ?r < 2 ^ 64" using r less.prems by linarith
    then have off': "nat ((int offset + ?r) mod 2 ^ 64) = offset'"
      using r by (simp add: offset'_def nat_add_distrib)
    have bounds: "offset < offset'" "offset' \<le> length data"
      using r less.prems by (auto simp: offset'_def)
    have "take offset data @ substr data offset (nat ?r) = take offset' data"
      by (simp add: substr_def offset'_def take_add)
    then have step: "send_loop wr data k offset (take offset data)
        = (if offset' = length data then Some (take offset' data)
           else send_loop wr data (k + 1) offset' (take offset' data))"
      using False off' by (subst send_loop.simps) (simp add: Let_def)
    show ?thesis
      using step bounds less.hyps [of offset' "k + 1"] by (cases "offset' = length data") auto
  qed
qed

text \<open>Writes that return 0 for ever, as on a dead TLS connection, keep the loop running.\<close>

lemma send_loop_zero:
  assumes "send_loop wr data k offset sent = Some t"
  shows "wr = (\<lambda>k n. 0) \<longrightarrow> offset < length data \<longrightarrow> length data < 2 ^ 64 \<longrightarrow> False"
  using _ assms
proof (rule send_loop.raw_induct)
  fix f wr data k offset sent t
  assume IH: "\<And>wr data k offset sent t. f wr data k offset sent = Some t \<Longrightarrow>
      wr = (\<lambda>k n. 0) \<longrightarrow> offset < length data \<longrightarrow> length data < 2 ^ 64 \<longrightarrow> False"
    and body: "(let conn_result = wr k (length data - offset) in
      if conn_result = -1 then Some sent
      else
        let offset' = nat ((int offset + conn_result) mod 2 ^ 64);
            sent' = sent @ substr data offset (nat conn_result)
        in if offset' = length data then Some sent' else f wr data (k + 1) offset' sent') = Some t"
  show "wr = (\<lambda>k n. 0) \<longrightarrow> offset < length data \<longrightarrow> length data < 2 ^ 64 \<longrightarrow> False"
  proof (intro impI)
    assume wr: "wr = (\<lambda>k n. 0)" and off: "offset < length data" "length data < 2 ^ 64"
    then have "nat (int offset mod 2 ^ 64) = offset" by simp
    with body wr off have "f wr data (k + 1) offset sent = Some t"
      by (simp add: Let_def substr_def)
    with IH wr off show False by blast
  qed
qed

subsection \<open>The text that is sent\<close>

definition response_ok :: "response \<Rightarrow> bool" where
  "response_ok r \<longleftrightarrow> (\<forall>k v. rs_headers r k = Some v \<longrightarrow> header_ok (k, v))"

lemma map_of_iterates:
  assumes "iterates ks m"
  shows "map_of (rev (map (\<lambda>k. (k, the (m k))) ks)) = m"
proof
  fix k
  have "map_of (map (\<lambda>k. (k, the (m k))) (rev ks)) k = (if k \<in> set ks then Some (the (m k)) else None)"
    by (simp add: map_of_map_keys [symmetric] map_of_map_restrict restrict_map_def)
  then show "map_of (rev (map (\<lambda>k. (k, the (m k))) ks)) k = m k"
    using assms by (auto simp: iterates_def rev_map domIff)
qed

lemma show_nat_no:
  assumes "\<not> is_digit c"
  shows "c \<notin> set (show_nat n)" and "hd (show_nat n) \<noteq> c"
  using assms show_nat_digits [of c n] show_nat_hd [of n] by auto

lemma not_digits: "\<not> is_digit (CHR 0x0D)" "\<not> is_digit (CHR '' '')" "\<not> is_digit (CHR 0x09)"
  by (simp_all add: char_class)

lemma status_line_ok: "line_text_ok (status_line code)"
proof -
  have "CHR 0x0D \<notin> set m" if "status_msg code = Some m" for m
    using that by (auto simp: status_msg_def split: if_splits)
  moreover have "CHR 0x0D \<notin> set (show_int code)"
    by (simp add: show_int_def show_nat_no not_digits)
  ultimately show ?thesis
    by (auto simp: line_text_ok_def status_line_def split: option.split)
qed

lemma res_build_lines:
  "res_build ks r = lines_text (status_line (rs_status r) #
      map header_line (map (\<lambda>k. (k, the (rs_headers (with_length r) k))) ks)) @ crlf @ rs_body r"
  by (simp add: res_build_def Let_def lines_text_def header_line_def o_def)

lemma with_length_ok:
  assumes "response_ok r" and "rs_headers (with_length r) k = Some v"
  shows "header_ok (k, v)"
  using assms
  by (auto simp: response_ok_def with_length_def res_header_def header_ok_def show_nat_no not_digits split: if_splits)

subsection \<open>Properties\<close>

text \<open>What is sent for a response is an HTTP message a peer reads back exactly: in whatever
  order the headers are visited, the status line comes first, the header lines carry the
  headers that were set together with the right \<open>Content-Length\<close>, and everything after the
  first blank line is the body.\<close>

theorem response_wire:
  assumes "response_ok r" and "iterates ks (rs_headers (with_length r))" and "int (length ks) \<le> m"
  shows "\<exists>he. find_sub crlf (res_build ks r) = Some (length (status_line (rs_status r)))
    \<and> prefix (status_line (rs_status r)) (res_build ks r)
    \<and> find_sub (crlf @ crlf) (res_build ks r) = Some he \<and> drop (he + 4) (res_build ks r) = rs_body r
    \<and> header_loop (res_build ks r) m (length (status_line (rs_status r)) + 2) 0 empty_request =
        Inr (empty_request\<lparr>rq_headers := (rs_headers r)(''Content-Length'' \<mapsto> show_nat (length (rs_body r)))\<rparr>,
             he + 2)"
proof -
  let ?m = "rs_headers (with_length r)"
  let ?hs = "map (\<lambda>k. (k, the (?m k))) ks"
  let ?line = "status_line (rs_status r)"
  let ?head = "lines_text (?line # map header_line ?hs)"
  have ok: "\<forall>kv \<in> set ?hs. header_ok kv"
    using assms(1,2) with_length_ok by (auto simp: iterates_def domIff)
  then have lines: "\<forall>l \<in> set (?line # map header_line ?hs). line_text_ok l"
    using status_line_ok header_line_ok by auto
  have wire: "res_build ks r = ?head @ crlf @ rs_body r"
    by (rule res_build_lines)
  have len: "2 \<le> length ?head" by simp
  have headers: "header_loop (res_build ks r) m (length (?line @ crlf)) 0 empty_request =
      Inr (empty_request\<lparr>rq_headers := rq_headers empty_request ++ map_of (rev ?hs)\<rparr>,
        length (?line @ crlf) + length (lines_text (map header_line ?hs)))"
    using ok assms(3) by (intro header_loop_lines) (simp_all add: wire)
  have "map_of (rev ?hs) = (rs_headers r)(''Content-Length'' \<mapsto> show_nat (length (rs_body r)))"
    using map_of_iterates [OF assms(2)] by (simp add: with_length_def res_header_def)
  moreover have "find_sub (crlf @ crlf) (res_build ks r) = Some (length ?head - 2)"
    unfolding wire by (rule find_blank_line [OF lines])
  moreover have "find_sub crlf (res_build ks r) = Some (length ?line)"
    unfolding wire using find_crlf_line [OF status_line_ok, of "rs_status r"
      "lines_text (map header_line ?hs) @ crlf @ rs_body r"] by simp
  moreover have "res_build ks r = (?head @ crlf) @ rs_body r" by (simp add: wire)
  then have "drop (length (?head @ crlf)) (res_build ks r) = rs_body r"
    by (metis append_eq_conv_conj)
  then have "drop (length ?head - 2 + 4) (res_build ks r) = rs_body r"
    using len by (simp del: lines_text_simps)
  moreover have "prefix ?line (res_build ks r)" by (simp add: wire)
  ultimately show ?thesis
    using headers by (intro exI [of _ "length ?head - 2"]) (simp add: empty_request_def)
qed

text \<open>Sending terminates when every write fails or makes progress: the peer then has
  received a prefix of the response, all of it unless some write failed.\<close>

theorem response_sent:
  assumes "write_ok wr" and "length (res_build ks r) < 2 ^ 64"
  shows "\<exists>sent. res_send wr ks r = Some sent \<and> prefix sent (res_build ks r)
    \<and> ((\<forall>k n. wr k n \<noteq> -1) \<longrightarrow> sent = res_build ks r)"
proof -
  have "0 < length (res_build ks r)" by (simp add: res_build_def Let_def)
  from send_loop_progress [OF assms this, of 0] show ?thesis
    by (auto simp: res_send_def)
qed

subsection \<open>Witnesses\<close>

definition sample_page :: response where
  "sample_page = res_html ''<p>'' new_response"

lemma sample_page_ok:
  "response_ok sample_page"
  "iterates [''Content-Type'', ''Content-Length''] (rs_headers (with_length sample_page))"
  by (simp_all add: sample_page_def response_ok_def iterates_def with_length_def res_html_def
    res_header_def res_status_def res_body_def new_response_def header_ok_def insert_commute)

theorem response_wire_witness:
  "prefix ''HTTP/1.1 200 OK'' (res_build [''Content-Type'', ''Content-Length''] sample_page)
   \<and> (\<exists>he. find_sub (crlf @ crlf) (res_build [''Content-Type'', ''Content-Length''] sample_page) = Some he
        \<and> drop (he + 4) (res_build [''Content-Type'', ''Content-Length''] sample_page) = ''<p>'')"
proof -
  have "status_line (rs_status sample_page) = ''HTTP/1.1 200 OK''" "rs_body sample_page = ''<p>''"
    by code_simp+
  then show ?thesis
    using response_wire [OF sample_page_ok, of 2] by auto
qed

text \<open>A socket that takes at most ten bytes at a time.\<close>

theorem response_sent_witness:
  "res_send (\<lambda>k n. int (min n 10)) [''Content-Type'', ''Content-Length''] sample_page
     = Some (res_build [''Content-Type'', ''Content-Length''] sample_page)"
proof -
  have "length (res_build [''Content-Type'', ''Content-Length''] sample_page) < 2 ^ 64"
    by (simp add: res_build_def sample_page_def with_length_def res_html_def res_header_def
      res_status_def res_body_def new_response_def status_line_def status_msg_def show_int_def show_nat.simps)
  moreover have "write_ok (\<lambda>k n. int (min n 10))" by (simp add: write_ok_def)
  ultimately show ?thesis
    using response_sent [of "\<lambda>k n. int (min n 10)" "[''Content-Type'', ''Content-Length'']" sample_page]
    by auto
qed

end
