(* ===== verification/Router.thy ===== *)
theory Router
  imports Response
begin

section \<open>Routes\<close>

text \<open>
  Models \<^verbatim>\<open>src/core/router.cpp\<close> and \<^verbatim>\<open>include/ynet/core/router.h\<close>. A
  handler may change the request, the response and the rest of the server's state, written
  \<open>'w\<close>, and may throw: it returns the exception, if any, with the state it leaves. The
  routes are a hash map from \<^verbatim>\<open>method:path\<close> to handlers, so the loop over the
  routes takes the order of iteration.
\<close>

type_synonym 'w ctx = "request \<times> response \<times> 'w"
type_synonym 'w handler = "'w ctx \<Rightarrow> exn option \<times> 'w ctx"
type_synonym 'w routes = "string \<rightharpoonup> 'w handler"

definition route_key :: "string \<Rightarrow> string \<Rightarrow> string" where
  "route_key method path = method @ '':'' @ path"

definition addRoute :: "string \<Rightarrow> string \<Rightarrow> 'h \<Rightarrow> (string \<rightharpoonup> 'h) \<Rightarrow> (string \<rightharpoonup> 'h)" where
  "addRoute method path handler routes = routes(route_key method path \<mapsto> handler)"

subsection \<open>Registering routes\<close>

text \<open>The four ways to say what a route does; \<open>load\<close> is the cache's \<open>loadFile\<close>.\<close>

record route =
  rt_method :: string
  rt_path :: string

definition route_get :: "string \<Rightarrow> route" where
  "route_get path = \<lparr>rt_method = ''GET'', rt_path = path\<rparr>"

definition route_post :: "string \<Rightarrow> route" where
  "route_post path = \<lparr>rt_method = ''POST'', rt_path = path\<rparr>"

definition route_put :: "string \<Rightarrow> route" where
  "route_put path = \<lparr>rt_method = ''PUT'', rt_path = path\<rparr>"

definition route_del :: "string \<Rightarrow> route" where
  "route_del path = \<lparr>rt_method = ''DELETE'', rt_path = path\<rparr>"

definition Route_handle :: "route \<Rightarrow> 'h \<Rightarrow> (string \<rightharpoonup> 'h) \<Rightarrow> (string \<rightharpoonup> 'h)" where
  "Route_handle r fn routes = addRoute (rt_method r) (rt_path r) fn routes"

definition Route_html :: "route \<Rightarrow> string \<Rightarrow> 'w routes \<Rightarrow> 'w routes" where
  "Route_html r content =
     addRoute (rt_method r) (rt_path r) (\<lambda>(req, res, w). (None, req, res_html content res, w))"

definition Route_json :: "route \<Rightarrow> string \<Rightarrow> 'w routes \<Rightarrow> 'w routes" where
  "Route_json r content =
     addRoute (rt_method r) (rt_path r) (\<lambda>(req, res, w). (None, req, res_json content res, w))"

definition Route_file :: "(string \<Rightarrow> 'w \<Rightarrow> string result \<times> 'w) \<Rightarrow> route \<Rightarrow> string \<Rightarrow> 'w routes \<Rightarrow> 'w routes" where
  "Route_file load r filepath =
     addRoute (rt_method r) (rt_path r) (\<lambda>(req, res, w).
       (case load filepath w of
          (Inl e, w') \<Rightarrow> (Some e, req, res, w')
        | (Inr content, w') \<Rightarrow>
            if content = [] then (None, req, res_body ''Internal Server Error'' (res_status 500 res), w')
            else (None, req, res_html content res, w')))"

text \<open>
  Error pages: a handler per status code that makes a response of its own from the request, or
  throws, and may change the rest of the state. \<open>disk\<close> maps the paths of readable files to
  their contents.
\<close>

type_synonym 'w error_handlers =
  "int \<rightharpoonup> (request \<Rightarrow> (string \<rightharpoonup> string) \<Rightarrow> 'w \<Rightarrow> response result \<times> 'w)"

definition ErrorRoute_html :: "int \<Rightarrow> string \<Rightarrow> 'w error_handlers \<Rightarrow> 'w error_handlers" where
  "ErrorRoute_html code content handlers = handlers(code \<mapsto> \<lambda>req disk w. (Inr (res_html content new_response), w))"

definition ErrorRoute_json :: "int \<Rightarrow> string \<Rightarrow> 'w error_handlers \<Rightarrow> 'w error_handlers" where
  "ErrorRoute_json code content handlers = handlers(code \<mapsto> \<lambda>req disk w. (Inr (res_json content new_response), w))"

definition ErrorRoute_file :: "int \<Rightarrow> string \<Rightarrow> 'w error_handlers \<Rightarrow> 'w error_handlers" where
  "ErrorRoute_file code filepath handlers = handlers(code \<mapsto> \<lambda>req disk w.
     (case disk filepath of
        None \<Rightarrow> (Inr (res_html ''Internal Server Error'' (res_status 500 new_response)), w)
      | Some content \<Rightarrow> (Inr (res_html content new_response), w)))"

subsection \<open>Resolving a request\<close>

text \<open>The loop that cuts a path into parts; the code has it twice.\<close>

function path_loop :: "string \<Rightarrow> nat \<Rightarrow> string list \<Rightarrow> string list" where
  "path_loop path start parts =
     (if start < length path then
        (case find_from path [CHR ''/''] start of
           None \<Rightarrow> parts @ [drop start path]
         | Some slash \<Rightarrow> path_loop path (slash + 1) (parts @ [substr path start (slash - start)]))
      else parts)"
  by pat_completeness auto
termination
  by (relation "measure (\<lambda>(path, start, parts). length path - start)") (auto dest: find_from_char_less)

declare path_loop.simps [simp del]

definition path_parts :: "string \<Rightarrow> string list" where
  "path_parts path = path_loop path 1 []"

fun match_parts ::
  "string list \<Rightarrow> string list \<Rightarrow> (string \<rightharpoonup> string) \<Rightarrow> (string \<rightharpoonup> string) option" where
  "match_parts [] _ params = Some params"
| "match_parts (r # rs) ps params =
     (if r = [] then None
      else if hd r = CHR '':'' then match_parts rs (tl ps) (params(tl r \<mapsto> hd ps))
      else if r \<noteq> hd ps then None
      else match_parts rs (tl ps) params)"

text \<open>One route: the parameters it captures, unless the request does not match it.\<close>

definition split_key :: "string \<Rightarrow> string \<times> string" where
  "split_key key =
     (case find_from key [CHR '':''] 0 of
        None \<Rightarrow> (key, key) | Some colon \<Rightarrow> (substr key 0 colon, drop (colon + 1) key))"

definition try_route :: "string \<Rightarrow> string list \<Rightarrow> string \<Rightarrow> (string \<rightharpoonup> string) option" where
  "try_route method parts key =
     (let (route_method, route_path) = split_key key in
      if route_method \<noteq> method then None
      else if find_from route_path [CHR '':''] 0 = None then None
      else
        let route_parts = path_parts route_path in
        if length route_parts \<noteq> length parts then None
        else match_parts route_parts parts Map.empty)"

fun resolve_loop ::
  "string list \<Rightarrow> (string \<rightharpoonup> 'h) \<Rightarrow> string \<Rightarrow> string list \<Rightarrow> request \<Rightarrow> 'h option \<times> request" where
  "resolve_loop [] routes method parts req = (None, req)"
| "resolve_loop (key # keys) routes method parts req =
     (case try_route method parts key of
        None \<Rightarrow> resolve_loop keys routes method parts req
      | Some temp_params \<Rightarrow> (routes key, req\<lparr>rq_params := rq_params req ++ temp_params\<rparr>))"

definition resolve ::
  "string list \<Rightarrow> (string \<rightharpoonup> 'h) \<Rightarrow> string \<Rightarrow> string \<Rightarrow> request \<Rightarrow> 'h option \<times> request" where
  "resolve ks routes method path req =
     (case routes (route_key method path) of
        Some handler \<Rightarrow> (Some handler, req)
      | None \<Rightarrow> resolve_loop ks routes method (path_parts path) req)"

subsection \<open>What a route matches\<close>

text \<open>
  The reference: a pattern and a path are cut into the pieces after the leading slash; every
  piece of the pattern is a parameter, written with a colon, or the piece of the path itself.
\<close>

lemma path_loop_pieces: "path_loop path start parts = parts @ pieces (CHR ''/'') (drop start path)"
proof (induction path start parts rule: path_loop.induct)
  case (1 path start parts)
  show ?case
  proof (cases "start < length path")
    case True
    with "1.IH" show ?thesis
      by (cases "find_from path [CHR ''/''] start")
        (simp_all add: path_loop.simps [of path start] find_from_pieces_None find_from_pieces_Some)
  qed (simp add: path_loop.simps [of path start])
qed

lemma path_parts_pieces: "path_parts path = pieces (CHR ''/'') (drop 1 path)"
  by (simp add: path_parts_def path_loop_pieces)

definition seg_matches :: "string \<Rightarrow> string \<Rightarrow> bool" where
  "seg_matches r p \<longleftrightarrow> r \<noteq> [] \<and> (hd r = CHR '':'' \<or> r = p)"

definition captures :: "string list \<Rightarrow> string list \<Rightarrow> (string \<times> string) list" where
  "captures rs ps = map (\<lambda>(r, p). (tl r, p)) (filter (\<lambda>(r, p). hd r = CHR '':'') (zip rs ps))"

definition matches :: "string \<Rightarrow> string \<Rightarrow> bool" where
  "matches route_path path \<longleftrightarrow> CHR '':'' \<in> set route_path
     \<and> list_all2 seg_matches (pieces (CHR ''/'') (drop 1 route_path)) (pieces (CHR ''/'') (drop 1 path))"

definition captured :: "string \<Rightarrow> string \<Rightarrow> string \<rightharpoonup> string" where
  "captured route_path path =
     map_of (rev (captures (pieces (CHR ''/'') (drop 1 route_path)) (pieces (CHR ''/'') (drop 1 path))))"

lemma captures_simps [simp]:
  "captures [] ps = []"
  "captures (r # rs) (p # ps) = (if hd r = CHR '':'' then (tl r, p) # captures rs ps else captures rs ps)"
  by (simp_all add: captures_def)

lemma match_parts_iff:
  "length rs = length ps \<Longrightarrow> match_parts rs ps params =
    (if list_all2 seg_matches rs ps then Some (params ++ map_of (rev (captures rs ps))) else None)"
proof (induction rs arbitrary: ps params)
  case (Cons r rs)
  then obtain p ps' where ps: "ps = p # ps'" by (cases ps) auto
  have "params(tl r \<mapsto> p) ++ m = params ++ ([tl r \<mapsto> p] ++ m)" for m
    by (auto simp: map_add_def fun_eq_iff split: option.split)
  from this [of "map_of (rev (captures rs ps'))"] Cons show ?case
    by (auto simp: ps seg_matches_def)
qed simp

lemma split_route_key: "CHR '':'' \<notin> set method \<Longrightarrow> split_key (route_key method path) = (method, path)"
  by (simp add: split_key_def route_key_def substr_def)

lemma split_key_method:
  assumes "split_key key = (method, path)" and "CHR '':'' \<in> set key"
  shows "key = route_key method path"
proof -
  obtain i where i: "find_sub [CHR '':''] key = Some i"
    using assms(2) by (metis find_sub_char_None option.exhaust)
  from assms(1) find_sub_char_SomeD [OF i] show ?thesis
    by (auto simp: split_key_def i route_key_def substr_def)
qed

lemma try_route_iff:
  assumes "CHR '':'' \<notin> set method"
  shows "try_route method (path_parts path) key = Some params \<longleftrightarrow>
    (\<exists>rp. key = route_key method rp \<and> matches rp path \<and> params = captured rp path)"
proof -
  obtain m rp where key: "split_key key = (m, rp)" by fastforce
  have attempt: "try_route method (path_parts path) key = Some params \<longleftrightarrow>
      m = method \<and> matches rp path \<and> params = captured rp path"
    by (auto simp: try_route_def key Let_def find_sub_char_None matches_def captured_def path_parts_pieces
      match_parts_iff list_all2_lengthD split: if_splits)
  show ?thesis
  proof
    assume "try_route method (path_parts path) key = Some params"
    then have *: "m = method" "matches rp path" "params = captured rp path" using attempt by auto
    have "CHR '':'' \<in> set key"
    proof (rule ccontr)
      assume "CHR '':'' \<notin> set key"
      with key *(2) show False by (auto simp: split_key_def find_sub_char_notin matches_def)
    qed
    with key * have "key = route_key method rp" by (auto intro: split_key_method)
    with * show "\<exists>rp. key = route_key method rp \<and> matches rp path \<and> params = captured rp path" by blast
  next
    assume "\<exists>rp. key = route_key method rp \<and> matches rp path \<and> params = captured rp path"
    with attempt key split_route_key [OF assms] show "try_route method (path_parts path) key = Some params"
      by auto
  qed
qed

lemma resolve_loop_cases:
  "resolve_loop ks routes method parts req =
    (case find (\<lambda>k. try_route method parts k \<noteq> None) ks of
       None \<Rightarrow> (None, req)
     | Some k \<Rightarrow> (routes k, req\<lparr>rq_params := rq_params req ++ the (try_route method parts k)\<rparr>))"
  by (induction ks) (auto split: option.splits)

subsection \<open>Properties\<close>

text \<open>A registered route is found: a request for exactly the registered method and path gets
  the handler registered last for them, whatever other routes there are and in whatever order
  they are visited, and the request is unchanged.\<close>

theorem resolve_registered:
  "resolve ks (addRoute method path handler routes) method path req = (Some handler, req)"
  by (simp add: resolve_def addRoute_def)

text \<open>No route is found exactly when none matches: neither the path itself is registered nor
  a pattern whose fixed segments are those of the path and whose parameters stand for the
  others.\<close>

theorem resolve_none_iff:
  assumes "iterates ks routes" and "CHR '':'' \<notin> set method"
  shows "fst (resolve ks routes method path req) = None \<longleftrightarrow>
    routes (route_key method path) = None
    \<and> (\<forall>rp. routes (route_key method rp) \<noteq> None \<longrightarrow> \<not> matches rp path)"
proof (cases "routes (route_key method path)")
  case None
  show ?thesis
  proof (cases "find (\<lambda>k. try_route method (path_parts path) k \<noteq> None) ks")
    case none: None
    then have "try_route method (path_parts path) k = None" if "k \<in> set ks" for k
      using that by (auto simp: find_None_iff)
    then have "\<not> matches rp path" if "routes (route_key method rp) \<noteq> None" for rp
      using that assms(1) try_route_iff [OF assms(2), of path "route_key method rp"]
      by (fastforce simp: iterates_def)
    with None none show ?thesis by (simp add: resolve_def resolve_loop_cases)
  next
    case (Some k)
    then have "k \<in> set ks" "try_route method (path_parts path) k \<noteq> None"
      by (auto simp: find_Some_iff)
    then obtain rp where "k = route_key method rp" "matches rp path" "routes k \<noteq> None"
      using try_route_iff [OF assms(2)] assms(1) by (auto simp: iterates_def)
    with None Some show ?thesis by (auto simp: resolve_def resolve_loop_cases)
  qed
qed (simp add: resolve_def)

text \<open>C30. A pattern that is the only match is chosen independently of the order of the routes,
  and every parameter of the pattern is bound to its segment of the path.\<close>

theorem resolve_pattern:
  assumes "iterates ks routes" and "CHR '':'' \<notin> set method"
    and "routes (route_key method path) = None" and "routes (route_key method rp) = Some handler"
    and "matches rp path"
    and "\<forall>rp'. routes (route_key method rp') \<noteq> None \<longrightarrow> matches rp' path \<longrightarrow> rp' = rp"
  shows "resolve ks routes method path req =
    (Some handler, req\<lparr>rq_params := rq_params req ++ captured rp path\<rparr>)"
proof -
  have hit: "try_route method (path_parts path) (route_key method rp) = Some (captured rp path)"
    using try_route_iff [OF assms(2)] assms(5) by blast
  have "route_key method rp \<in> set ks" using assms(1,4) by (auto simp: iterates_def)
  then obtain k where k: "find (\<lambda>k. try_route method (path_parts path) k \<noteq> None) ks = Some k"
    using hit by (fastforce simp: find_None_iff)
  then have "k \<in> set ks" "try_route method (path_parts path) k \<noteq> None"
    by (auto simp: find_Some_iff)
  then have "k = route_key method rp"
    using try_route_iff [OF assms(2)] assms(1,6) by (auto simp: iterates_def)
  with k hit assms(3,4) show ?thesis by (simp add: resolve_def resolve_loop_cases)
qed

subsection \<open>Witnesses\<close>

theorem resolve_none_iff_witness:
  "fst (resolve [''GET:/a''] [''GET:/a'' \<mapsto> (0 :: nat)] ''GET'' ''/b'' empty_request) = None"
proof -
  have "iterates [''GET:/a''] [''GET:/a'' \<mapsto> (0 :: nat)]" by (simp add: iterates_def)
  then show ?thesis
    by (subst resolve_none_iff) (auto simp: route_key_def matches_def)
qed

theorem resolve_pattern_witness:
  "resolve [''GET:/u/:id''] [''GET:/u/:id'' \<mapsto> (0 :: nat)] ''GET'' ''/u/42'' empty_request =
    (Some 0, empty_request\<lparr>rq_params := [''id'' \<mapsto> ''42'']\<rparr>)"
proof -
  have pieces: "pieces (CHR ''/'') ''u/:id'' = [''u'', '':id'']" "pieces (CHR ''/'') ''u/42'' = [''u'', ''42'']"
    by (simp_all add: pieces_def)
  have "captured ''/u/:id'' ''/u/42'' = [''id'' \<mapsto> ''42'']"
    by (simp add: captured_def captures_def pieces)
  moreover have "matches ''/u/:id'' ''/u/42''"
    by (simp add: matches_def seg_matches_def pieces)
  moreover have "iterates [''GET:/u/:id''] [''GET:/u/:id'' \<mapsto> (0 :: nat)]" by (simp add: iterates_def)
  ultimately show ?thesis
    using resolve_pattern [of "[''GET:/u/:id'']" "[''GET:/u/:id'' \<mapsto> (0 :: nat)]" "''GET''" "''/u/42''" "''/u/:id''" 0
      empty_request] by (simp add: route_key_def empty_request_def split: if_splits)
qed

end
