(* ===== verification/Middleware.thy ===== *)
theory Middleware
  imports Router
begin

section \<open>Middlewares\<close>

text \<open>
  Models \<^verbatim>\<open>include/ynet/core/middleware.h\<close>, the chain that \<open>Server::handleRequest\<close>
  builds from the registered middlewares, and the middlewares without a state of their own:
  \<^verbatim>\<open>src/security/cors.cpp\<close>, \<^verbatim>\<open>src/security/sanitizer.cpp\<close>,
  \<^verbatim>\<open>src/security/secure_headers.cpp\<close> and \<^verbatim>\<open>src/util/logger.cpp\<close>. A
  middleware gets the context and the rest of the chain, which it may call; references to the
  request and the response become the context that is handed on.
\<close>

type_synonym 'w effect = "'w ctx \<Rightarrow> exn option \<times> 'w ctx"
type_synonym 'w middleware = "'w ctx \<Rightarrow> 'w effect \<Rightarrow> exn option \<times> 'w ctx"

text \<open>The loop runs from the last middleware to the first and wraps what it has so far.\<close>

fun wrap_chain :: "'w middleware list \<Rightarrow> nat \<Rightarrow> 'w effect \<Rightarrow> 'w effect" where
  "wrap_chain mws 0 nxt = nxt"
| "wrap_chain mws (Suc i) nxt = wrap_chain mws i (\<lambda>c. (mws ! i) c nxt)"

definition run_chain :: "'w middleware list \<Rightarrow> 'w effect \<Rightarrow> 'w effect" where
  "run_chain mws final = wrap_chain mws (length mws) final"

lemma wrap_chain_foldr:
  "i \<le> length mws \<Longrightarrow> wrap_chain mws i nxt = foldr (\<lambda>m k c. m c k) (take i mws) nxt"
proof (induction i arbitrary: nxt)
  case (Suc i)
  then have "take (Suc i) mws = take i mws @ [mws ! i]" by (simp add: take_Suc_conv_app_nth)
  with Suc show ?case by simp
qed simp

lemma run_chain_simps [simp]:
  "run_chain [] final = final"
  "run_chain (m # ms) final = (\<lambda>c. m c (run_chain ms final))"
  by (simp_all add: run_chain_def wrap_chain_foldr del: wrap_chain.simps)

subsection \<open>Interfaces\<close>

text \<open>
  A component of the server's state that a middleware owns: reading it and replacing it. The
  laws say that the components do not overlap with themselves: what is written is read, and
  nothing else is changed by writing back what was read.
\<close>

locale component =
  fixes get :: "'w \<Rightarrow> 's" and put :: "'s \<Rightarrow> 'w \<Rightarrow> 'w"
  assumes get_put: "get (put s w) = s"
    and put_get: "put (get w) w = w"
    and put_put: "put s (put t w) = put s w"

text \<open>
  The contract of a middleware that decides first and calls the rest of the chain last, if at
  all: \<open>decide\<close> says with which context it stops or goes on, or what it throws.
\<close>

datatype 'w verdict = Stop "'w ctx" | Continue "'w ctx" | Throw exn "'w ctx"

fun follow :: "'w verdict \<Rightarrow> 'w effect \<Rightarrow> exn option \<times> 'w ctx" where
  "follow (Stop c) nxt = (None, c)"
| "follow (Continue c) nxt = nxt c"
| "follow (Throw e c) nxt = (Some e, c)"

locale filter_middleware =
  fixes mw :: "'w middleware" and decide :: "'w ctx \<Rightarrow> 'w verdict"
  assumes decides: "mw c nxt = follow (decide c) nxt"
begin

lemma stops: "decide c = Stop c' \<Longrightarrow> run_chain (mw # ms) final c = (None, c')"
  by (simp add: decides)

lemma continues: "decide c = Continue c' \<Longrightarrow> run_chain (mw # ms) final c = run_chain ms final c'"
  by (simp add: decides)

text \<open>Nothing behind the middleware matters to a request it stops.\<close>

lemma stop_hides: "decide c = Stop c' \<Longrightarrow> run_chain (mw # ms) final c = run_chain (mw # ns) other c"
  by (simp add: decides)

text \<open>A handler that throws is reached only through the middleware.\<close>

lemma throws:
  assumes "fst (run_chain (mw # ms) final c) = Some e" and "\<forall>c. fst (run_chain ms final c) = None"
  shows "\<exists>c'. decide c = Throw e c'"
  using assms by (cases "decide c") (auto simp: decides)

end

subsection \<open>Cross-origin requests\<close>

definition cors_origin :: "string list \<Rightarrow> request \<Rightarrow> response \<Rightarrow> response" where
  "cors_origin allowed_origins req res =
     (let origin = getHeader req ''Origin'' in
      if length allowed_origins = 1 \<and> allowed_origins ! 0 = ''*''
      then res_header ''Access-Control-Allow-Origin'' ''*'' res
      else (case origin of
              None \<Rightarrow> res
            | Some o' \<Rightarrow> if o' \<in> set allowed_origins
                then res_header ''Access-Control-Allow-Origin'' o' res else res))"

definition cors_preflight :: "response \<Rightarrow> response" where
  "cors_preflight res =
     res_body [] (res_status 204
       (res_header ''Access-Control-Allow-Headers'' ''Content-Type, X-CSRF-Token''
         (res_header ''Access-Control-Allow-Methods'' ''GET, POST, PUT, DELETE, OPTIONS'' res)))"

definition cors :: "string list \<Rightarrow> 'w middleware" where
  "cors allowed_origins c nxt =
     (case c of (req, res, w) \<Rightarrow>
        let res1 = cors_origin allowed_origins req res in
        if rq_method req = ''OPTIONS'' then (None, req, cors_preflight res1, w)
        else nxt (req, res1, w))"

definition cors_decide :: "string list \<Rightarrow> 'w ctx \<Rightarrow> 'w verdict" where
  "cors_decide allowed_origins c =
     (case c of (req, res, w) \<Rightarrow>
        if rq_method req = ''OPTIONS''
        then Stop (req, cors_preflight (cors_origin allowed_origins req res), w)
        else Continue (req, cors_origin allowed_origins req res, w))"

interpretation cors_filter: filter_middleware "cors origins" "cors_decide origins" for origins
  by unfold_locales (auto simp: cors_def cors_decide_def Let_def split: prod.splits)

subsection \<open>The sanitizer\<close>

definition sanitizer_blocked :: "string list" where
  "sanitizer_blocked = [''..'', ''%2e%2e'', ''%00'']"

definition Sanitizer :: "'w middleware" where
  "Sanitizer c nxt =
     (case c of (req, res, w) \<Rightarrow>
        if list_ex (\<lambda>pattern. contains (rq_path req) pattern) sanitizer_blocked
        then (None, req, res_body ''Bad Request'' (res_status 400 res), w)
        else nxt (req, res, w))"

definition sanitizer_decide :: "'w ctx \<Rightarrow> 'w verdict" where
  "sanitizer_decide c =
     (case c of (req, res, w) \<Rightarrow>
        if list_ex (\<lambda>pattern. contains (rq_path req) pattern) sanitizer_blocked
        then Stop (req, res_body ''Bad Request'' (res_status 400 res), w) else Continue c)"

interpretation sanitizer_filter: filter_middleware Sanitizer sanitizer_decide
  by unfold_locales (auto simp: Sanitizer_def sanitizer_decide_def split: prod.splits)

subsection \<open>Security headers\<close>

definition in_quotes :: "string \<Rightarrow> string" where
  "in_quotes s = CHR 0x27 # s @ [CHR 0x27]"

definition default_csp :: string where
  "default_csp =
     ''default-src '' @ in_quotes ''self'' @ ''; style-src '' @ in_quotes ''self'' @ '' ''
     @ in_quotes ''unsafe-inline'' @ ''; script-src '' @ in_quotes ''self'' @ '' ''
     @ in_quotes ''unsafe-inline''"

definition secure_headers :: "string \<Rightarrow> response \<Rightarrow> response" where
  "secure_headers csp res =
     res_header ''Content-Security-Policy'' csp
     (res_header ''Cache-Control'' ''no-store''
     (res_header ''Referrer-Policy'' ''strict-origin-when-cross-origin''
     (res_header ''X-Frame-Options'' ''DENY''
     (res_header ''X-Content-Type-Options'' ''nosniff'' res))))"

definition SecureHeaders :: "string \<Rightarrow> 'w middleware" where
  "SecureHeaders csp c nxt = (case c of (req, res, w) \<Rightarrow> nxt (req, secure_headers csp res, w))"

definition secure_decide :: "string \<Rightarrow> 'w ctx \<Rightarrow> 'w verdict" where
  "secure_decide csp c = (case c of (req, res, w) \<Rightarrow> Continue (req, secure_headers csp res, w))"

interpretation secure_filter: filter_middleware "SecureHeaders csp" "secure_decide csp" for csp
  by unfold_locales (auto simp: SecureHeaders_def secure_decide_def split: prod.splits)

subsection \<open>The logger\<close>

text \<open>
  The logger is the one middleware that acts after the rest of the chain: \<open>time_str\<close> is the
  formatted time at which it started, and a line is appended to the log unless the chain
  throws. \<open>get\<close> and \<open>put\<close> access the lines written so far.
\<close>

definition log_line :: "string \<Rightarrow> request \<Rightarrow> response \<Rightarrow> string" where
  "log_line time_str req res =
     ''['' @ time_str @ '']'' @ '' '' @ rq_method req @ '' '' @ rq_path req @ '' ''
     @ show_int (rs_status res) @ '' '' @ rq_client_ip req"

definition Logger ::
  "('w \<Rightarrow> string list) \<Rightarrow> (string list \<Rightarrow> 'w \<Rightarrow> 'w) \<Rightarrow> ('w \<Rightarrow> string) \<Rightarrow> 'w middleware" where
  "Logger get put time_str c nxt =
     (case c of (req, res, w) \<Rightarrow>
        let ts = time_str w in
        (case nxt c of
           (Some e, c') \<Rightarrow> (Some e, c')
         | (None, (req', res', w')) \<Rightarrow>
             (None, (req', res', put (get w' @ [log_line ts req' res']) w'))))"

subsection \<open>Properties\<close>

text \<open>The CORS middleware grants access only to origins it was configured with, and answers
  a preflight request itself: the response carries an \<open>Access-Control-Allow-Origin\<close> set by it
  only if the list is the wildcard or the request's origin is on the list, and whatever comes
  later in the chain never sees an \<open>OPTIONS\<close> request.\<close>

theorem cors_allows_only_configured:
  assumes "rs_headers res ''Access-Control-Allow-Origin'' = None"
  shows "rs_headers (cors_origin origins req res) ''Access-Control-Allow-Origin'' =
      (if origins = [''*''] then Some ''*''
       else case getHeader req ''Origin'' of
         Some o' \<Rightarrow> if o' \<in> set origins then Some o' else None | None \<Rightarrow> None)
    \<and> (rq_method req = ''OPTIONS'' \<longrightarrow>
       run_chain (cors origins # ms) final (req, res, w) =
         (None, req, cors_preflight (cors_origin origins req res), w))
    \<and> (rq_method req \<noteq> ''OPTIONS'' \<longrightarrow>
       run_chain (cors origins # ms) final (req, res, w) =
         run_chain ms final (req, cors_origin origins req res, w))"
proof -
  have star: "length origins = 1 \<and> origins ! 0 = ''*'' \<longleftrightarrow> origins = [''*'']"
    by (cases origins) auto
  have "rs_headers (cors_origin origins req res) ''Access-Control-Allow-Origin'' =
      (if origins = [''*''] then Some ''*''
       else case getHeader req ''Origin'' of
         Some o' \<Rightarrow> if o' \<in> set origins then Some o' else None | None \<Rightarrow> None)"
    using assms unfolding cors_origin_def Let_def star
    by (auto simp: res_header_def split: option.split)
  moreover have "run_chain (cors origins # ms) final (req, res, w) =
      (None, req, cors_preflight (cors_origin origins req res), w)" if "rq_method req = ''OPTIONS''"
    by (rule cors_filter.stops) (simp add: cors_decide_def that)
  moreover have "run_chain (cors origins # ms) final (req, res, w) =
      run_chain ms final (req, cors_origin origins req res, w)" if "rq_method req \<noteq> ''OPTIONS''"
    by (rule cors_filter.continues) (simp add: cors_decide_def that)
  ultimately show ?thesis by blast
qed

theorem cors_allows_only_configured_witness:
  "rs_headers (cors_origin [''a'', ''b''] (empty_request\<lparr>rq_headers := [''Origin'' \<mapsto> ''c'']\<rparr>) new_response)
     ''Access-Control-Allow-Origin'' = None"
proof -
  have "rs_headers new_response ''Access-Control-Allow-Origin'' = None" by (simp add: new_response_def)
  from cors_allows_only_configured [OF this, of "[''a'', ''b'']"
      "empty_request\<lparr>rq_headers := [''Origin'' \<mapsto> ''c'']\<rparr>", THEN conjunct1]
  show ?thesis by (simp add: getHeader_def)
qed

end
