(* ===== verification/Path_Guard.thy ===== *)
theory Path_Guard
  imports Middleware
begin

section \<open>The path guard\<close>

text \<open>
  Models \<^verbatim>\<open>src/security/path_guard.cpp\<close>. A client that asks once for a path on the
  lists is put on a blacklist for good. The mutex only protects single operations on the
  blacklist; here one check follows the other, and \<open>Guard_Threads\<close> shows that concurrent checks
  answer like that.
\<close>

record path_guard =
  pg_exact :: "string set"
  pg_prefix :: "string list"
  pg_exts :: "string list"
  pg_blacklist :: "string set"
  pg_whitelist :: "string set"

definition new_path_guard :: path_guard where
  "new_path_guard =
     \<lparr>pg_exact = {''/wp-login.php'', ''/phpMyAdmin'', ''/pma'', ''/backup.sql'', ''/db.zip'',
        ''/swagger-ui.html'', ''/v2/api-docs'', ''/docker-compose.yml'', ''/Dockerfile'',
        ''/package.json'', ''/.well-known/security.txt''},
      pg_prefix = [''/.env'', ''/.git'', ''/.svn'', ''/.aws'', ''/.ssh'', ''/.vscode'',
        ''/wp-admin'', ''/cgi-bin'', ''/actuator'', ''/node_modules''],
      pg_exts = [''.php'', ''.sql'', ''.bak'', ''.old'', ''.zip''],
      pg_blacklist = {}, pg_whitelist = {}\<rparr>"

definition addExact :: "string \<Rightarrow> path_guard \<Rightarrow> path_guard" where
  "addExact path g = g\<lparr>pg_exact := insert path (pg_exact g)\<rparr>"

definition addPrefix :: "string \<Rightarrow> path_guard \<Rightarrow> path_guard" where
  "addPrefix pre g = g\<lparr>pg_prefix := pg_prefix g @ [pre]\<rparr>"

definition addExt :: "string \<Rightarrow> path_guard \<Rightarrow> path_guard" where
  "addExt ext g = g\<lparr>pg_exts := pg_exts g @ [ext]\<rparr>"

definition addWhitelist :: "string \<Rightarrow> path_guard \<Rightarrow> path_guard" where
  "addWhitelist ip g = g\<lparr>pg_whitelist := insert ip (pg_whitelist g)\<rparr>"

definition isBlocked :: "string \<Rightarrow> path_guard \<Rightarrow> bool" where
  "isBlocked ip g \<longleftrightarrow> ip \<in> pg_blacklist g"

definition blacklist_ip :: "string \<Rightarrow> path_guard \<Rightarrow> path_guard" where
  "blacklist_ip ip g = g\<lparr>pg_blacklist := insert ip (pg_blacklist g)\<rparr>"

definition has_prefix_of :: "string list \<Rightarrow> string \<Rightarrow> bool" where
  "has_prefix_of pres path \<longleftrightarrow> list_ex (\<lambda>p. substr path 0 (length p) = p) pres"

definition has_ext_of :: "string list \<Rightarrow> string \<Rightarrow> bool" where
  "has_ext_of exts path \<longleftrightarrow>
     list_ex (\<lambda>e. length path \<ge> length e \<and> substr path (length path - length e) (length e) = e) exts"

definition guard_check :: "request \<Rightarrow> path_guard \<Rightarrow> bool \<times> path_guard" where
  "guard_check req g =
     (let ip = rq_client_ip req; path = rq_path req in
      if ip \<in> pg_whitelist g then (False, g)
      else if isBlocked ip g then (True, g)
      else if path \<in> pg_exact g then (True, blacklist_ip ip g)
      else if has_prefix_of (pg_prefix g) path then (True, blacklist_ip ip g)
      else if has_ext_of (pg_exts g) path then (True, blacklist_ip ip g)
      else (False, g))"

definition guard_toMiddleware ::
  "('w \<Rightarrow> path_guard) \<Rightarrow> (path_guard \<Rightarrow> 'w \<Rightarrow> 'w) \<Rightarrow> 'w middleware" where
  "guard_toMiddleware get put c nxt =
     (case c of (req, res, w) \<Rightarrow>
        let (blocked, g) = guard_check req (get w); w' = put g w in
        if blocked then (None, req, res_status 403 res, w') else nxt (req, res, w'))"

definition guard_decide ::
  "('w \<Rightarrow> path_guard) \<Rightarrow> (path_guard \<Rightarrow> 'w \<Rightarrow> 'w) \<Rightarrow> 'w ctx \<Rightarrow> 'w verdict" where
  "guard_decide get put c =
     (case c of (req, res, w) \<Rightarrow>
        let (blocked, g) = guard_check req (get w) in
        if blocked then Stop (req, res_status 403 res, put g w) else Continue (req, res, put g w))"

interpretation guard_filter: filter_middleware "guard_toMiddleware get put" "guard_decide get put" for get put
  by unfold_locales (auto simp: guard_toMiddleware_def guard_decide_def Let_def split: prod.splits)

subsection \<open>What is blocked\<close>

definition guarded :: "path_guard \<Rightarrow> string \<Rightarrow> bool" where
  "guarded g path \<longleftrightarrow> path \<in> pg_exact g \<or> (\<exists>p \<in> set (pg_prefix g). prefix p path)
     \<or> (\<exists>e \<in> set (pg_exts g). suffix e path)"

lemma substr_prefix: "substr path 0 (length p) = p \<longleftrightarrow> prefix p path"
  by (auto simp: substr_def prefix_def) (metis append_take_drop_id)

lemma substr_suffix:
  "length path \<ge> length e \<and> substr path (length path - length e) (length e) = e \<longleftrightarrow> suffix e path"
proof -
  have "substr path (length path - length e) (length e) = drop (length path - length e) path"
    by (simp add: substr_def)
  then show ?thesis
    by (metis append_take_drop_id diff_le_self le_cases suffixI suffix_drop suffix_length_le suffix_take
      add_diff_cancel_left' append_eq_conv_conj length_append suffix_def)
qed

lemma guard_check_eq:
  "guard_check req g =
    (if rq_client_ip req \<in> pg_whitelist g then (False, g)
     else if rq_client_ip req \<in> pg_blacklist g then (True, g)
     else if guarded g (rq_path req) then (True, blacklist_ip (rq_client_ip req) g)
     else (False, g))"
  by (simp add: guard_check_def guarded_def isBlocked_def has_prefix_of_def has_ext_of_def
    list_ex_iff substr_prefix substr_suffix Let_def)

text \<open>A sequence of requests: what each one is told, and the lists at the end.\<close>

fun guard_run :: "request list \<Rightarrow> path_guard \<Rightarrow> bool list \<times> path_guard" where
  "guard_run [] g = ([], g)"
| "guard_run (r # rs) g =
     (let (b, g') = guard_check r g; (bs, g'') = guard_run rs g' in (b # bs, g''))"

definition offends :: "path_guard \<Rightarrow> string \<Rightarrow> request \<Rightarrow> bool" where
  "offends g ip r \<longleftrightarrow> rq_client_ip r = ip \<and> guarded g (rq_path r)"

lemma guard_check_lists:
  "guard_check r g = (b, g') \<Longrightarrow>
    guarded g' path = guarded g path \<and> pg_whitelist g' = pg_whitelist g
    \<and> (ip \<in> pg_blacklist g' \<longleftrightarrow> ip \<in> pg_blacklist g \<or> ip \<notin> pg_whitelist g \<and> offends g ip r)
    \<and> (b \<longleftrightarrow> rq_client_ip r \<notin> pg_whitelist g \<and> rq_client_ip r \<in> pg_blacklist g')"
  by (auto simp: guard_check_eq blacklist_ip_def guarded_def offends_def split: if_splits)

lemma guard_run_blocked:
  assumes "guard_run rs g = (bs, g')" and "i < length rs"
  shows "length bs = length rs \<and>
    (bs ! i \<longleftrightarrow> rq_client_ip (rs ! i) \<notin> pg_whitelist g \<and>
       (rq_client_ip (rs ! i) \<in> pg_blacklist g \<or> (\<exists>j \<le> i. offends g (rq_client_ip (rs ! i)) (rs ! j))))"
  using assms
proof (induction rs arbitrary: g bs i)
  case (Cons r rs)
  from Cons.prems obtain b h bs' where step: "guard_check r g = (b, h)" "guard_run rs h = (bs', g')"
    and bs: "bs = b # bs'" by (auto simp: Let_def split: prod.splits)
  note lists = guard_check_lists [OF step(1)]
  have same: "offends h ip r' = offends g ip r'" for ip r'
    using lists by (simp add: offends_def)
  have len: "length bs' = length rs"
    using Cons.IH [OF step(2)] step(2) by (cases rs) auto
  show ?case
  proof (cases i)
    case 0
    then show ?thesis using lists [of "rq_path r" "rq_client_ip r"] len by (auto simp: bs offends_def)
  next
    case (Suc k)
    have split: "(\<exists>j \<le> Suc k. P j) \<longleftrightarrow> P 0 \<or> (\<exists>j \<le> k. P (Suc j))" for P
      by (metis Suc_le_mono le0 not0_implies_Suc)
    show ?thesis
      using Cons.IH [OF step(2), of k] Cons.prems(2) lists [of "rq_path r" "rq_client_ip (rs ! k)"] len
      by (auto simp: Suc bs split same)
  qed
qed simp

subsection \<open>Properties\<close>

text \<open>The path guard blocks exactly the offenders, from their first offence on: in any
  sequence of requests, a request is blocked if and only if its client is not whitelisted and
  was blacklisted before or asked, now or earlier in the sequence, for a guarded path.\<close>

theorem path_guard_blocks_offenders:
  assumes "guard_run rs g = (bs, g')" and "i < length rs"
  shows "bs ! i \<longleftrightarrow> rq_client_ip (rs ! i) \<notin> pg_whitelist g \<and>
    (rq_client_ip (rs ! i) \<in> pg_blacklist g \<or>
     (\<exists>j \<le> i. rq_client_ip (rs ! j) = rq_client_ip (rs ! i) \<and> guarded g (rq_path (rs ! j))))"
  using guard_run_blocked [OF assms] by (simp add: offends_def)

theorem path_guard_blocks_offenders_witness:
  "fst (guard_run [empty_request\<lparr>rq_client_ip := ''1'', rq_path := ''/.env''\<rparr>,
     empty_request\<lparr>rq_client_ip := ''1'', rq_path := ''/''\<rparr>] new_path_guard) ! 1"
proof -
  let ?rs = "[empty_request\<lparr>rq_client_ip := ''1'', rq_path := ''/.env''\<rparr>,
    empty_request\<lparr>rq_client_ip := ''1'', rq_path := ''/''\<rparr>]"
  obtain bs g' where run: "guard_run ?rs new_path_guard = (bs, g')" by fastforce
  have "guarded new_path_guard (rq_path (?rs ! 0))" "rq_client_ip (?rs ! 1) \<notin> pg_whitelist new_path_guard"
    by (simp_all add: guarded_def new_path_guard_def)
  then have "bs ! 1"
    by (subst path_guard_blocks_offenders [OF run]) (auto intro!: exI [of _ 0])
  then show ?thesis by (simp only: run fst_conv)
qed

end
