(* ===== verification/Crypto.thy ===== *)
theory Crypto
  imports Numbers "HOL-Library.Word"
begin

unbundle bit_operations_syntax

section \<open>Hexadecimal and Base64 text\<close>

text \<open>
  Models \<^verbatim>\<open>src/util/crypto.cpp\<close>. Bytes are words of 8 bits, and the block of
  three bytes that Base64 splits is a word of 32. The hash functions and the random generator
  of OpenSSL are arguments.
\<close>

type_synonym byte = "8 word"

definition byte_char :: "byte \<Rightarrow> char" where
  "byte_char b = char_of (unat b)"

definition char_byte :: "char \<Rightarrow> byte" where
  "char_byte c = of_nat (ord c)"

lemma ord_bound: "ord c < 256"
  by (cases c) (simp add: horner_sum_simps of_bool_def)

lemma char_byte_char [simp]: "char_byte (byte_char b) = b"
proof -
  have "unat b mod 256 = unat b" using unsigned_less [of b, where ?'a = nat] by simp
  then show ?thesis by (simp add: char_byte_def byte_char_def)
qed

lemma byte_char_byte [simp]: "byte_char (char_byte c) = c"
proof -
  have "unat (of_nat (ord c) :: byte) = ord c"
    using ord_bound [of c] by (simp add: unat_of_nat)
  then show ?thesis by (simp add: char_byte_def byte_char_def)
qed

definition text_bytes :: "string \<Rightarrow> byte list" where
  "text_bytes s = map char_byte s"

subsection \<open>Hexadecimal\<close>

definition hex_digits :: string where
  "hex_digits = ''0123456789abcdef''"

definition hex_byte :: "byte \<Rightarrow> string" where
  "hex_byte b = [hex_digits ! (unat b div 16), hex_digits ! (unat b mod 16)]"

fun toHex :: "byte list \<Rightarrow> string" where
  "toHex [] = []"
| "toHex (b # bs) = hex_byte b @ toHex bs"

definition sha256 :: "(byte list \<Rightarrow> byte list) \<Rightarrow> string \<Rightarrow> string" where
  "sha256 SHA256 input = toHex (SHA256 (text_bytes input))"

definition hmac_sha256 :: "(byte list \<Rightarrow> byte list \<Rightarrow> byte list) \<Rightarrow> string \<Rightarrow> string \<Rightarrow> string" where
  "hmac_sha256 HMAC key message = toHex (HMAC (text_bytes key) (text_bytes message))"

text \<open>The buffer is filled with \<open>length\<close> random bytes.\<close>

definition random_hex :: "(nat \<Rightarrow> byte list) \<Rightarrow> nat \<Rightarrow> string" where
  "random_hex RAND_bytes len = toHex (RAND_bytes len)"

subsection \<open>Base64\<close>

definition base64_table :: string where
  "base64_table = ''ABCDEFGHIJKLMNOPQRSTUVWXYZabcdefghijklmnopqrstuvwxyz0123456789+/''"

definition sextet :: "32 word \<Rightarrow> nat \<Rightarrow> char" where
  "sextet triple k = base64_table ! unat (drop_bit k triple AND 0x3F)"

definition byte_at :: "byte list \<Rightarrow> nat \<Rightarrow> 32 word" where
  "byte_at data i = (if i < length data then ucast (data ! i) else 0)"

definition base64_block :: "byte list \<Rightarrow> nat \<Rightarrow> string" where
  "base64_block data i =
     (let triple = push_bit 16 (byte_at data i) OR push_bit 8 (byte_at data (i + 1)) OR byte_at data (i + 2)
      in [sextet triple 18, sextet triple 12, sextet triple 6, sextet triple 0])"

function base64_loop :: "byte list \<Rightarrow> nat \<Rightarrow> string \<Rightarrow> string" where
  "base64_loop data i result =
     (if i < length data then base64_loop data (i + 3) (result @ base64_block data i) else result)"
  by pat_completeness auto
termination
  by (relation "measure (\<lambda>(data, i, result). length data - i)") auto

declare base64_loop.simps [simp del]

definition base64_encode :: "byte list \<Rightarrow> string" where
  "base64_encode data =
     (let result = base64_loop data 0 []; n = length result in
      if length data mod 3 = 1 then (result[n - 2 := CHR ''=''])[n - 1 := CHR ''='']
      else if length data mod 3 = 2 then result[n - 1 := CHR ''='']
      else result)"

subsection \<open>Hexadecimal text is injective\<close>

lemma length_toHex [simp]: "length (toHex bs) = 2 * length bs"
  by (induction bs) (simp_all add: hex_byte_def)

lemma hex_digits_distinct: "distinct hex_digits" "length hex_digits = 16"
  by (simp_all add: hex_digits_def)

lemma byte_bound: "unat (b :: byte) < 256"
  using unsigned_less [of b, where ?'a = nat] by simp

lemma byte_hi_lo: "unat (b :: byte) div 16 < 16" "unat b mod 16 < 16"
  using byte_bound [of b] by auto

lemma set_toHex: "set (toHex bs) \<subseteq> set hex_digits"
  by (induction bs) (use byte_hi_lo hex_digits_distinct in \<open>auto simp: hex_byte_def\<close>)

lemma hex_byte_inject: "hex_byte a = hex_byte b \<longleftrightarrow> a = b"
proof
  assume "hex_byte a = hex_byte b"
  then have "unat a div 16 = unat b div 16" "unat a mod 16 = unat b mod 16"
    using byte_hi_lo [of a] byte_hi_lo [of b] hex_digits_distinct
    by (simp_all add: hex_byte_def nth_eq_iff_index_eq)
  then have "unat a = unat b" by (metis div_mult_mod_eq)
  then show "a = b" by (rule unsigned_word_eqI)
qed simp

lemma toHex_inject: "toHex as = toHex bs \<longleftrightarrow> as = bs"
proof (induction as arbitrary: bs)
  case Nil
  then show ?case by (cases bs) (simp_all add: hex_byte_def)
next
  case (Cons a as)
  have "hex_byte a @ xs = hex_byte b @ ys \<longleftrightarrow> hex_byte a = hex_byte b \<and> xs = ys" for b xs ys
    by (simp add: hex_byte_def)
  with Cons show ?case by (cases bs) (simp_all add: hex_byte_inject, simp add: hex_byte_def)
qed


subsection \<open>The block of three bytes\<close>

lemma or_bytes:
  assumes "x < 256" "y < 256" "z < (256 :: nat)"
  shows "push_bit 16 x OR push_bit 8 y OR z = x * 65536 + y * 256 + z"
proof -
  have t: "take_bit 8 x = x" "take_bit 8 y = y" "take_bit 8 z = z"
    using assms by (simp_all add: take_bit_eq_mod)
  have "push_bit 8 (take_bit 8 y) AND take_bit 8 z = 0"
    by (auto simp: bit_eq_iff bit_simps)
  then have yz: "push_bit 8 y OR z = push_bit 8 y + z"
    unfolding t by (rule disjunctive_add_eq_or [symmetric])
  have "push_bit 16 (take_bit 8 x) AND (push_bit 8 (take_bit 8 y) OR take_bit 8 z) = 0"
    by (auto simp: bit_eq_iff bit_simps)
  then have "push_bit 16 x OR (push_bit 8 y OR z) = push_bit 16 x + (push_bit 8 y OR z)"
    unfolding t by (rule disjunctive_add_eq_or [symmetric])
  with yz show ?thesis by (simp add: or.assoc push_bit_eq_mult)
qed

lemma unat_triple:
  "unat (push_bit 16 (ucast (a :: byte)) OR push_bit 8 (ucast (b :: byte)) OR (ucast (c :: byte) :: 32 word))
    = unat a * 65536 + unat b * 256 + unat c"
proof -
  have "unat (push_bit k (ucast x :: 32 word)) = push_bit k (unat x)" if "k \<le> 16" for k and x :: byte
  proof -
    have "push_bit k (unat x) < 2 ^ 32"
    proof -
      have "unat x * 2 ^ k < 2 ^ 8 * 2 ^ 16"
        using byte_bound [of x] power_increasing [OF that, of "2 :: nat"] by (intro mult_less_le_imp_less) simp_all
      then show ?thesis by (simp add: push_bit_eq_mult)
    qed
    moreover have "take_bit 32 (unat x) = unat x"
      using byte_bound [of x] by (simp add: take_bit_eq_mod)
    ultimately show ?thesis
      by (simp add: unsigned_push_bit_eq unsigned_ucast_eq take_bit_nat_eq_self)
  qed
  from this [of 16 a] this [of 8 b] this [of 0 c] show ?thesis
    using or_bytes [OF byte_bound byte_bound byte_bound, of a b c] by (simp add: unsigned_or_eq)
qed

text \<open>The four digits of a block, as numbers.\<close>

lemma sextet_nat: "sextet w k = base64_table ! (unat w div 2 ^ k mod 64)"
proof -
  have "drop_bit k w AND 63 = take_bit 6 (drop_bit k w)"
    by (simp add: take_bit_eq_mask mask_eq_exp_minus_1)
  then have "unat (drop_bit k w AND 63) = take_bit 6 (unat (drop_bit k w))"
    by (simp only: unsigned_take_bit_eq)
  moreover have "unat (drop_bit k w) = unat w div 2 ^ k"
    using unsigned_less [of w, where ?'a = nat]
    by (simp only: unsigned_drop_bit_eq take_bit_nat_eq_self) (simp add: drop_bit_eq_div take_bit_nat_eq_self)
  ultimately show ?thesis
    by (simp only: sextet_def take_bit_eq_mod) simp
qed

lemma mod_shifted: "t < k \<Longrightarrow> (x * k + t) mod (k * m) = x mod m * k + (t :: nat)"
  by (simp add: mod_mult2_eq)

lemma split_triple:
  assumes "x < 256" "y < 256" "z < (256 :: nat)"
  shows "(x * 65536 + y * 256 + z) div 2 ^ 18 mod 64 = x div 4"
    and "(x * 65536 + y * 256 + z) div 2 ^ 12 mod 64 = x mod 4 * 16 + y div 16"
    and "(x * 65536 + y * 256 + z) div 2 ^ 6 mod 64 = y mod 16 * 4 + z div 64"
    and "(x * 65536 + y * 256 + z) mod 64 = z mod 64"
proof -
  let ?n = "x * 65536 + y * 256 + z"
  have n: "?n div 65536 = x" "?n div 256 = x * 256 + y"
    using assms by simp_all
  have "?n div 2 ^ 18 = x div 4" using div_mult2_eq [of ?n 65536 4] n by simp
  then show "?n div 2 ^ 18 mod 64 = x div 4" using assms by simp
  have "?n div 2 ^ 12 = (x * 256 + y) div 16" using div_mult2_eq [of ?n 256 16] n by simp
  moreover have "(x * 256 + y) div 16 = x * 16 + y div 16"
    using div_mult_self3 [of 16 "x * 16" y] by simp
  moreover have "(x * 16 + y div 16) mod 64 = x mod 4 * 16 + y div 16"
    using mod_shifted [of "y div 16" 16 x 4] assms by simp
  ultimately show "?n div 2 ^ 12 mod 64 = x mod 4 * 16 + y div 16" by simp
  have "?n = (x * 256 + y) * 4 * 64 + z" by simp
  then have "?n div 2 ^ 6 = (x * 256 + y) * 4 + z div 64"
    by (simp only: div_mult_self3) simp
  moreover have "(x * 16 * 16 + y) mod 16 = y mod 16" by (rule mod_mult_self3)
  then have "(x * 256 + y) mod 16 = y mod 16" by (simp add: mult.assoc)
  then have "((x * 256 + y) * 4 + z div 64) mod 64 = y mod 16 * 4 + z div 64"
    using mod_shifted [of "z div 64" 4 "x * 256 + y" 16] assms by simp
  ultimately show "?n div 2 ^ 6 mod 64 = y mod 16 * 4 + z div 64" by (simp only:)
  have "?n = (x * 1024 + y * 4) * 64 + z" by simp
  then show "?n mod 64 = z mod 64" by (metis mod_mult_self3)
qed

definition block :: "byte \<Rightarrow> byte \<Rightarrow> byte \<Rightarrow> string" where
  "block a b c = map (\<lambda>n. base64_table ! n)
     [unat a div 4, unat a mod 4 * 16 + unat b div 16, unat b mod 16 * 4 + unat c div 64, unat c mod 64]"

lemma base64_block:
  assumes "byte_at data i = ucast a" "byte_at data (i + 1) = ucast b" "byte_at data (i + 2) = ucast c"
  shows "base64_block data i = block a b c"
proof -
  have "sextet (push_bit 16 (ucast a) OR push_bit 8 (ucast b) OR ucast c) k
      = base64_table ! ((unat a * 65536 + unat b * 256 + unat c) div 2 ^ k mod 64)" for k
    by (simp add: sextet_nat unat_triple)
  note this [of 18] this [of 12] this [of 6] this [of 0]
  then show ?thesis
    unfolding base64_block_def Let_def assms block_def
    by (simp add: split_triple byte_bound del: power_numeral)
qed

subsection \<open>The reference encoder and the decoder\<close>

fun base64_spec :: "byte list \<Rightarrow> string" where
  "base64_spec (a # b # c # bs) = block a b c @ base64_spec bs"
| "base64_spec [a, b] = take 3 (block a b 0) @ ''=''"
| "base64_spec [a] = take 2 (block a 0 0) @ ''==''"
| "base64_spec [] = []"

text \<open>The value of a digit, by its place in the table.\<close>

fun position :: "char \<Rightarrow> string \<Rightarrow> nat" where
  "position c [] = 0"
| "position c (x # xs) = (if x = c then 0 else Suc (position c xs))"

definition sextet_val :: "char \<Rightarrow> nat" where
  "sextet_val c = position c base64_table"

definition to_byte :: "nat \<Rightarrow> byte" where
  "to_byte n = of_nat n"

lemma to_byte_unat [simp]: "to_byte (unat b) = b"
  by (simp add: to_byte_def)

fun base64_decode :: "string \<Rightarrow> byte list" where
  "base64_decode (p # q # r # s # t) =
     (if r = CHR ''='' then [to_byte (sextet_val p * 4 + sextet_val q div 16)]
      else if s = CHR ''='' then
        [to_byte (sextet_val p * 4 + sextet_val q div 16),
         to_byte (sextet_val q mod 16 * 16 + sextet_val r div 4)]
      else
        [to_byte (sextet_val p * 4 + sextet_val q div 16),
         to_byte (sextet_val q mod 16 * 16 + sextet_val r div 4),
         to_byte (sextet_val r mod 4 * 64 + sextet_val s)] @ base64_decode t)"
| "base64_decode _ = []"

lemma length_block [simp]: "length (block a b c) = 4"
  by (simp add: block_def)

text \<open>The loop encodes the data padded with zero bytes to whole blocks.\<close>

fun padded :: "byte list \<Rightarrow> byte list" where
  "padded (a # b # c # bs) = a # b # c # padded bs"
| "padded [a, b] = [a, b, 0]"
| "padded [a] = [a, 0, 0]"
| "padded [] = []"

lemma base64_block_drop: "base64_block data i = base64_block (drop i data) 0"
proof -
  have "byte_at data (i + k) = byte_at (drop i data) k" for k
    by (auto simp: byte_at_def)
  from this [of 0] this [of 1] this [of 2] show ?thesis by (simp add: base64_block_def numeral_2_eq_2)
qed

lemma base64_spec_padded:
  "bs \<noteq> [] \<Longrightarrow> base64_spec (padded bs) = base64_block bs 0 @ base64_spec (padded (drop 3 bs))"
proof (cases bs rule: base64_spec.cases)
  case (1 a b c ts)
  have "base64_block bs 0 = block a b c"
    by (rule base64_block) (simp_all add: byte_at_def 1)
  then show ?thesis by (simp add: 1)
next
  case (2 a b)
  have "base64_block bs 0 = block a b 0"
    by (rule base64_block) (simp_all add: byte_at_def 2)
  then show ?thesis by (simp add: 2)
next
  case (3 a)
  have "base64_block bs 0 = block a 0 0"
    by (rule base64_block) (simp_all add: byte_at_def 3)
  then show ?thesis by (simp add: 3)
qed simp

lemma base64_loop_spec: "base64_loop data i result = result @ base64_spec (padded (drop i data))"
proof (induction data i result rule: base64_loop.induct)
  case (1 data i result)
  show ?case
  proof (cases "i < length data")
    case True
    then have "base64_spec (padded (drop i data)) = base64_block data i @ base64_spec (padded (drop (i + 3) data))"
      using base64_spec_padded [of "drop i data"] base64_block_drop [of data i] by (simp add: add.commute)
    with 1 True show ?thesis by (simp add: base64_loop.simps [of data i])
  qed (simp add: base64_loop.simps [of data i])
qed

lemma length_base64_spec_padded: "length (base64_spec (padded bs)) = 4 * ((length bs + 2) div 3)"
proof (induction bs rule: base64_spec.induct)
  case (1 a b c bs)
  have "(length (a # b # c # bs) + 2) div 3 = (length bs + 2) div 3 + 1" by simp
  with 1 show ?case by simp
qed simp_all

text \<open>Overwriting the last characters gives the padded form of the standard.\<close>

lemma base64_encode_spec: "base64_encode bs = base64_spec bs"
proof (induction bs rule: base64_spec.induct)
  case (1 a b c bs)
  define t where "t = base64_spec (padded bs)"
  have t: "base64_loop (a # b # c # bs) 0 [] = block a b c @ t" "base64_loop bs 0 [] = t"
    by (simp_all add: base64_loop_spec t_def)
  have "length t = 4 * ((length bs + 2) div 3)" by (simp add: t_def length_base64_spec_padded)
  then have "length bs mod 3 \<noteq> 0 \<Longrightarrow> 4 \<le> length t" by (cases bs) auto
  moreover have "length (a # b # c # bs) mod 3 = length bs mod 3" by simp
  ultimately show ?case
    using 1 by (auto simp: base64_encode_def Let_def t list_update_append)
next
  case (2 a b)
  then show ?case
    by (simp add: base64_encode_def Let_def base64_loop_spec block_def)
next
  case (3 a)
  then show ?case
    by (simp add: base64_encode_def Let_def base64_loop_spec block_def)
next
  case 4
  then show ?case by (simp add: base64_encode_def base64_loop_spec)
qed

subsection \<open>Decoding\<close>

lemma position_nth: "distinct xs \<Longrightarrow> n < length xs \<Longrightarrow> position (xs ! n) xs = n"
proof (induction xs arbitrary: n)
  case (Cons x xs)
  then show ?case by (cases n) auto
qed simp

lemma base64_table_props: "distinct base64_table" "length base64_table = 64" "CHR ''='' \<notin> set base64_table"
  by (simp_all add: base64_table_def)

lemma sextet_val_nth [simp]: "n < 64 \<Longrightarrow> sextet_val (base64_table ! n) = n"
  by (simp add: sextet_val_def position_nth base64_table_props)

lemma nth_not_pad [simp]: "n < 64 \<Longrightarrow> base64_table ! n \<noteq> CHR ''=''"
  using base64_table_props nth_mem by metis

lemma sextets_bounds:
  "unat (a :: byte) div 4 < 64" "unat a mod 4 * 16 + unat (b :: byte) div 16 < 64"
  "unat b mod 16 * 4 + unat (c :: byte) div 64 < 64" "unat c mod 64 < 64"
proof -
  have "x div 4 < 64" "x mod 4 * 16 + y div 16 < 64" "y mod 16 * 4 + z div 64 < 64"
    if "x < 256" "y < 256" "z < 256" for x y z :: nat
  proof -
    have "y div 16 < 16" "z div 64 < 4" "x mod 4 < 4" "y mod 16 < 16" using that by auto
    then show "x div 4 < 64" "x mod 4 * 16 + y div 16 < 64" "y mod 16 * 4 + z div 64 < 64"
      using that by auto
  qed
  from this [OF byte_bound byte_bound byte_bound]
  show "unat a div 4 < 64" "unat a mod 4 * 16 + unat b div 16 < 64"
    "unat b mod 16 * 4 + unat c div 64 < 64" by blast+
qed simp

lemma bytes_of_sextets:
  assumes "x < 256" "y < 256" "z < (256 :: nat)"
  shows "x div 4 * 4 + (x mod 4 * 16 + y div 16) div 16 = x"
    and "(x mod 4 * 16 + y div 16) mod 16 * 16 + (y mod 16 * 4 + z div 64) div 4 = y"
    and "(y mod 16 * 4 + z div 64) mod 4 * 64 + z mod 64 = z"
proof -
  have small: "y div 16 < 16" "z div 64 < 4" using assms by auto
  then have "(x mod 4 * 16 + y div 16) div 16 = x mod 4" "(x mod 4 * 16 + y div 16) mod 16 = y div 16"
    "(y mod 16 * 4 + z div 64) div 4 = y mod 16" "(y mod 16 * 4 + z div 64) mod 4 = z div 64"
    by simp_all
  then show "x div 4 * 4 + (x mod 4 * 16 + y div 16) div 16 = x"
    "(x mod 4 * 16 + y div 16) mod 16 * 16 + (y mod 16 * 4 + z div 64) div 4 = y"
    "(y mod 16 * 4 + z div 64) mod 4 * 64 + z mod 64 = z"
    by (simp_all only: div_mult_mod_eq)
qed

lemma decode_block:
  "base64_decode (block a b c @ t) = [a, b, c] @ base64_decode t"
  "base64_decode (take 3 (block a b c) @ ''='') =
    [a, to_byte ((unat a mod 4 * 16 + unat b div 16) mod 16 * 16 + (unat b mod 16 * 4 + unat c div 64) div 4)]"
  "base64_decode (take 2 (block a b c) @ ''=='') = [a]"
  by (simp_all add: block_def sextets_bounds bytes_of_sextets [OF byte_bound byte_bound byte_bound] del: div_mult_mod_eq mod_mult_self3 div_mult_self3)

lemma base64_decode_spec: "base64_decode (base64_spec bs) = bs"
proof (induction bs rule: base64_spec.induct)
  case (2 a b)
  have "(unat a mod 4 * 16 + unat b div 16) mod 16 * 16 + (unat b mod 16 * 4 + unat (0 :: byte) div 64) div 4 = unat b"
    using bytes_of_sextets(2) [OF byte_bound [of a] byte_bound [of b], of 0] by simp
  then show ?case by (simp only: base64_spec.simps decode_block) simp
qed (simp_all only: base64_spec.simps decode_block, simp_all)

interpretation base64: codec base64_encode base64_decode
  by unfold_locales (simp add: base64_encode_spec base64_decode_spec)

subsection \<open>Properties\<close>

text \<open>Base64 encoding agrees with its specification: it is the padded block encoding of the
  standard, every character comes from the alphabet or is padding, and decoding gives the bytes
  back, so two inputs never share an encoding.\<close>

theorem base64_roundtrip:
  "base64_encode bs = base64_spec bs \<and> base64_decode (base64_encode bs) = bs
   \<and> (base64_encode bs = base64_encode cs \<longleftrightarrow> bs = cs)"
  using base64.dec_enc base64.enc_inject by (simp add: base64_encode_spec)

end
