(* ===== verification/Session.thy ===== *)
theory Session
  imports Middleware Crypto
begin

section \<open>Sessions\<close>

text \<open>
  Models \<^verbatim>\<open>src/security/session.cpp\<close> and
  \<^verbatim>\<open>include/ynet/security/session_data.h\<close>. The storage maps identifiers to shared
  session objects, which requests point to; the objects are a store indexed by addresses, handed
  out in order, so that what a handler writes through its request's pointer is what the next
  request of the session reads. The clock is read at three places of the middleware, and the
  random generator once. The two phases under the two locks are one
  step here; \<open>Session_Threads\<close> takes them apart and shows when concurrent requests still take
  effect as such steps.
\<close>

record session_data =
  sd_expires :: int
  sd_data :: "string \<rightharpoonup> string"
  sd_id :: string

record sessions =
  ss_storage :: "string \<rightharpoonup> nat"
  ss_objs :: "nat \<Rightarrow> session_data"
  ss_next :: nat

record session_env =
  se_check :: int
  se_touch :: int
  se_create :: int
  se_random :: "nat \<Rightarrow> byte list"

definition empty_session :: session_data where
  "empty_session = \<lparr>sd_expires = 0, sd_data = Map.empty, sd_id = []\<rparr>"

definition no_sessions :: sessions where
  "no_sessions = \<lparr>ss_storage = Map.empty, ss_objs = (\<lambda>a. empty_session), ss_next = 0\<rparr>"

definition session_get :: "string \<Rightarrow> session_data \<Rightarrow> string option" where
  "session_get key d = sd_data d key"

definition session_set :: "string \<Rightarrow> string \<Rightarrow> session_data \<Rightarrow> session_data" where
  "session_set key val d = d\<lparr>sd_data := (sd_data d)(key \<mapsto> val)\<rparr>"

text \<open>The access through the pointer of a request, which is null without the middleware.\<close>

definition update_session :: "nat option \<Rightarrow> (session_data \<Rightarrow> session_data) \<Rightarrow> sessions \<Rightarrow> sessions result" where
  "update_session p f s =
     (case p of
        None \<Rightarrow> Inl Undefined_behaviour
      | Some a \<Rightarrow> Inr (s\<lparr>ss_objs := (ss_objs s)(a := f (ss_objs s a))\<rparr>))"

definition read_session :: "nat option \<Rightarrow> sessions \<Rightarrow> session_data result" where
  "read_session p s = (case p of None \<Rightarrow> Inl Undefined_behaviour | Some a \<Rightarrow> Inr (ss_objs s a))"

subsection \<open>The cookie\<close>

definition strip_left :: "string \<Rightarrow> string" where
  "strip_left s = (case find_first_not_of s '' '' 0 of None \<Rightarrow> [] | Some k \<Rightarrow> drop k s)"

definition strip_right :: "string \<Rightarrow> string" where
  "strip_right s = (case find_last_not_of s '' '' of None \<Rightarrow> [] | Some k \<Rightarrow> take (k + 1) s)"

definition valid_id :: "string \<Rightarrow> bool" where
  "valid_id v \<longleftrightarrow> length v = 64 \<and> find_first_not_of v hex_digits 0 = None"

text \<open>One \<open>key=value\<close> of the header, when it is the session cookie.\<close>

definition session_cookie :: "string \<Rightarrow> string \<Rightarrow> string option" where
  "session_cookie cookie_name token =
     (case find_from token [CHR ''=''] 0 of
        None \<Rightarrow> None
      | Some eq \<Rightarrow>
          let key = strip_left (substr token 0 eq);
              val = strip_right (strip_left (drop (eq + 1) token))
          in if key = cookie_name then Some val else None)"

function cookie_loop :: "string \<Rightarrow> string \<Rightarrow> nat \<Rightarrow> string option" where
  "cookie_loop cookie_name header i =
     (if i < length header then
        let semi = (case find_from header [CHR '';''] i of None \<Rightarrow> length header | Some k \<Rightarrow> k);
            token = substr header i (semi - i)
        in (case session_cookie cookie_name token of
              None \<Rightarrow> cookie_loop cookie_name header (semi + 1)
            | Some v \<Rightarrow> if valid_id v then Some v else None)
      else None)"
  by pat_completeness auto
termination
  by (relation "measure (\<lambda>(n, header, i). length header - i)")
    (auto split: option.splits dest: find_from_char_less)

declare cookie_loop.simps [simp del]

definition session_id :: "string \<Rightarrow> request \<Rightarrow> string option" where
  "session_id cookie_name req =
     (case getHeader req ''Cookie'' of None \<Rightarrow> None | Some header \<Rightarrow> cookie_loop cookie_name header 0)"

subsection \<open>The middleware\<close>

definition set_cookie :: "string \<Rightarrow> string \<Rightarrow> string \<Rightarrow> string" where
  "set_cookie cookie_name ident flags = cookie_name @ ''='' @ ident @ ''; '' @ flags"

definition create_session ::
  "int \<Rightarrow> string \<Rightarrow> string \<Rightarrow> session_env \<Rightarrow> request \<times> response \<times> sessions \<Rightarrow> request \<times> response \<times> sessions" where
  "create_session ttl cookie_name flags env c =
     (case c of (req, res, s) \<Rightarrow>
        let ident = random_hex (se_random env) 32;
            sd = \<lparr>sd_expires = se_create env + ttl, sd_data = Map.empty, sd_id = ident\<rparr>;
            a = ss_next s
        in (req\<lparr>rq_session := Some a\<rparr>,
            res_header ''Set-Cookie'' (set_cookie cookie_name ident flags) res,
            s\<lparr>ss_storage := (ss_storage s)(ident \<mapsto> a), ss_objs := (ss_objs s)(a := sd), ss_next := a + 1\<rparr>))"

text \<open>The lookup under the shared lock: the address of a session that has not expired.\<close>

definition find_session :: "string option \<Rightarrow> session_env \<Rightarrow> sessions \<Rightarrow> nat option" where
  "find_session sid env s =
     (case sid of
        None \<Rightarrow> None
      | Some ident \<Rightarrow>
          (case ss_storage s ident of
             None \<Rightarrow> None
           | Some a \<Rightarrow> if sd_expires (ss_objs s a) > se_check env then Some a else None))"

definition session_step ::
  "int \<Rightarrow> string \<Rightarrow> string \<Rightarrow> session_env \<Rightarrow> request \<times> response \<times> sessions \<Rightarrow> request \<times> response \<times> sessions" where
  "session_step ttl cookie_name flags env c =
     (case c of (req, res, s) \<Rightarrow>
        let sid = session_id cookie_name req in
        (case find_session sid env s of
           Some a \<Rightarrow>
             (req\<lparr>rq_session := Some a\<rparr>, res,
              s\<lparr>ss_objs := (ss_objs s)(a := (ss_objs s a)\<lparr>sd_expires := se_touch env + ttl\<rparr>)\<rparr>)
         | None \<Rightarrow>
             let s' = (case sid of None \<Rightarrow> s
                       | Some ident \<Rightarrow> s\<lparr>ss_storage := (ss_storage s)(ident := None)\<rparr>)
             in create_session ttl cookie_name flags env (req, res, s')))"

definition Session ::
  "('w \<Rightarrow> sessions) \<Rightarrow> (sessions \<Rightarrow> 'w \<Rightarrow> 'w) \<Rightarrow> ('w \<Rightarrow> session_env) \<Rightarrow> int \<Rightarrow> string \<Rightarrow> string \<Rightarrow> 'w middleware" where
  "Session get put env ttl cookie_name flags c nxt =
     (case c of (req, res, w) \<Rightarrow>
        (case session_step ttl cookie_name flags (env w) (req, res, get w) of
           (req', res', s') \<Rightarrow> nxt (req', res', put s' w)))"

definition session_decide ::
  "('w \<Rightarrow> sessions) \<Rightarrow> (sessions \<Rightarrow> 'w \<Rightarrow> 'w) \<Rightarrow> ('w \<Rightarrow> session_env) \<Rightarrow> int \<Rightarrow> string \<Rightarrow> string \<Rightarrow> 'w ctx \<Rightarrow> 'w verdict" where
  "session_decide get put env ttl cookie_name flags c =
     (case c of (req, res, w) \<Rightarrow>
        (case session_step ttl cookie_name flags (env w) (req, res, get w) of
           (req', res', s') \<Rightarrow> Continue (req', res', put s' w)))"

interpretation session_filter: filter_middleware
  "Session get put env ttl cookie_name flags" "session_decide get put env ttl cookie_name flags"
  for get put env ttl cookie_name flags
  by unfold_locales (auto simp: Session_def session_decide_def split: prod.splits)

text \<open>One round of the cleanup thread, which wakes up at least once a minute.\<close>

definition session_cleanup :: "int \<Rightarrow> sessions \<Rightarrow> sessions" where
  "session_cleanup now s =
     s\<lparr>ss_storage := (\<lambda>ident. case ss_storage s ident of
        None \<Rightarrow> None | Some a \<Rightarrow> if sd_expires (ss_objs s a) \<le> now then None else Some a)\<rparr>"

subsection \<open>The cookie loop\<close>

fun first_cookie :: "string \<Rightarrow> string list \<Rightarrow> string option" where
  "first_cookie cookie_name [] = None"
| "first_cookie cookie_name (t # ts) =
     (case session_cookie cookie_name t of
        None \<Rightarrow> first_cookie cookie_name ts | Some v \<Rightarrow> if valid_id v then Some v else None)"

lemma cookie_loop_pieces:
  "cookie_loop cookie_name header i = first_cookie cookie_name (pieces (CHR '';'') (drop i header))"
proof (induction cookie_name header i rule: cookie_loop.induct)
  case (1 cookie_name header i)
  show ?case
  proof (cases "i < length header")
    case True
    show ?thesis
    proof (cases "find_from header [CHR '';''] i")
      case None
      with "1.IH" [OF True refl refl] True find_from_pieces_None [OF True None] show ?thesis
        by (simp add: cookie_loop.simps [of cookie_name header i] substr_def split: option.split)
    next
      case (Some k)
      with "1.IH" [OF True refl refl] True find_from_pieces_Some [OF Some] show ?thesis
        by (simp add: cookie_loop.simps [of cookie_name header i] split: option.split)
    qed
  qed (simp add: cookie_loop.simps [of cookie_name header i])
qed

lemma valid_id_iff: "valid_id v \<longleftrightarrow> length v = 64 \<and> set v \<subseteq> set hex_digits"
  by (auto simp: valid_id_def find_first_not_of_0_None)

lemma strip_id:
  assumes "CHR '' '' \<notin> set v"
  shows "strip_left v = v" and "strip_right v = v"
proof -
  have "takeWhile (\<lambda>c. c = CHR '' '') w = []" if "set w = set v" for w
    using assms that by (cases w) auto
  from this [of v] this [of "rev v"] show "strip_left v = v" "strip_right v = v"
    by (cases "v = []"; simp add: strip_left_def strip_right_def find_first_not_of_def find_last_not_of_def Let_def)+
qed

text \<open>The header a browser sends: the cookies it holds, in some order.\<close>

fun cookie_header :: "(string \<times> string) list \<Rightarrow> string" where
  "cookie_header [] = []"
| "cookie_header [kv] = fst kv @ ''='' @ snd kv"
| "cookie_header (kv # kvs) = fst kv @ ''='' @ snd kv @ ''; '' @ cookie_header kvs"

definition cookie_ok :: "string \<times> string \<Rightarrow> bool" where
  "cookie_ok kv \<longleftrightarrow> {CHR '' '', CHR '';'', CHR ''=''} \<inter> set (fst kv) = {}
     \<and> {CHR '' '', CHR '';''} \<inter> set (snd kv) = {}"

lemma strip_left_space: "strip_left (CHR '' '' # v) = strip_left v"
  by (simp add: strip_left_def find_first_not_of_def Let_def)

lemma session_cookie_pair:
  assumes "cookie_ok kv" and "pre = [] \<or> pre = '' ''"
  shows "session_cookie n (pre @ fst kv @ ''='' @ snd kv) = (if fst kv = n then Some (snd kv) else None)"
proof -
  let ?token = "(pre @ fst kv) @ CHR ''='' # snd kv"
  have "find_from ?token [CHR ''=''] 0 = Some (length (pre @ fst kv))"
    using assms by (simp only: find_from_0) (rule find_sub_char_append, auto simp: cookie_ok_def)
  moreover have "substr ?token 0 (length (pre @ fst kv)) = pre @ fst kv" by (simp add: substr_def)
  moreover have "drop (length (pre @ fst kv) + 1) ?token = snd kv" by simp
  moreover have "strip_left (pre @ fst kv) = fst kv" "strip_left (snd kv) = snd kv" "strip_right (snd kv) = snd kv"
    using assms by (auto simp: cookie_ok_def strip_left_space intro: strip_id)
  ultimately have "session_cookie n ?token = (if fst kv = n then Some (snd kv) else None)"
    by (simp add: session_cookie_def del: find_from_0)
  then show ?thesis by simp
qed

lemma first_cookie_header:
  assumes "\<forall>kv \<in> set kvs. cookie_ok kv" and "pre = [] \<or> pre = '' ''" and "kvs \<noteq> []"
  shows "first_cookie n (pieces (CHR '';'') (pre @ cookie_header kvs)) =
    (case map_of kvs n of None \<Rightarrow> None | Some v \<Rightarrow> if valid_id v then Some v else None)"
  using assms
proof (induction kvs arbitrary: pre rule: cookie_header.induct)
  case (2 kv)
  have "CHR '';'' \<notin> set (pre @ fst kv @ ''='' @ snd kv)" using "2.prems" by (auto simp: cookie_ok_def)
  then have "pieces (CHR '';'') (pre @ cookie_header [kv]) = [pre @ fst kv @ ''='' @ snd kv]"
    by (simp add: pieces_notin)
  then show ?case
    using "2.prems" session_cookie_pair [of kv pre n] by (simp split: option.split)
next
  case (3 kv kv' kvs)
  have "CHR '';'' \<notin> set (pre @ fst kv @ ''='' @ snd kv)" using "3.prems" by (auto simp: cookie_ok_def)
  from pieces_append [OF this, of "'' '' @ cookie_header (kv' # kvs)"]
  have "pieces (CHR '';'') (pre @ cookie_header (kv # kv' # kvs))
      = (pre @ fst kv @ ''='' @ snd kv) # pieces (CHR '';'') ('' '' @ cookie_header (kv' # kvs))"
    by simp
  then show ?case
    using "3.prems" "3.IH" [of "'' ''"] session_cookie_pair [of kv pre n] by (simp split: option.split)
qed simp

lemma session_id_header:
  assumes "getHeader req ''Cookie'' = Some (cookie_header kvs)" and "\<forall>kv \<in> set kvs. cookie_ok kv"
    and "map_of kvs n = Some v" and "valid_id v"
  shows "session_id n req = Some v"
proof -
  have "kvs \<noteq> []" using assms(3) by auto
  with first_cookie_header [OF assms(2), of "[]" n] show ?thesis
    by (simp add: session_id_def assms cookie_loop_pieces)
qed

subsection \<open>Reachable states\<close>

text \<open>
  The steps that change the sessions: a request passing the middleware, a handler writing
  through the pointer it was given, and the cleanup.
\<close>

inductive sessions_step :: "sessions \<Rightarrow> sessions \<Rightarrow> bool" where
  request: "length (se_random env 32) = 32 \<Longrightarrow>
    session_step ttl cookie_name flags env (req, res, s) = (req', res', s') \<Longrightarrow> sessions_step s s'"
| handler: "update_session (Some a) (session_set key val) s = Inr s' \<Longrightarrow> sessions_step s s'"
| cleanup: "sessions_step s (session_cleanup now s)"

definition sessions_ok :: "sessions \<Rightarrow> bool" where
  "sessions_ok s \<longleftrightarrow> (\<forall>i a. ss_storage s i = Some a \<longrightarrow>
     a < ss_next s \<and> sd_id (ss_objs s a) = i \<and> valid_id i)"

lemma random_id_valid: "length (r 32) = 32 \<Longrightarrow> valid_id (random_hex r 32)"
  using set_toHex by (auto simp: valid_id_iff random_hex_def)

lemma session_step_cases:
  assumes "session_step ttl n flags env (req, res, s) = (req', res', s')"
  obtains (found) i a where "session_id n req = Some i" "ss_storage s i = Some a"
      "se_check env < sd_expires (ss_objs s a)" "find_session (session_id n req) env s = Some a"
      "req' = req\<lparr>rq_session := Some a\<rparr>" "res' = res"
      "s' = s\<lparr>ss_objs := (ss_objs s)(a := (ss_objs s a)\<lparr>sd_expires := se_touch env + ttl\<rparr>)\<rparr>"
  | (fresh) st where "find_session (session_id n req) env s = None"
      "st = (case session_id n req of None \<Rightarrow> ss_storage s | Some i \<Rightarrow> (ss_storage s)(i := None))"
      "req' = req\<lparr>rq_session := Some (ss_next s)\<rparr>"
      "res' = res_header ''Set-Cookie'' (set_cookie n (random_hex (se_random env) 32) flags) res"
      "s' = \<lparr>ss_storage = st(random_hex (se_random env) 32 \<mapsto> ss_next s),
             ss_objs = (ss_objs s)(ss_next s := \<lparr>sd_expires = se_create env + ttl, sd_data = Map.empty,
               sd_id = random_hex (se_random env) 32\<rparr>), ss_next = ss_next s + 1\<rparr>"
proof (cases "find_session (session_id n req) env s")
  case None
  with assms show ?thesis
    by (cases s) (auto simp: session_step_def create_session_def Let_def intro!: fresh split: option.splits)
next
  case (Some a)
  then obtain i where "session_id n req = Some i" "ss_storage s i = Some a"
    "se_check env < sd_expires (ss_objs s a)"
    by (auto simp: find_session_def split: option.splits if_splits)
  with assms Some show ?thesis
    by (intro found [of i a]) (auto simp: session_step_def)
qed

lemma sessions_ok_step: "sessions_step s s' \<Longrightarrow> sessions_ok s \<Longrightarrow> sessions_ok s'"
proof (induction rule: sessions_step.induct)
  case (request env ttl n flags req res s req' res' s')
  from request(2) show ?case
  proof (cases rule: session_step_cases)
    case (found i a)
    with request(3) show ?thesis by (auto simp: sessions_ok_def)
  next
    case (fresh st)
    have st: "st i = Some a \<Longrightarrow> ss_storage s i = Some a" for i a
      using fresh(2) by (auto split: option.splits if_splits)
    have "a < ss_next s \<and> sd_id (ss_objs s a) = i \<and> valid_id i" if "st i = Some a" for i a
      using request(3) st [OF that] by (simp add: sessions_ok_def)
    then show ?thesis
      using random_id_valid [of "se_random env"] request(1)
      by (fastforce simp: sessions_ok_def fresh(5))
  qed
next
  case (handler a key val s s')
  then show ?case by (auto simp: sessions_ok_def update_session_def session_set_def)
next
  case (cleanup s now)
  then show ?case by (auto simp: sessions_ok_def session_cleanup_def split: option.splits if_splits)
qed

interpretation storage: transition_system sessions_step no_sessions sessions_ok
  by unfold_locales (simp add: sessions_ok_def no_sessions_def, rule sessions_ok_step)

lemmas sessions_ok_reachable = storage.inv_reachable

subsection \<open>Properties\<close>

text \<open>Sessions are isolated: in every state that requests, handlers and the cleanup can
  reach, two identifiers never lead to the same session object, every stored object knows its
  identifier, and identifiers are 64 hexadecimal digits.\<close>

theorem sessions_isolated:
  assumes "sessions_step\<^sup>*\<^sup>* no_sessions s" and "ss_storage s i = Some a"
  shows "valid_id i \<and> sd_id (ss_objs s a) = i \<and> (\<forall>j. ss_storage s j = Some a \<longrightarrow> j = i)"
  using sessions_ok_reachable [OF assms(1)] assms(2) by (auto simp: sessions_ok_def)

text \<open>No session fixation: unless the request's cookie names a session that is stored and has
  not expired, the middleware gives it a new object with empty data under an identifier of the
  random generator, tells the client that identifier, and forgets the identifier the client
  sent; the objects of all other sessions are as before.\<close>

theorem session_fresh:
  assumes "find_session (session_id n req) env s = None"
    and "session_step ttl n flags env (req, res, s) = (req', res', s')"
    and "ident = random_hex (se_random env) 32"
  shows "rq_session req' = Some (ss_next s) \<and> ss_storage s' ident = Some (ss_next s)
    \<and> ss_objs s' (ss_next s) = \<lparr>sd_expires = se_create env + ttl, sd_data = Map.empty, sd_id = ident\<rparr>
    \<and> rs_headers res' ''Set-Cookie'' = Some (n @ ''='' @ ident @ ''; '' @ flags)
    \<and> (\<forall>i. session_id n req = Some i \<longrightarrow> i \<noteq> ident \<longrightarrow> ss_storage s' i = None)
    \<and> (\<forall>a. a \<noteq> ss_next s \<longrightarrow> ss_objs s' a = ss_objs s a)"
  using assms(2)
proof (cases rule: session_step_cases)
  case (found i a)
  with assms(1) show ?thesis by simp
next
  case (fresh st)
  then show ?thesis
    using assms(3) by (auto simp: res_header_def set_cookie_def)
qed

text \<open>C18. A session lasts: what a handler stores in the session of one request is what the next
  request with the cookie of that session reads, wherever the cookie stands among the cookies
  the browser sends, as long as that request comes before the session expires; it gets the same
  object and no new cookie.\<close>

theorem session_resumed:
  assumes first: "session_step ttl n flags env (req1, res1, s) = (req1', res1', s1)"
    and none: "find_session (session_id n req1) env s = None" and rand: "length (se_random env 32) = 32"
    and stored: "update_session (rq_session req1') (session_set key val) s1 = Inr s2"
    and cookies: "getHeader req2 ''Cookie'' = Some (cookie_header kvs)" "\<forall>kv \<in> set kvs. cookie_ok kv"
      "map_of kvs n = Some (random_hex (se_random env) 32)"
    and time: "se_check env2 < se_create env + ttl"
    and second: "session_step ttl n flags env2 (req2, res2, s2) = (req2', res2', s3)"
  shows "rq_session req2' = rq_session req1' \<and> res2' = res2
    \<and> (\<exists>d. read_session (rq_session req2') s3 = Inr d \<and> session_get key d = Some val
         \<and> sd_expires d = se_touch env2 + ttl)"
proof -
  let ?i = "random_hex (se_random env) 32"
  note new = session_fresh [OF none first refl]
  have sid: "session_id n req2 = Some ?i"
    by (rule session_id_header [OF cookies random_id_valid [of "se_random env", OF rand]])
  have s2: "ss_storage s2 ?i = Some (ss_next s)"
    "ss_objs s2 (ss_next s) = session_set key val (ss_objs s1 (ss_next s))"
    using stored new by (auto simp: update_session_def)
  then have "find_session (session_id n req2) env2 s2 = Some (ss_next s)"
    using new time by (simp add: find_session_def sid session_set_def)
  with second show ?thesis
    by (cases rule: session_step_cases)
      (use new s2 in \<open>auto simp: read_session_def session_get_def session_set_def\<close>)
qed

text \<open>The cleanup is invisible to requests: it removes only sessions that no request from
  that time on would find.\<close>

theorem cleanup_invisible:
  assumes "now \<le> se_check env"
  shows "find_session sid env (session_cleanup now s) = find_session sid env s"
  using assms by (auto simp: find_session_def session_cleanup_def split: option.split)

subsection \<open>Witnesses\<close>

definition sample_env :: session_env where
  "sample_env = \<lparr>se_check = 10, se_touch = 10, se_create = 10, se_random = \<lambda>k. replicate k 7\<rparr>"

lemma sample_id: "valid_id (random_hex (se_random sample_env) 32)"
  by (rule random_id_valid) (simp add: sample_env_def)

definition sample_state :: sessions where
  "sample_state =
     \<lparr>ss_storage = [random_hex (se_random sample_env) 32 \<mapsto> 0],
      ss_objs = (\<lambda>a. empty_session)(0 := \<lparr>sd_expires = 70, sd_data = Map.empty,
        sd_id = random_hex (se_random sample_env) 32\<rparr>), ss_next = 1\<rparr>"

lemma sample_step:
  "session_step 60 ''sid'' ''F'' sample_env (empty_request, new_response, no_sessions) =
    (empty_request\<lparr>rq_session := Some 0\<rparr>,
     res_header ''Set-Cookie'' (set_cookie ''sid'' (random_hex (se_random sample_env) 32) ''F'') new_response,
     sample_state)"
  "find_session (session_id ''sid'' empty_request) sample_env no_sessions = None"
  by (simp_all add: session_step_def create_session_def session_id_def getHeader_def empty_request_def
    find_session_def no_sessions_def sample_state_def Let_def) (simp add: sample_env_def)

theorem sessions_isolated_witness:
  "sessions_step\<^sup>*\<^sup>* no_sessions sample_state
   \<and> sd_id (ss_objs sample_state 0) = random_hex (se_random sample_env) 32"
proof -
  have "sessions_step no_sessions sample_state"
    by (rule sessions_step.request [OF _ sample_step(1)]) (simp add: sample_env_def)
  then have reach: "sessions_step\<^sup>*\<^sup>* no_sessions sample_state" by (rule r_into_rtranclp)
  have "ss_storage sample_state (random_hex (se_random sample_env) 32) = Some 0"
    by (simp add: sample_state_def)
  with sessions_isolated [OF reach this] reach show ?thesis by blast
qed

theorem session_fresh_witness:
  "ss_storage sample_state (random_hex (se_random sample_env) 32) = Some (ss_next no_sessions)"
  using session_fresh [OF sample_step(2,1) refl] by blast

theorem cleanup_invisible_witness:
  "find_session (Some ''x'') sample_env (session_cleanup 5 no_sessions) = None"
proof -
  have "5 \<le> se_check sample_env" by (simp add: sample_env_def)
  then have "find_session (Some ''x'') sample_env (session_cleanup 5 no_sessions)
      = find_session (Some ''x'') sample_env no_sessions"
    by (rule cleanup_invisible)
  then show ?thesis by (simp add: find_session_def no_sessions_def)
qed

theorem session_resumed_witness:
  "\<exists>(req2' :: request) s3 d. rq_session req2' = Some 0 \<and> read_session (rq_session req2') s3 = Inr d
     \<and> session_get ''user'' d = Some ''me''"
proof -
  let ?i = "random_hex (se_random sample_env) 32"
  let ?kvs = "[(''a'', ''b''), (''sid'', ?i)]"
  let ?req2 = "empty_request\<lparr>rq_headers := [''Cookie'' \<mapsto> cookie_header ?kvs]\<rparr>"
  obtain s2 where s2: "update_session (rq_session (empty_request\<lparr>rq_session := Some 0\<rparr>))
      (session_set ''user'' ''me'') sample_state = Inr s2"
    by (simp add: update_session_def)
  obtain req2' res2' s3 where step: "session_step 60 ''sid'' ''F'' sample_env (?req2, new_response, s2) = (req2', res2', s3)"
    by (metis prod_cases3)
  have "CHR '';'' \<notin> set ?i" "CHR '' '' \<notin> set ?i"
    using sample_id by (auto simp: valid_id_iff hex_digits_def)
  then have ok: "\<forall>kv \<in> set ?kvs. cookie_ok kv" by (simp add: cookie_ok_def)
  have cookie: "getHeader ?req2 ''Cookie'' = Some (cookie_header ?kvs)" by (simp add: getHeader_def)
  have env: "length (se_random sample_env 32) = 32" "se_check sample_env < se_create sample_env + 60"
    "map_of ?kvs ''sid'' = Some ?i" by (simp_all add: sample_env_def)
  from session_resumed [OF sample_step(1,2) env(1) s2 cookie ok env(3,2) step]
  show ?thesis by (intro exI [of _ req2'] exI [of _ s3]) auto
qed

end
