(* ===== verification/Csrf.thy ===== *)
theory Csrf
  imports Session
begin

section \<open>Protection against cross-site request forgery\<close>

text \<open>
  Models \<^verbatim>\<open>src/security/csrf.cpp\<close>. The middleware works on the session the
  request points to: a \<open>GET\<close> stores a fresh token there, a \<open>POST\<close>, \<open>PUT\<close> or \<open>DELETE\<close>
  must present it, in a header, in a part of a multipart form or in a form field. The views of
  the parts are read in the heap \<open>buffers\<close>, and the pointer to the session is followed
  without a check.
\<close>

definition csrf_key :: string where
  "csrf_key = ''_csrf''"

fun csrf_part :: "heap \<Rightarrow> part list \<Rightarrow> string result" where
  "csrf_part buffers [] = Inr []"
| "csrf_part buffers (p # ps) = (if pt_name p = csrf_key then read_view buffers (pt_data p) else csrf_part buffers ps)"

definition csrf_token_of :: "heap \<Rightarrow> request \<Rightarrow> string result" where
  "csrf_token_of buffers req =
     (case getHeader req ''X-CSRF-Token'' of
        Some token \<Rightarrow> Inr token
      | None \<Rightarrow>
          bind_result (csrf_part buffers (rq_parts req)) (\<lambda>token_val.
          if token_val = []
          then Inr (case getFormParam req csrf_key of None \<Rightarrow> [] | Some csrf \<Rightarrow> csrf)
          else Inr token_val))"

definition csrf_allows :: "heap \<Rightarrow> sessions \<Rightarrow> request \<Rightarrow> bool result" where
  "csrf_allows buffers s req =
     bind_result (csrf_token_of buffers req) (\<lambda>token_val.
     bind_result (read_session (rq_session req) s) (\<lambda>d.
     let stored = session_get csrf_key d
     in Inr (token_val \<noteq> [] \<and> stored = Some token_val)))"

definition csrf_issue ::
  "(nat \<Rightarrow> byte list) \<Rightarrow> request \<times> response \<times> sessions \<Rightarrow> (request \<times> response \<times> sessions) result" where
  "csrf_issue RAND_bytes c =
     (case c of (req, res, s) \<Rightarrow>
        let token = random_hex RAND_bytes 32 in
        bind_result (update_session (rq_session req) (session_set csrf_key token) s) (\<lambda>s'.
        Inr (req\<lparr>rq_csrf_token := token\<rparr>, res_header ''X-CSRF-Token'' token res, s')))"

definition Csrf ::
  "('w \<Rightarrow> sessions) \<Rightarrow> (sessions \<Rightarrow> 'w \<Rightarrow> 'w) \<Rightarrow> ('w \<Rightarrow> heap) \<Rightarrow> ('w \<Rightarrow> nat \<Rightarrow> byte list) \<Rightarrow> 'w middleware" where
  "Csrf get put buffers rand c nxt =
     (case c of (req, res, w) \<Rightarrow>
        if rq_method req = ''GET'' then
          (case csrf_issue (rand w) (req, res, get w) of
             Inl e \<Rightarrow> (Some e, c)
           | Inr (req', res', s') \<Rightarrow> nxt (req', res', put s' w))
        else if rq_method req \<in> {''POST'', ''PUT'', ''DELETE''} then
          (case csrf_allows (buffers w) (get w) req of
             Inl e \<Rightarrow> (Some e, c)
           | Inr ok \<Rightarrow> if ok then nxt c else (None, req, res_body ''Forbidden'' (res_status 403 res), w))
        else (None, c))"

definition csrf_decide ::
  "('w \<Rightarrow> sessions) \<Rightarrow> (sessions \<Rightarrow> 'w \<Rightarrow> 'w) \<Rightarrow> ('w \<Rightarrow> heap) \<Rightarrow> ('w \<Rightarrow> nat \<Rightarrow> byte list) \<Rightarrow> 'w ctx \<Rightarrow> 'w verdict" where
  "csrf_decide get put buffers rand c =
     (case c of (req, res, w) \<Rightarrow>
        if rq_method req = ''GET'' then
          (case csrf_issue (rand w) (req, res, get w) of
             Inl e \<Rightarrow> Throw e c
           | Inr (req', res', s') \<Rightarrow> Continue (req', res', put s' w))
        else if rq_method req \<in> {''POST'', ''PUT'', ''DELETE''} then
          (case csrf_allows (buffers w) (get w) req of
             Inl e \<Rightarrow> Throw e c
           | Inr ok \<Rightarrow> if ok then Continue c else Stop (req, res_body ''Forbidden'' (res_status 403 res), w))
        else Stop c)"

interpretation csrf_filter: filter_middleware "Csrf get put buffers rand" "csrf_decide get put buffers rand"
  for get put buffers rand
  by unfold_locales (auto simp: Csrf_def csrf_decide_def split: prod.splits sum.splits)

subsection \<open>What the check depends on\<close>

text \<open>A request presents a token in the header or, without the header, in the first part named
  \<open>_csrf\<close>, and in the form field when there is no such part or it is empty.\<close>

definition presents :: "heap \<Rightarrow> request \<Rightarrow> string \<Rightarrow> bool" where
  "presents buffers req token \<longleftrightarrow>
     (case getHeader req ''X-CSRF-Token'' of
        Some t \<Rightarrow> t = token
      | None \<Rightarrow>
          (case find (\<lambda>p. pt_name p = csrf_key) (rq_parts req) of
             None \<Rightarrow> getFormParam req csrf_key = Some token
           | Some p \<Rightarrow> read_view buffers (pt_data p) = Inr token
               \<or> read_view buffers (pt_data p) = Inr [] \<and> getFormParam req csrf_key = Some token))"

lemma csrf_part_find:
  "csrf_part buffers ps =
    (case find (\<lambda>p. pt_name p = csrf_key) ps of None \<Rightarrow> Inr [] | Some p \<Rightarrow> read_view buffers (pt_data p))"
  by (induction ps) auto

lemma csrf_token_of_presents:
  "token \<noteq> [] \<Longrightarrow> csrf_token_of buffers req = Inr token \<longleftrightarrow> presents buffers req token"
  by (auto simp: csrf_token_of_def presents_def csrf_part_find bind_result_def split: option.split sum.split)

lemma csrf_allows_True:
  "csrf_allows buffers s req = Inr True \<longleftrightarrow>
    (\<exists>a token. rq_session req = Some a \<and> session_get csrf_key (ss_objs s a) = Some token \<and> token \<noteq> []
      \<and> presents buffers req token)"
  by (auto simp: csrf_allows_def read_session_def bind_result_eq_Inr simp flip: csrf_token_of_presents
    split: option.splits)

lemma csrf_allows_Inl:
  assumes "csrf_allows buffers s req = Inl e"
  shows "rq_session req = None
    \<or> (\<exists>p \<in> set (rq_parts req). pt_name p = csrf_key \<and> read_view buffers (pt_data p) = Inl e)"
proof (cases "rq_session req")
  case (Some a)
  with assms have "csrf_part buffers (rq_parts req) = Inl e"
    by (auto simp: csrf_allows_def csrf_token_of_def read_session_def bind_result_eq_Inl bind_result_eq_Inr
      split: option.splits if_splits)
  then show ?thesis by (auto simp: csrf_part_find find_Some_iff split: option.splits)
qed simp

text \<open>
  What has happened to the sessions: pages were given a token, which is written into the session
  of the request, requests passed the session middleware, handlers wrote other entries, and the
  cleanup ran. The tokens are listed with the session they were given to, the last one first.
\<close>

inductive csrf_history :: "sessions \<Rightarrow> (nat \<times> string) list \<Rightarrow> bool" where
  start: "csrf_history no_sessions []"
| page: "csrf_history s issued \<Longrightarrow> rq_session req = Some a \<Longrightarrow> a < ss_next s \<Longrightarrow>
    csrf_issue RAND_bytes (req, res, s) = Inr (req', res', s') \<Longrightarrow> csrf_history s' ((a, rq_csrf_token req') # issued)"
| request: "csrf_history s issued \<Longrightarrow>
    session_step ttl cookie_name flags env (req, res, s) = (req', res', s') \<Longrightarrow> csrf_history s' issued"
| handler: "csrf_history s issued \<Longrightarrow> update_session (Some a) (session_set key val) s = Inr s' \<Longrightarrow> key \<noteq> csrf_key \<Longrightarrow>
    csrf_history s' issued"
| cleanup: "csrf_history s issued \<Longrightarrow> csrf_history (session_cleanup now s) issued"

lemma csrf_issue_result:
  assumes "rq_session req = Some a"
  shows "csrf_issue r (req, res, s) = Inr (req\<lparr>rq_csrf_token := random_hex r 32\<rparr>,
    res_header ''X-CSRF-Token'' (random_hex r 32) res,
    s\<lparr>ss_objs := (ss_objs s)(a := session_set csrf_key (random_hex r 32) (ss_objs s a))\<rparr>)"
  using assms by (simp add: csrf_issue_def update_session_def Let_def)

text \<open>The token in a session is the one it was given last.\<close>

lemma csrf_history_stored:
  "csrf_history s issued \<Longrightarrow> (\<forall>a. session_get csrf_key (ss_objs s a) = map_of issued a)
     \<and> (\<forall>a \<in> fst ` set issued. a < ss_next s)"
proof (induction rule: csrf_history.induct)
  case start
  then show ?case by (simp add: no_sessions_def empty_session_def session_get_def)
next
  case (page s issued req a r res req' res' s')
  then show ?case by (auto simp: csrf_issue_result session_get_def session_set_def)
next
  case (request s issued ttl n flags env req res req' res' s')
  from request(2) show ?case
  proof (cases rule: session_step_cases)
    case (found i a)
    with request(3) show ?thesis by (auto simp: session_get_def)
  next
    case (fresh st)
    have "map_of issued (ss_next s) = None" using request(3) by (auto simp: map_of_eq_None_iff)
    with fresh request(3) show ?thesis by (auto simp: session_get_def)
  qed
next
  case (handler s issued a key val s')
  then show ?case by (auto simp: update_session_def session_get_def session_set_def)
next
  case (cleanup s issued now)
  then show ?case by (simp add: session_cleanup_def)
qed

text \<open>Whether it makes a difference what stands behind a middleware.\<close>

definition behind_matters :: "'w middleware \<Rightarrow> 'w ctx \<Rightarrow> bool" where
  "behind_matters mw c \<longleftrightarrow> (\<exists>ms final ms' final'. run_chain (mw # ms) final c \<noteq> run_chain (mw # ms') final' c)"

context filter_middleware
begin

lemma behind_matters_iff: "behind_matters mw c \<longleftrightarrow> (\<exists>c'. decide c = Continue c')"
proof (cases "decide c")
  case (Continue c')
  have "run_chain [mw] (\<lambda>c. (None, c)) c \<noteq> run_chain [mw] (\<lambda>c. (Some Out_of_range, c)) c"
    by (simp add: decides Continue)
  with Continue show ?thesis unfolding behind_matters_def by blast
qed (auto simp: behind_matters_def decides)

end

lemma csrf_behind:
  "behind_matters (Csrf get put buffers rand) (req, res, w) \<longleftrightarrow>
    (rq_method req = ''GET'' \<and> rq_session req \<noteq> None
     \<or> rq_method req \<in> {''POST'', ''PUT'', ''DELETE''} \<and> csrf_allows (buffers w) (get w) req = Inr True)"
  by (cases "rq_session req")
    (auto simp: csrf_filter.behind_matters_iff csrf_decide_def csrf_issue_result csrf_issue_def update_session_def
      Let_def split: sum.split if_splits)

subsection \<open>Properties\<close>

text \<open>C20. What stands behind the CSRF check matters to a request (there are two chains that would
  make a difference to it) exactly when the request has a session and is either a \<open>GET\<close>, or a
  \<open>POST\<close>, \<open>PUT\<close> or \<open>DELETE\<close> that presents, in the header, the part or the field, the very token
  that was given last to a page of that session (in any history of pages, requests, sweeps and
  handlers that write other entries). Such a request goes on unchanged, or, a \<open>GET\<close>,
  with a new token that it shows to handler and client and that is from then on the session's
  token. To any other request no handler and no middleware behind the check makes a difference:
  it is answered 403, or (methods other than these four) left unanswered, or it ends with an
  exception, and then it has no session or its \<open>_csrf\<close> part is one that cannot be read.\<close>

theorem csrf_guards:
  assumes "csrf_history (get w) issued" and "case rq_session req of None \<Rightarrow> True | Some a \<Rightarrow> a < ss_next (get w)"
  shows "(behind_matters (Csrf get put buffers rand) (req, res, w) \<longleftrightarrow>
      (\<exists>a. rq_session req = Some a \<and>
        (rq_method req = ''GET'' \<or> rq_method req \<in> {''POST'', ''PUT'', ''DELETE''} \<and>
          (\<exists>token. map_of issued a = Some token \<and> token \<noteq> [] \<and> presents (buffers w) req token))))
    \<and> (if behind_matters (Csrf get put buffers rand) (req, res, w)
       then if rq_method req = ''GET''
         then \<exists>a token s. rq_session req = Some a \<and> token = random_hex (rand w) 32 \<and> csrf_history s ((a, token) # issued) \<and>
           run_chain (Csrf get put buffers rand # ms) final (req, res, w) =
             run_chain ms final (req\<lparr>rq_csrf_token := token\<rparr>, res_header ''X-CSRF-Token'' token res, put s w)
         else run_chain (Csrf get put buffers rand # ms) final (req, res, w) = run_chain ms final (req, res, w)
       else run_chain (Csrf get put buffers rand # ms) final (req, res, w) \<in>
         (if rq_method req \<in> {''GET'', ''POST'', ''PUT'', ''DELETE''}
          then {(None, req, res_body ''Forbidden'' (res_status 403 res), w)} \<union>
            {(Some e, req, res, w) |e. rq_session req = None \<or>
               (\<exists>p \<in> set (rq_parts req). pt_name p = csrf_key \<and> read_view (buffers w) (pt_data p) = Inl e)}
          else {(None, req, res, w)}))"
proof -
  let ?mw = "Csrf get put buffers rand" and ?c = "(req, res, w)"
  note stored = csrf_history_stored [OF assms(1), THEN conjunct1]
  have "behind_matters ?mw ?c \<longleftrightarrow> (\<exists>a. rq_session req = Some a \<and>
        (rq_method req = ''GET'' \<or> rq_method req \<in> {''POST'', ''PUT'', ''DELETE''} \<and>
          (\<exists>token. map_of issued a = Some token \<and> token \<noteq> [] \<and> presents (buffers w) req token)))"
    unfolding csrf_behind csrf_allows_True by (auto simp: stored)
  moreover have "\<exists>a token s. rq_session req = Some a \<and> token = random_hex (rand w) 32 \<and> csrf_history s ((a, token) # issued) \<and>
      run_chain (?mw # ms) final ?c =
        run_chain ms final (req\<lparr>rq_csrf_token := token\<rparr>, res_header ''X-CSRF-Token'' token res, put s w)"
    if get: "rq_method req = ''GET''" and a: "rq_session req = Some a" for a
    using csrf_history.page [OF assms(1) a _ csrf_issue_result [OF a]] assms(2) a get
    by (auto simp: Csrf_def csrf_issue_result)
  moreover have "run_chain (?mw # ms) final ?c = run_chain ms final ?c"
    if "behind_matters ?mw ?c" "rq_method req \<noteq> ''GET''"
    using that by (intro csrf_filter.continues) (simp add: csrf_behind csrf_decide_def)
  moreover have "run_chain (?mw # ms) final ?c \<in> {(None, req, res_body ''Forbidden'' (res_status 403 res), w)} \<union>
      {(Some e, req, res, w) |e. rq_session req = None \<or>
         (\<exists>p \<in> set (rq_parts req). pt_name p = csrf_key \<and> read_view (buffers w) (pt_data p) = Inl e)}"
    if "\<not> behind_matters ?mw ?c" "rq_method req \<in> {''GET'', ''POST'', ''PUT'', ''DELETE''}"
    using that csrf_allows_Inl [of "buffers w" "get w" req]
    by (cases "csrf_allows (buffers w) (get w) req")
      (auto simp: csrf_behind Csrf_def csrf_issue_def update_session_def Let_def)
  moreover have "run_chain (?mw # ms) final ?c = (None, req, res, w)"
    if "rq_method req \<notin> {''GET'', ''POST'', ''PUT'', ''DELETE''}"
    using that by (simp add: Csrf_def)
  ultimately show ?thesis unfolding csrf_behind by auto
qed

text \<open>The token of a \<open>GET\<close> opens the next request of the same session: the middleware shows
  the handler and the client the same token, and a later request of that session that sends it
  back in the header, or in a form field of a form that is not multipart, is allowed.\<close>

theorem csrf_roundtrip:
  assumes "csrf_issue RAND_bytes (req, res, s) = Inr (req', res', s')"
    and "rq_session req2 = rq_session req" and "length (RAND_bytes 32) = 32"
    and "getHeader req2 ''X-CSRF-Token'' = res_getHeader res' ''X-CSRF-Token''
      \<or> getHeader req2 ''X-CSRF-Token'' = None \<and> rq_parts req2 = []
        \<and> getFormParam req2 csrf_key = Some (rq_csrf_token req')"
  shows "csrf_allows buffers s' req2 = Inr True \<and> rs_headers res' ''X-CSRF-Token'' = Some (rq_csrf_token req')"
proof -
  let ?token = "random_hex RAND_bytes 32"
  obtain a where a: "rq_session req = Some a" "s' = s\<lparr>ss_objs := (ss_objs s)(a := session_set csrf_key ?token (ss_objs s a))\<rparr>"
    and shown: "rq_csrf_token req' = ?token" "rs_headers res' ''X-CSRF-Token'' = Some ?token"
    using assms(1) by (auto simp: csrf_issue_def Let_def bind_result_eq_Inr update_session_def res_header_def
      split: option.splits)
  have "length ?token = 64" using assms(3) by (simp add: random_hex_def)
  then have ne: "?token \<noteq> []" by auto
  have "csrf_token_of buffers req2 = Inr ?token"
    using assms(4) shown by (auto simp: csrf_token_of_def res_getHeader_def)
  moreover have "read_session (rq_session req2) s' = Inr (session_set csrf_key ?token (ss_objs s a))"
    by (simp add: read_session_def assms(2) a)
  ultimately show ?thesis
    using shown ne by (simp add: csrf_allows_def session_get_def session_set_def)
qed

subsection \<open>Witnesses\<close>

text \<open>A page of a new session, and a form that presents its token.\<close>

theorem csrf_guards_witness:
  "\<exists>s token. behind_matters (Csrf (\<lambda>w. s) (\<lambda>s w. w) (\<lambda>w. Map.empty) (\<lambda>w k. []))
       (empty_request\<lparr>rq_method := ''POST'', rq_session := Some 0, rq_headers := [''X-CSRF-Token'' \<mapsto> token]\<rparr>, new_response, ())
     \<and> \<not> behind_matters (Csrf (\<lambda>w. s) (\<lambda>s w. w) (\<lambda>w. Map.empty) (\<lambda>w k. []))
       (empty_request\<lparr>rq_method := ''POST'', rq_session := Some 0\<rparr>, new_response, ())"
proof -
  obtain req1 res1 s1 where step: "session_step 60 ''sid'' ''F'' sample_env (empty_request, new_response, no_sessions) = (req1, res1, s1)"
    by (metis prod_cases3)
  have new: "find_session (session_id ''sid'' empty_request) sample_env no_sessions = None"
    by (simp add: find_session_def session_id_def getHeader_def empty_request_def)
  have s1: "rq_session req1 = Some 0 \<and> ss_next s1 = 1"
    using step by (cases rule: session_step_cases) (simp_all add: new no_sessions_def)
  obtain req2 res2 s2 where issue: "csrf_issue (\<lambda>k. replicate k 5) (req1, res1, s1) = Inr (req2, res2, s2)"
    and token: "rq_csrf_token req2 = random_hex (\<lambda>k. replicate k 5) 32" and s2: "ss_next s2 = 1"
    using s1 by (simp add: csrf_issue_result)
  have history: "csrf_history s2 [(0, rq_csrf_token req2)]"
    using csrf_history.page [OF csrf_history.request [OF csrf_history.start step] _ _ issue] s1 by simp
  have "length (rq_csrf_token req2) = 64" by (simp add: token random_hex_def)
  then have ne: "rq_csrf_token req2 \<noteq> []" by auto
  let ?req = "empty_request\<lparr>rq_method := ''POST'', rq_session := Some 0, rq_headers := [''X-CSRF-Token'' \<mapsto> rq_csrf_token req2]\<rparr>"
  have "presents Map.empty ?req (rq_csrf_token req2)" by (simp add: presents_def getHeader_def)
  moreover have "\<not> presents Map.empty (empty_request\<lparr>rq_method := ''POST'', rq_session := Some 0\<rparr>) t" for t
    by (simp add: presents_def getHeader_def getFormParam_def empty_request_def)
  moreover note csrf_guards [of "\<lambda>w. s2" "()", OF history, THEN conjunct1]
  ultimately show ?thesis using s2 ne by (intro exI [of _ s2] exI [of _ "rq_csrf_token req2"]) simp
qed

theorem csrf_roundtrip_witness:
  "\<exists>req' res' s'. csrf_issue (\<lambda>k. replicate k 5) (empty_request\<lparr>rq_session := Some 0\<rparr>, new_response, sample_state)
     = Inr (req', res', s') \<and>
   csrf_allows Map.empty s' (empty_request\<lparr>rq_session := Some 0,
     rq_headers := [''X-CSRF-Token'' \<mapsto> random_hex (\<lambda>k. replicate k 5) 32]\<rparr>) = Inr True"
proof -
  obtain req' res' s' where issue: "csrf_issue (\<lambda>k. replicate k 5)
      (empty_request\<lparr>rq_session := Some 0\<rparr>, new_response, sample_state) = Inr (req', res', s')"
    and "res_getHeader res' ''X-CSRF-Token'' = Some (random_hex (\<lambda>k. replicate k 5) 32)"
    by (simp add: csrf_issue_def update_session_def Let_def res_getHeader_def res_header_def)
  then have "getHeader (empty_request\<lparr>rq_session := Some 0,
     rq_headers := [''X-CSRF-Token'' \<mapsto> random_hex (\<lambda>k. replicate k 5) 32]\<rparr>) ''X-CSRF-Token'' =
     res_getHeader res' ''X-CSRF-Token''" by (simp add: getHeader_def)
  then show ?thesis
    using csrf_roundtrip [OF issue, of "empty_request\<lparr>rq_session := Some 0,
     rq_headers := [''X-CSRF-Token'' \<mapsto> random_hex (\<lambda>k. replicate k 5) 32]\<rparr>" Map.empty] issue by auto
qed

end
