(* ===== verification/Cache.thy ===== *)
theory Cache
  imports Prelude
begin

section \<open>The file cache\<close>

text \<open>
  Models \<^verbatim>\<open>src/cache/cache.cpp\<close>, \<^verbatim>\<open>src/cache/lru_policy.cpp\<close> and the headers
  under \<^verbatim>\<open>include/ynet/cache\<close>. An entry keeps the contents of a file, the
  modification time they were read at and the time of the last access on the steady clock.
  What to throw out of a full cache is decided by a policy behind an interface; the only policy
  of the code removes the entry that was not used for the longest time. The size of the hash map
  is the length of its iteration order.
\<close>

datatype instant = Instant nat

fun ticks :: "instant \<Rightarrow> nat" where
  "ticks (Instant n) = n"

instantiation instant :: linorder
begin

definition less_eq_instant :: "instant \<Rightarrow> instant \<Rightarrow> bool" where
  "less_eq_instant a b \<longleftrightarrow> ticks a \<le> ticks b"

definition less_instant :: "instant \<Rightarrow> instant \<Rightarrow> bool" where
  "less_instant a b \<longleftrightarrow> ticks a < ticks b"

instance
proof
  fix a b :: instant
  show "a \<le> b \<Longrightarrow> b \<le> a \<Longrightarrow> a = b"
    by (cases a; cases b) (simp add: less_eq_instant_def)
qed (auto simp: less_eq_instant_def less_instant_def)

end

record cache_entry =
  ce_content :: string
  ce_mtime :: int
  ce_access :: instant

type_synonym entries = "string \<rightharpoonup> cache_entry"

record cache =
  ca_entries :: entries
  ca_max :: nat

definition new_cache :: "nat \<Rightarrow> cache" where
  "new_cache max_entries = \<lparr>ca_entries = Map.empty, ca_max = max_entries\<rparr>"

text \<open>
  A file on disk: its modification time and what a stream reads from it, nothing when it cannot
  be opened. Asking for the time of a file that does not exist throws.
\<close>

record file_state =
  fs_mtime :: int
  fs_text :: string

type_synonym disk = "string \<rightharpoonup> file_state"
type_synonym policy = "string list \<Rightarrow> entries \<Rightarrow> entries result"

subsection \<open>The least recently used entry\<close>

text \<open>The access time at an iterator; the loop only visits keys of the map.\<close>

definition access_of :: "entries \<Rightarrow> string \<Rightarrow> instant" where
  "access_of entries k = (case entries k of Some e \<Rightarrow> ce_access e | None \<Rightarrow> Instant 0)"

fun lru_oldest :: "entries \<Rightarrow> string \<Rightarrow> string list \<Rightarrow> string" where
  "lru_oldest entries oldest [] = oldest"
| "lru_oldest entries oldest (k # ks) =
     (if access_of entries k < access_of entries oldest
      then lru_oldest entries k ks else lru_oldest entries oldest ks)"

text \<open>On an empty map the code erases the end iterator.\<close>

fun lru_evict :: policy where
  "lru_evict [] entries = Inl Undefined_behaviour"
| "lru_evict (k # ks) entries = Inr (entries(lru_oldest entries k (k # ks) := None))"

subsection \<open>Loading a file\<close>

definition cache_clear :: "cache \<Rightarrow> cache" where
  "cache_clear c = c\<lparr>ca_entries := Map.empty\<rparr>"

definition cache_hit :: "cache \<Rightarrow> string \<Rightarrow> file_state \<Rightarrow> cache_entry option" where
  "cache_hit c path f =
     (case ca_entries c path of
        None \<Rightarrow> None | Some e \<Rightarrow> if ce_mtime e = fs_mtime f then Some e else None)"

definition cache_loadFile ::
  "policy \<Rightarrow> string list \<Rightarrow> disk \<Rightarrow> instant \<Rightarrow> string \<Rightarrow> cache \<Rightarrow> string result \<times> cache" where
  "cache_loadFile evict ks disk now path c =
     (case disk path of
        None \<Rightarrow> (Inl Filesystem_error, c)
      | Some f \<Rightarrow>
          (case cache_hit c path f of
             Some e \<Rightarrow> (Inr (ce_content e), c\<lparr>ca_entries := (ca_entries c)(path \<mapsto> e\<lparr>ce_access := now\<rparr>)\<rparr>)
           | None \<Rightarrow>
               (case (if length ks \<ge> ca_max c then evict ks (ca_entries c) else Inr (ca_entries c)) of
                  Inl e \<Rightarrow> (Inl e, c)
                | Inr entries \<Rightarrow>
                    (Inr (fs_text f),
                     c\<lparr>ca_entries := entries(path \<mapsto>
                       \<lparr>ce_content = fs_text f, ce_mtime = fs_mtime f, ce_access = now\<rparr>)\<rparr>))))"

subsection \<open>The policy interface\<close>

text \<open>
  What \<open>loadFile\<close> relies on: evicting from a map that is not empty removes one entry. A cached
  entry is coherent with the disk when equal times mean equal contents.
\<close>

definition coherent :: "disk \<Rightarrow> cache \<Rightarrow> bool" where
  "coherent disk c \<longleftrightarrow> (\<forall>p e f. ca_entries c p = Some e \<longrightarrow> disk p = Some f \<longrightarrow>
     ce_mtime e = fs_mtime f \<longrightarrow> ce_content e = fs_text f)"

definition within_bounds :: "cache \<Rightarrow> bool" where
  "within_bounds c \<longleftrightarrow> finite (dom (ca_entries c)) \<and> card (dom (ca_entries c)) \<le> ca_max c"

locale cache_policy =
  fixes evict :: policy
  assumes evict_one: "iterates ks m \<Longrightarrow> ks \<noteq> [] \<Longrightarrow> \<exists>k \<in> dom m. evict ks m = Inr (m(k := None))"
begin

lemma make_room:
  assumes "iterates ks (ca_entries c)" and "0 < ca_max c" and "within_bounds c"
  obtains m where "(if length ks \<ge> ca_max c then evict ks (ca_entries c) else Inr (ca_entries c)) = Inr m"
    and "finite (dom m)" and "card (dom m) < ca_max c" and "m \<subseteq>\<^sub>m ca_entries c"
proof (cases "length ks \<ge> ca_max c")
  case True
  with assms(2) have "ks \<noteq> []" by auto
  with evict_one [OF assms(1)] obtain k where k: "k \<in> dom (ca_entries c)"
    "evict ks (ca_entries c) = Inr ((ca_entries c)(k := None))" by blast
  have fin: "finite (dom (ca_entries c))" using assms(3) by (simp add: within_bounds_def)
  then have "card (dom ((ca_entries c)(k := None))) < card (dom (ca_entries c))"
    using card_Diff1_less [OF fin k(1)] by simp
  then show thesis
    using k True fin assms(3) by (intro that [of "(ca_entries c)(k := None)"])
      (auto simp: within_bounds_def map_le_def)
next
  case False
  then have "card (dom (ca_entries c)) < ca_max c" using iterates_length [OF assms(1)] by simp
  then show thesis
    using False assms(3) by (intro that [of "ca_entries c"]) (simp_all add: within_bounds_def)
qed

lemma load_current:
  assumes "iterates ks (ca_entries c)" and "0 < ca_max c" and "within_bounds c" and "coherent disk c"
    and "disk path = Some f"
  shows "\<exists>c'. cache_loadFile evict ks disk now path c = (Inr (fs_text f), c')
    \<and> coherent disk c' \<and> within_bounds c' \<and> ca_max c' = ca_max c"
proof (cases "cache_hit c path f")
  case (Some e)
  then have e: "ca_entries c path = Some e" "ce_mtime e = fs_mtime f"
    by (auto simp: cache_hit_def split: option.splits if_splits)
  then have "dom ((ca_entries c)(path \<mapsto> e\<lparr>ce_access := now\<rparr>)) = dom (ca_entries c)" by auto
  with Some e assms show ?thesis
    by (auto simp: cache_loadFile_def coherent_def within_bounds_def)
next
  case None
  obtain m where m: "(if length ks \<ge> ca_max c then evict ks (ca_entries c) else Inr (ca_entries c)) = Inr m"
    "finite (dom m)" "card (dom m) < ca_max c" "m \<subseteq>\<^sub>m ca_entries c"
    by (rule make_room [OF assms(1-3)])
  have "card (insert path (dom m)) \<le> ca_max c"
    using m(2,3) by (simp add: card_insert_if)
  moreover have sub: "m p = Some e \<Longrightarrow> ca_entries c p = Some e" for p e
    using m(4) by (force simp: map_le_def dom_def)
  have "coherent disk (c\<lparr>ca_entries := m(path \<mapsto>
      \<lparr>ce_content = fs_text f, ce_mtime = fs_mtime f, ce_access = now\<rparr>)\<rparr>)"
    using assms(4,5) sub by (auto simp: coherent_def)
  ultimately show ?thesis
    using None m assms(5) by (simp add: cache_loadFile_def within_bounds_def)
qed

end

subsection \<open>The least recently used policy\<close>

lemma lru_oldest_min:
  "lru_oldest m k ks \<in> insert k (set ks)
   \<and> (\<forall>j \<in> insert k (set ks). access_of m (lru_oldest m k ks) \<le> access_of m j)"
proof (induction ks arbitrary: k)
  case (Cons x ks)
  show ?case
  proof (cases "access_of m x < access_of m k")
    case True
    with Cons.IH [of x] show ?thesis by auto
  next
    case False
    with Cons.IH [of k] show ?thesis by auto
  qed
qed simp

lemma lru_evict_oldest:
  assumes "iterates ks m" and "ks \<noteq> []"
  shows "\<exists>k \<in> dom m. lru_evict ks m = Inr (m(k := None)) \<and> (\<forall>j \<in> dom m. access_of m k \<le> access_of m j)"
proof -
  obtain x xs where ks: "ks = x # xs" using assms(2) by (cases ks) auto
  have "insert x (set (x # xs)) = dom m" using assms(1) by (auto simp: iterates_def ks)
  with lru_oldest_min [of m x "x # xs"] show ?thesis unfolding ks lru_evict.simps by blast
qed

interpretation lru: cache_policy lru_evict
  by unfold_locales (use lru_evict_oldest in blast)

subsection \<open>Reachable states\<close>

text \<open>
  The cache and the disk over time: files are loaded, the cache is cleared, and a file is
  created, changed or removed, a change giving it a modification time other than the one at
  which the cache read it.
\<close>

inductive cache_step :: "disk \<times> cache \<Rightarrow> disk \<times> cache \<Rightarrow> bool" where
  load: "iterates ks (ca_entries c) \<Longrightarrow> cache_loadFile lru_evict ks disk now path c = (r, c') \<Longrightarrow>
    cache_step (disk, c) (disk, c')"
| clear: "cache_step (disk, c) (disk, cache_clear c)"
| change: "\<forall>e. ca_entries c path = Some e \<longrightarrow> ce_mtime e \<noteq> fs_mtime f \<Longrightarrow>
    cache_step (disk, c) (disk(path \<mapsto> f), c)"
| remove: "cache_step (disk, c) (disk(path := None), c)"

inductive_cases cache_stepE: "cache_step (disk, c) (disk', c')"

definition cache_ok :: "nat \<Rightarrow> disk \<times> cache \<Rightarrow> bool" where
  "cache_ok n s \<longleftrightarrow> coherent (fst s) (snd s) \<and> within_bounds (snd s) \<and> ca_max (snd s) = n"

lemma cache_ok_step:
  assumes "cache_step (disk, c) (disk', c')" and "cache_ok n (disk, c)" and "0 < n"
  shows "cache_ok n (disk', c')"
  using assms(1)
proof (cases rule: cache_stepE [consumes 1, case_names load clear change remove])
  case (load ks now path r)
  show ?thesis
  proof (cases "disk path")
    case None
    with load assms(2) show ?thesis by (simp add: cache_loadFile_def)
  next
    case (Some f)
    with load assms(2,3) show ?thesis
      using lru.load_current [OF load(2), of disk path f now] by (auto simp: cache_ok_def)
  qed
next
  case clear
  with assms(2) show ?thesis by (simp add: cache_ok_def cache_clear_def coherent_def within_bounds_def)
next
  case (change path f)
  with assms(2) show ?thesis by (auto simp: cache_ok_def coherent_def)
next
  case (remove path)
  with assms(2) show ?thesis by (auto simp: cache_ok_def coherent_def split: if_splits)
qed

interpretation cached: transition_system cache_step "(disk0, new_cache n)" "\<lambda>s. 0 < n \<longrightarrow> cache_ok n s" for disk0 n
proof unfold_locales
  show "0 < n \<longrightarrow> cache_ok n (disk0, new_cache n)"
    by (simp add: cache_ok_def new_cache_def coherent_def within_bounds_def)
  show "cache_step s t \<Longrightarrow> 0 < n \<longrightarrow> cache_ok n s \<Longrightarrow> 0 < n \<longrightarrow> cache_ok n t" for s t
    using cache_ok_step [of "fst s" "snd s" "fst t" "snd t" n] by simp
qed

lemma cache_ok_reachable:
  "cache_step\<^sup>*\<^sup>* (disk0, new_cache n) (disk, c) \<Longrightarrow> 0 < n \<Longrightarrow> cache_ok n (disk, c)"
  using cached.inv_reachable by blast

subsection \<open>Properties\<close>

text \<open>C26. The cache is transparent and bounded: in every state that loads, clears and changes of
  the files reach, loading an existing file succeeds and returns the file's present contents,
  and the cache never holds more entries than its maximum, if that is positive.\<close>

theorem cache_transparent:
  assumes "cache_step\<^sup>*\<^sup>* (disk0, new_cache n) (disk, c)" and "0 < n"
    and "iterates ks (ca_entries c)" and "disk path = Some f"
  shows "fst (cache_loadFile lru_evict ks disk now path c) = Inr (fs_text f)
    \<and> card (dom (ca_entries (snd (cache_loadFile lru_evict ks disk now path c)))) \<le> n"
  using cache_ok_reachable [OF assms(1,2)] lru.load_current [OF assms(3), of disk path f now] assms(2,4)
  by (auto simp: cache_ok_def within_bounds_def)

text \<open>A full cache gives up the least recently used entry: a miss removes exactly one entry,
  none of the others having been used earlier, and adds the file, whatever order the hash map is
  visited in.\<close>

theorem cache_evicts_lru:
  assumes "iterates ks (ca_entries c)" and "0 < ca_max c" and "ca_max c \<le> length ks"
    and "disk path = Some f" and "cache_hit c path f = None"
  shows "\<exists>k \<in> dom (ca_entries c). (\<forall>j \<in> dom (ca_entries c). access_of (ca_entries c) k \<le> access_of (ca_entries c) j)
    \<and> ca_entries (snd (cache_loadFile lru_evict ks disk now path c)) =
      (ca_entries c)(k := None, path \<mapsto> \<lparr>ce_content = fs_text f, ce_mtime = fs_mtime f, ce_access = now\<rparr>)"
proof -
  have "ks \<noteq> []" using assms(2,3) by auto
  with lru_evict_oldest [OF assms(1)] obtain k where "k \<in> dom (ca_entries c)"
    "lru_evict ks (ca_entries c) = Inr ((ca_entries c)(k := None))"
    "\<forall>j \<in> dom (ca_entries c). access_of (ca_entries c) k \<le> access_of (ca_entries c) j" by blast
  with assms(3-5) show ?thesis
    by (intro bexI [of _ k]) (simp_all add: cache_loadFile_def)
qed

text \<open>A cache configured with no room is broken: with a maximum of zero, the first load of any
  existing file erases the end iterator of an empty map, which is undefined behaviour.\<close>

theorem cache_without_room:
  assumes "disk path = Some f"
  shows "fst (cache_loadFile lru_evict [] disk now path (new_cache 0)) = Inl Undefined_behaviour"
  using assms by (simp add: cache_loadFile_def cache_hit_def new_cache_def)

subsection \<open>Witnesses\<close>

theorem cache_transparent_witness:
  "fst (cache_loadFile lru_evict [] [''f'' \<mapsto> \<lparr>fs_mtime = 1, fs_text = ''x''\<rparr>] (Instant 3) ''f'' (new_cache 2)) = Inr ''x''"
proof -
  have "iterates [] (ca_entries (new_cache 2))" by (simp add: iterates_def new_cache_def)
  from cache_transparent [OF rtranclp.rtrancl_refl _ this, of _ "''f''" "\<lparr>fs_mtime = 1, fs_text = ''x''\<rparr>"]
  show ?thesis by simp
qed

definition full_cache :: cache where
  "full_cache = \<lparr>ca_entries = [''a'' \<mapsto> \<lparr>ce_content = [], ce_mtime = 0, ce_access = Instant 5\<rparr>,
     ''b'' \<mapsto> \<lparr>ce_content = [], ce_mtime = 0, ce_access = Instant 4\<rparr>], ca_max = 2\<rparr>"

theorem cache_evicts_lru_witness:
  "ca_entries (snd (cache_loadFile lru_evict [''a'', ''b''] [''f'' \<mapsto> \<lparr>fs_mtime = 1, fs_text = ''x''\<rparr>]
     (Instant 6) ''f'' full_cache)) ''b'' = None"
proof -
  let ?m = "ca_entries full_cache" and ?f = "\<lparr>fs_mtime = 1, fs_text = ''x''\<rparr>"
  have order: "iterates [''a'', ''b''] ?m" and miss: "cache_hit full_cache ''f'' ?f = None"
    by (simp_all add: iterates_def full_cache_def cache_hit_def insert_commute)
  have room: "0 < ca_max full_cache" "ca_max full_cache \<le> length [''a'', ''b'']"
    by (simp_all add: full_cache_def)
  have present: "[''f'' \<mapsto> ?f] ''f'' = Some ?f" by simp
  have dom: "dom ?m = {''a'', ''b''}" by (auto simp: full_cache_def)
  have "\<not> access_of ?m ''a'' \<le> access_of ?m ''b''"
    by (simp add: full_cache_def access_of_def less_eq_instant_def)
  then have older: "k = ''b''" if "k \<in> dom ?m" "\<forall>j \<in> dom ?m. access_of ?m k \<le> access_of ?m j" for k
    using that dom by (metis insert_iff singletonD)
  obtain k where k: "k \<in> dom ?m" "\<forall>j \<in> dom ?m. access_of ?m k \<le> access_of ?m j"
    and res: "ca_entries (snd (cache_loadFile lru_evict [''a'', ''b''] [''f'' \<mapsto> ?f] (Instant 6) ''f'' full_cache)) =
      ?m(k := None, ''f'' \<mapsto> \<lparr>ce_content = fs_text ?f, ce_mtime = fs_mtime ?f, ce_access = Instant 6\<rparr>)"
    using cache_evicts_lru [of _ _ "[''f'' \<mapsto> ?f]" "''f''" ?f "Instant 6", OF order room present miss]
    by (elim bexE conjE) (rule that)
  show ?thesis unfolding res older [OF k] by simp
qed

theorem cache_without_room_witness:
  "fst (cache_loadFile lru_evict [] [''f'' \<mapsto> \<lparr>fs_mtime = 1, fs_text = ''x''\<rparr>] (Instant 3) ''f'' (new_cache 0))
     = Inl Undefined_behaviour"
  by (rule cache_without_room [of _ _ "\<lparr>fs_mtime = 1, fs_text = ''x''\<rparr>"]) simp

end
