(* ===== verification/Json.thy ===== *)
theory Json
  imports Numbers
begin

section \<open>JSON values, printing and parsing\<close>

text \<open>
  Models \<^verbatim>\<open>src/util/json.cpp\<close> and \<^verbatim>\<open>include/ynet/util/json.h\<close>. The
  parser is a family of functions over a string and an index into it. The recursion is bounded
  by the nesting depth; the loops over the elements of arrays and objects are written as they
  are, as partial functions that return nothing when they do not end. A read at the end of the
  string gives the terminating null byte, one past that is undefined. Floating point numbers
  are a type parameter \<open>'d\<close>, with the library's \<^verbatim>\<open>std::stod\<close> and
  \<^verbatim>\<open>std::to_string\<close> as arguments. A \<^verbatim>\<open>std::map\<close> is the list of its
  entries in the order of the keys.
\<close>

datatype 'd json =
    JNull
  | JBool bool
  | JInt int
  | JDouble 'd
  | JString string
  | JArray "'d json list"
  | JObject "(string \<times> 'd json) list"

text \<open>The order of strings, byte by byte, and an assignment to an entry of a map.\<close>

fun string_less :: "string \<Rightarrow> string \<Rightarrow> bool" where
  "string_less s [] = False"
| "string_less [] (d # ds) = True"
| "string_less (c # cs) (d # ds) = (ord c < ord d \<or> c = d \<and> string_less cs ds)"

fun map_put :: "string \<Rightarrow> 'v \<Rightarrow> (string \<times> 'v) list \<Rightarrow> (string \<times> 'v) list" where
  "map_put k v [] = [(k, v)]"
| "map_put k v ((k', v') # m) =
     (if k = k' then (k, v) # m
      else if string_less k k' then (k, v) # (k', v') # m
      else (k', v') # map_put k v m)"

subsection \<open>Parsing\<close>

definition char_at :: "string \<Rightarrow> nat \<Rightarrow> char result" where
  "char_at s i =
     (if i < length s then Inr (s ! i) else if i = length s then Inr (CHR 0x00) else Inl Undefined_behaviour)"

definition is_ws :: "char \<Rightarrow> bool" where
  "is_ws c \<longleftrightarrow> c \<in> {CHR '' '', CHR 0x0A, CHR 0x0D, CHR 0x09}"

definition skipWhitespace :: "string \<Rightarrow> nat \<Rightarrow> nat" where
  "skipWhitespace s i = i + length (takeWhile is_ws (drop i s))"

text \<open>The bytes of an escaped code point: a 16 bit number, encoded in one to three bytes.\<close>

definition utf8_bytes :: "nat \<Rightarrow> string" where
  "utf8_bytes cp =
     (if cp < 0x80 then [char_of cp]
      else if cp < 0x800 then [char_of (0xC0 + cp div 64), char_of (0x80 + cp mod 64)]
      else [char_of (0xE0 + cp div 4096), char_of (0x80 + cp div 64 mod 64), char_of (0x80 + cp mod 64)])"

definition simple_escape :: "char \<Rightarrow> char option" where
  "simple_escape c =
     map_of [(CHR 0x22, CHR 0x22), (CHR 0x5C, CHR 0x5C), (CHR ''/'', CHR ''/''), (CHR ''n'', CHR 0x0A),
       (CHR ''r'', CHR 0x0D), (CHR ''t'', CHR 0x09), (CHR ''b'', CHR 0x08), (CHR ''f'', CHR 0x0C)] c"

definition unicode_escape :: "string \<Rightarrow> nat \<Rightarrow> string result" where
  "unicode_escape s i =
     (if i + 4 \<ge> length s then Inl (Runtime_error ''invalid unicode escape'')
      else bind_result (stoul 16 (substr s (i + 1) 4)) (\<lambda>n. Inr (utf8_bytes (n mod 2 ^ 16))))"

function string_loop :: "string \<Rightarrow> nat \<Rightarrow> string \<Rightarrow> (string \<times> nat) result" where
  "string_loop s i data =
     (if i < length s \<and> s ! i \<noteq> CHR 0x22 then
        if s ! i = CHR 0x5C then
          let i1 = i + 1 in
          if i1 \<ge> length s then Inl (Runtime_error ''unexpected end of string'')
          else if s ! i1 = CHR ''u'' then
            (case unicode_escape s i1 of
               Inl e \<Rightarrow> Inl e
             | Inr bytes \<Rightarrow> string_loop s (i1 + 4 + 1) (data @ bytes))
          else
            (case simple_escape (s ! i1) of
               None \<Rightarrow> Inl (Runtime_error ''invalid escape character'')
             | Some c \<Rightarrow> string_loop s (i1 + 1) (data @ [c]))
        else string_loop s (i + 1) (data @ [s ! i])
      else Inr (data, i + 1))"
  by pat_completeness auto
termination
  by (relation "measure (\<lambda>(s, i, data). length s - i)") auto

declare string_loop.simps [simp del]

definition parseString :: "string \<Rightarrow> nat \<Rightarrow> (string \<times> nat) result" where
  "parseString s i = string_loop s (i + 1) []"

definition number_char :: "char \<Rightarrow> bool" where
  "number_char c \<longleftrightarrow> is_digit c \<or> c = CHR ''-'' \<or> c = CHR ''.''"

definition count_char :: "char \<Rightarrow> string \<Rightarrow> nat" where
  "count_char c s = length (filter (\<lambda>x. x = c) s)"

definition parseNumber :: "(string \<Rightarrow> 'd result) \<Rightarrow> string \<Rightarrow> nat \<Rightarrow> ('d json \<times> nat) result" where
  "parseNumber stod s i =
     (let data = takeWhile number_char (drop i s); i' = i + length data in
      if data = [] then Inl (Runtime_error ''invalid number'')
      else if CHR ''-'' \<in> set (tl data) then Inl (Runtime_error ''invalid number'')
      else if count_char (CHR ''.'') data > 1 \<or> count_char (CHR ''-'') data > 1
        then Inl (Runtime_error ''invalid number'')
      else if CHR ''.'' \<in> set data then bind_result (stod data) (\<lambda>d. Inr (JDouble d, i'))
      else bind_result (stoll 10 data) (\<lambda>n. Inr (JInt n, i')))"

text \<open>The loops over elements; \<open>pv\<close> parses one value, one level deeper.\<close>

type_synonym 'd parser = "string \<Rightarrow> nat \<Rightarrow> ('d json \<times> nat) result option"

definition skip_comma :: "string \<Rightarrow> nat \<Rightarrow> nat result" where
  "skip_comma s i =
     bind_result (char_at s (skipWhitespace s i)) (\<lambda>c.
     Inr (skipWhitespace s (skipWhitespace s i + (if c = CHR '','' then 1 else 0))))"

partial_function (option) array_loop ::
  "'d parser \<Rightarrow> string \<Rightarrow> nat \<Rightarrow> 'd json list \<Rightarrow> ('d json list \<times> nat) result option" where
  "array_loop pv s i datas =
     (if i < length s \<and> s ! i \<noteq> CHR '']'' then
        (case pv s i of
           None \<Rightarrow> None
         | Some (Inl e) \<Rightarrow> Some (Inl e)
         | Some (Inr (v, i1)) \<Rightarrow>
             (case skip_comma s i1 of
                Inl e \<Rightarrow> Some (Inl e)
              | Inr i2 \<Rightarrow> array_loop pv s i2 (datas @ [v])))
      else if i \<ge> length s then Some (Inl (Runtime_error ''unexpected end of input''))
      else Some (Inr (datas, i + 1)))"

text \<open>The key of an object's entry and where its value starts.\<close>

definition parse_key :: "string \<Rightarrow> nat \<Rightarrow> (string \<times> nat) result" where
  "parse_key s i =
     (let i1 = skipWhitespace s i in
      if i1 \<ge> length s \<or> s ! i1 \<noteq> CHR 0x22 then Inl (Runtime_error ''expected string key'')
      else bind_result (parseString s i1) (\<lambda>(key, i2).
           bind_result (char_at s (skipWhitespace s i2)) (\<lambda>c.
           Inr (key, skipWhitespace s (skipWhitespace s i2 + (if c = CHR '':'' then 1 else 0))))))"

partial_function (option) object_loop ::
  "'d parser \<Rightarrow> string \<Rightarrow> nat \<Rightarrow> (string \<times> 'd json) list \<Rightarrow> ((string \<times> 'd json) list \<times> nat) result option" where
  "object_loop pv s i datas =
     (if i < length s \<and> s ! i \<noteq> CHR ''}'' then
        (case parse_key s i of
           Inl e \<Rightarrow> Some (Inl e)
         | Inr (key, i1) \<Rightarrow>
             (case pv s i1 of
                None \<Rightarrow> None
              | Some (Inl e) \<Rightarrow> Some (Inl e)
              | Some (Inr (v, i2)) \<Rightarrow>
                  (case skip_comma s i2 of
                     Inl e \<Rightarrow> Some (Inl e)
                   | Inr i3 \<Rightarrow> object_loop pv s i3 (map_put key v datas))))
      else if i \<ge> length s then Some (Inl (Runtime_error ''unexpected end of input''))
      else Some (Inr (datas, i + 1)))"

definition finish :: "('a \<Rightarrow> 'b) \<Rightarrow> ('a \<times> nat) result option \<Rightarrow> ('b \<times> nat) result option" where
  "finish f r = map_option (\<lambda>m. bind_result m (\<lambda>(x, i). Inr (f x, i))) r"

text \<open>The first argument is the number of levels that may still be opened: 65 at the top.\<close>

fun parseValue :: "(string \<Rightarrow> 'd result) \<Rightarrow> nat \<Rightarrow> 'd parser" where
  "parseValue stod 0 s i = Some (Inl (Runtime_error ''max nesting depth exceeded''))"
| "parseValue stod (Suc d) s i =
     (if i \<ge> length s then Some (Inl (Runtime_error ''unexpected end of input''))
      else if s ! i = CHR 0x22 then finish JString (Some (parseString s i))
      else if is_digit (s ! i) \<or> s ! i = CHR ''-'' then Some (parseNumber stod s i)
      else if s ! i = CHR ''['' then finish JArray (array_loop (parseValue stod d) s (i + 1) [])
      else if s ! i = CHR ''{'' then finish JObject (object_loop (parseValue stod d) s (i + 1) [])
      else if s ! i = CHR ''t'' then Some (Inr (JBool True, i + 4))
      else if s ! i = CHR ''f'' then Some (Inr (JBool False, i + 5))
      else if s ! i = CHR ''n'' then Some (Inr (JNull, i + 4))
      else Some (Inl (Runtime_error ''unexpected character'')))"

definition json_parse :: "(string \<Rightarrow> 'd result) \<Rightarrow> string \<Rightarrow> 'd json result option" where
  "json_parse stod json =
     map_option (\<lambda>m. bind_result m (\<lambda>(result, i).
       if skipWhitespace json i \<noteq> length json then Inl (Runtime_error ''trailing characters'')
       else Inr result))
     (parseValue stod 65 json (skipWhitespace json 0))"

subsection \<open>Printing\<close>

definition escape_char :: "char \<Rightarrow> string" where
  "escape_char c =
     (case map_of [(CHR 0x22, CHR 0x22), (CHR 0x5C, CHR 0x5C), (CHR 0x0A, CHR ''n''), (CHR 0x0D, CHR ''r''),
        (CHR 0x09, CHR ''t''), (CHR 0x08, CHR ''b''), (CHR 0x0C, CHR ''f'')] c of
        Some e \<Rightarrow> [CHR 0x5C, e] | None \<Rightarrow> [c])"

definition escapeString :: "string \<Rightarrow> string" where
  "escapeString s = [CHR 0x22] @ concat (map escape_char s) @ [CHR 0x22]"

definition comma_separated :: "string list \<Rightarrow> string" where
  "comma_separated ts = tl (join_with (CHR '','') ts)"

fun stringify :: "('d \<Rightarrow> string) \<Rightarrow> 'd json \<Rightarrow> string" where
  "stringify show_double JNull = ''null''"
| "stringify show_double (JBool v) = (if v then ''true'' else ''false'')"
| "stringify show_double (JInt v) = show_int v"
| "stringify show_double (JDouble v) = show_double v"
| "stringify show_double (JString v) = escapeString v"
| "stringify show_double (JArray v) = ''['' @ comma_separated (map (stringify show_double) v) @ '']''"
| "stringify show_double (JObject v) =
     ''{'' @ comma_separated (map (\<lambda>kv. escapeString (fst kv) @ '':'' @ stringify show_double (snd kv)) v) @ ''}''"

fun toText :: "('d \<Rightarrow> string) \<Rightarrow> 'd json \<Rightarrow> string" where
  "toText show_double JNull = []"
| "toText show_double (JBool v) = (if v then ''true'' else ''false'')"
| "toText show_double (JInt v) = show_int v"
| "toText show_double (JDouble v) = show_double v"
| "toText show_double (JString v) = v"
| "toText show_double (JArray v) = []"
| "toText show_double (JObject v) = []"

subsection \<open>Parsing ends\<close>

text \<open>A parser of values that ends and, when it returns a value, has moved forward.\<close>

definition advances :: "'d parser \<Rightarrow> bool" where
  "advances pv \<longleftrightarrow> (\<forall>s i. pv s i \<noteq> None \<and> (\<forall>v j. pv s i = Some (Inr (v, j)) \<longrightarrow> i < j))"

lemma skipWhitespace_le: "i \<le> skipWhitespace s i"
  by (simp add: skipWhitespace_def)

lemma skip_comma_le:
  assumes "skip_comma s i = Inr j"
  shows "i \<le> j"
proof -
  from assms obtain k where "j = skipWhitespace s (skipWhitespace s i + k)"
    by (auto simp: skip_comma_def bind_result_eq_Inr)
  with skipWhitespace_le [of i s] skipWhitespace_le [of "skipWhitespace s i + k" s] show ?thesis by linarith
qed

text \<open>The steps of the loop over a string, one lemma for each.\<close>

lemma string_loop_end:
  assumes "\<not> (i < length s \<and> s ! i \<noteq> CHR 0x22)"
  shows "string_loop s i data = Inr (data, i + 1)"
  unfolding string_loop.simps [of s i data] by (rule if_not_P [OF assms])

lemma string_loop_plain:
  assumes "i < length s" and "s ! i \<noteq> CHR 0x22" and "s ! i \<noteq> CHR 0x5C"
  shows "string_loop s i data = string_loop s (i + 1) (data @ [s ! i])"
  unfolding string_loop.simps [of s i data] by (simp only: assms if_True if_False simp_thms)

lemma string_loop_escape:
  assumes "i < length s" and "s ! i = CHR 0x5C"
  shows "string_loop s i data =
    (if i + 1 \<ge> length s then Inl (Runtime_error ''unexpected end of string'')
     else if s ! (i + 1) = CHR ''u'' then
       (case unicode_escape s (i + 1) of Inl e \<Rightarrow> Inl e | Inr bytes \<Rightarrow> string_loop s (i + 1 + 4 + 1) (data @ bytes))
     else (case simple_escape (s ! (i + 1)) of
       None \<Rightarrow> Inl (Runtime_error ''invalid escape character'') | Some c \<Rightarrow> string_loop s (i + 1 + 1) (data @ [c])))"
  unfolding string_loop.simps [of s i data] using assms by (simp only: Let_def if_True char.inject simp_thms)

lemma string_loop_less: "string_loop s i data = Inr (t, j) \<Longrightarrow> i < j"
proof (induction "length s - i" arbitrary: i data rule: less_induct)
  case less
  show ?case
  proof (cases "i < length s \<and> s ! i \<noteq> CHR 0x22")
    case True
    have IH: "i < i' \<Longrightarrow> string_loop s i' d' = Inr (t, j) \<Longrightarrow> i < j" for i' d'
      using less.hyps [of i' d'] True by linarith
    show ?thesis
    proof (cases "s ! i = CHR 0x5C")
      case esc: True
      with True less.prems show ?thesis
        by (auto simp: string_loop_escape split: if_splits sum.splits option.splits dest: IH [rotated])
    next
      case False
      with True less.prems show ?thesis by (simp add: string_loop_plain IH [of "i + 1"])
    qed
  qed (use less.prems in \<open>simp add: string_loop_end\<close>)
qed

lemma parseString_less: "parseString s i = Inr (t, j) \<Longrightarrow> i < j"
  by (auto simp: parseString_def dest!: string_loop_less)

lemma parse_key_less:
  assumes "parse_key s i = Inr (k, j)"
  shows "i < j"
proof -
  from assms obtain i2 where str: "parseString s (skipWhitespace s i) = Inr (k, i2)"
    and j: "j \<in> {skipWhitespace s (skipWhitespace s i2), skipWhitespace s (Suc (skipWhitespace s i2))}"
    by (auto simp: parse_key_def Let_def bind_result_eq_Inr split: if_splits)
  have "skipWhitespace s i < i2" using str by (rule parseString_less)
  with j skipWhitespace_le [of i s] skipWhitespace_le [of i2 s]
    skipWhitespace_le [of "skipWhitespace s i2" s] skipWhitespace_le [of "Suc (skipWhitespace s i2)" s]
  show ?thesis by auto
qed

lemma array_loop_ends:
  assumes pv: "advances pv"
  shows "array_loop pv s i datas \<noteq> None \<and> (\<forall>vs j. array_loop pv s i datas = Some (Inr (vs, j)) \<longrightarrow> i < j)"
proof (induction "length s - i" arbitrary: i datas rule: less_induct)
  case less
  show ?case
  proof (cases "i < length s \<and> s ! i \<noteq> CHR '']''")
    case True
    show ?thesis
    proof (cases "\<exists>v i1 i2. pv s i = Some (Inr (v, i1)) \<and> skip_comma s i1 = Inr i2")
      case go: True
      then obtain v i1 i2 where v: "pv s i = Some (Inr (v, i1))" "skip_comma s i1 = Inr i2" by blast
      have "i < i1" "i1 \<le> i2" using v pv skip_comma_le by (auto simp: advances_def)
      with less [of i2 "datas @ [v]"] True v show ?thesis
        by (subst array_loop.simps, subst (2) array_loop.simps) fastforce
    next
      case False
      moreover have "pv s i \<noteq> None" using pv by (simp add: advances_def)
      ultimately show ?thesis
        using True by (subst array_loop.simps, subst (2) array_loop.simps) (auto split: sum.splits prod.splits)
    qed
  next
    case False
    then show ?thesis by (subst array_loop.simps, subst (2) array_loop.simps) auto
  qed
qed

lemma object_loop_ends:
  assumes pv: "advances pv"
  shows "object_loop pv s i datas \<noteq> None \<and> (\<forall>vs j. object_loop pv s i datas = Some (Inr (vs, j)) \<longrightarrow> i < j)"
proof (induction "length s - i" arbitrary: i datas rule: less_induct)
  case less
  show ?case
  proof (cases "i < length s \<and> s ! i \<noteq> CHR ''}''")
    case True
    show ?thesis
    proof (cases "\<exists>k i0 v i1 i2. parse_key s i = Inr (k, i0) \<and> pv s i0 = Some (Inr (v, i1)) \<and> skip_comma s i1 = Inr i2")
      case go: True
      then obtain k i0 v i1 i2 where v: "parse_key s i = Inr (k, i0)" "pv s i0 = Some (Inr (v, i1))"
        "skip_comma s i1 = Inr i2" by blast
      have "i < i0" "i0 < i1" "i1 \<le> i2"
        using v pv skip_comma_le parse_key_less by (auto simp: advances_def)
      with less [of i2 "map_put k v datas"] True v show ?thesis
        by (subst object_loop.simps, subst (2) object_loop.simps) fastforce
    next
      case False
      have "pv s i0 \<noteq> None" for i0 using pv by (simp add: advances_def)
      then have "\<exists>e. object_loop pv s i datas = Some (Inl e)"
        using True False unfolding object_loop.simps [of pv s i datas]
        by (cases "parse_key s i") (force split: sum.splits prod.splits option.splits)+
      then show ?thesis by auto
    qed
  next
    case False
    then show ?thesis by (subst object_loop.simps, subst (2) object_loop.simps) auto
  qed
qed

lemma finish_ends:
  assumes "r \<noteq> None \<and> (\<forall>x j. r = Some (Inr (x, j)) \<longrightarrow> Suc i < j)"
  shows "finish f r \<noteq> None \<and> (\<forall>x j. finish f r = Some (Inr (x, j)) \<longrightarrow> i < j)"
  using assms by (auto simp: finish_def bind_result_eq_Inr)

lemma parseNumber_less:
  assumes "parseNumber stod s i = Inr (v, j)"
  shows "i < j"
  using assms by (auto simp: parseNumber_def Let_def bind_result_eq_Inr split: if_splits)

lemma parseValue_advances:
  fixes stod :: "string \<Rightarrow> 'd result"
  shows "advances (parseValue stod d)"
proof (induction d)
  case 0
  show ?case by (simp add: advances_def)
next
  case (Suc d)
  show ?case
  proof (unfold advances_def, intro allI)
    fix s :: string and i :: nat
    let ?goal = "\<lambda>r :: ('d json \<times> nat) result option. r \<noteq> None \<and> (\<forall>v j. r = Some (Inr (v, j)) \<longrightarrow> i < j)"
    have "?goal (finish JString (Some (parseString s i)))"
      using parseString_less [of s i] by (auto simp: finish_def bind_result_eq_Inr)
    moreover have "?goal (finish JArray (array_loop (parseValue stod d) s (i + 1) []))"
      "?goal (finish JObject (object_loop (parseValue stod d) s (i + 1) []))"
      using array_loop_ends [OF Suc, of s "i + 1"] object_loop_ends [OF Suc, of s "i + 1"]
      by (intro finish_ends; simp)+
    moreover have "?goal (Some (parseNumber stod s i))"
      using parseNumber_less by auto
    ultimately show "?goal (parseValue stod (Suc d) s i)" by simp
  qed
qed

lemma json_parse_ends: "json_parse stod s \<noteq> None"
  using parseValue_advances [of stod 65] by (auto simp: json_parse_def advances_def)

subsection \<open>Reading what was printed\<close>

text \<open>Positions are described by the text that follows them.\<close>

lemma drop_Cons: "drop i s = c # t \<Longrightarrow> i < length s \<and> s ! i = c \<and> drop (i + 1) s = t"
  by (metis Cons_nth_drop_Suc Suc_eq_plus1 drop_eq_Nil leI list.discI list.inject)

lemma drop_append: "drop i s = xs @ t \<Longrightarrow> drop (i + length xs) s = t"
  by (metis add.commute append_eq_conv_conj drop_drop)

lemma skipWhitespace_stop: "drop i s = c # t \<Longrightarrow> \<not> is_ws c \<Longrightarrow> skipWhitespace s i = i"
  by (simp add: skipWhitespace_def)

lemma escape_char_cases:
  obtains "escape_char c = [c]" "c \<noteq> CHR 0x22" "c \<noteq> CHR 0x5C"
  | e where "escape_char c = [CHR 0x5C, e]" "e \<noteq> CHR ''u''" "simple_escape e = Some c"
  by (cases "c \<in> {CHR 0x22, CHR 0x5C, CHR 0x0A, CHR 0x0D, CHR 0x09, CHR 0x08, CHR 0x0C}")
    (auto simp: escape_char_def simple_escape_def)

lemma string_loop_escaped:
  "drop i s = concat (map escape_char t) @ CHR 0x22 # rest \<Longrightarrow>
   string_loop s i data = Inr (data @ t, i + length (concat (map escape_char t)) + 1)"
proof (induction t arbitrary: i data)
  case Nil
  then have "s ! i = CHR 0x22" using drop_Cons by fastforce
  then show ?case by (simp add: string_loop_end)
next
  case (Cons c t)
  show ?case
  proof (cases c rule: escape_char_cases)
    case 1
    with Cons.prems have "i < length s" "s ! i = c"
      "drop (i + 1) s = concat (map escape_char t) @ CHR 0x22 # rest"
      using drop_Cons [of i s c] by simp_all
    with 1 Cons.IH [of "i + 1"] show ?thesis by (simp add: string_loop_plain)
  next
    case (2 e)
    then have d: "drop i s = CHR 0x5C # e # concat (map escape_char t) @ CHR 0x22 # rest"
      using Cons.prems by simp
    from drop_Cons [OF d] have 1: "i < length s" "s ! i = CHR 0x5C"
      "drop (i + 1) s = e # concat (map escape_char t) @ CHR 0x22 # rest" by auto
    from drop_Cons [OF 1(3)] have 3: "i + 1 < length s" "s ! (i + 1) = e"
      "drop (i + 1 + 1) s = concat (map escape_char t) @ CHR 0x22 # rest" by auto
    have "string_loop s i data = string_loop s (i + 1 + 1) (data @ [c])"
      using 2 3(1,2) by (simp only: string_loop_escape [OF 1(1,2)] not_le [THEN iffD2] if_False option.case)
    then show ?thesis using Cons.IH [OF 3(3)] 2(1) by simp
  qed
qed

lemma parseString_escaped:
  assumes "drop i s = escapeString t @ rest"
  shows "parseString s i = Inr (t, i + length (escapeString t))"
proof -
  have "drop (i + 1) s = concat (map escape_char t) @ CHR 0x22 # rest"
    using assms drop_Cons [of i s] by (simp add: escapeString_def)
  from string_loop_escaped [OF this, of "[]"] show ?thesis
    by (simp add: parseString_def escapeString_def)
qed

text \<open>Numbers, followed by something that is not part of a number.\<close>

definition number_ends :: "string \<Rightarrow> bool" where
  "number_ends t \<longleftrightarrow> (t = [] \<or> \<not> number_char (hd t))"

lemma takeWhile_number:
  "\<forall>c \<in> set w. number_char c \<Longrightarrow> number_ends t \<Longrightarrow> takeWhile number_char (w @ t) = w"
  by (cases t) (auto simp: number_ends_def takeWhile_append)

lemma show_nat_number: "c \<in> set (show_nat n) \<Longrightarrow> is_digit c \<and> c \<noteq> CHR ''-'' \<and> c \<noteq> CHR ''.''"
  using show_nat_digits [of c n] by (auto simp: char_class)

lemma parseNumber_int:
  assumes "drop i s = show_int n @ rest" and "number_ends rest" and "- (2 ^ 63) \<le> n" and "n < 2 ^ 63"
  shows "parseNumber stod s i = Inr (JInt n, i + length (show_int n))"
proof -
  have chars: "c \<in> set (show_int n) \<Longrightarrow> number_char c \<and> c \<noteq> CHR ''.''" for c
    using show_nat_number by (auto simp: show_int_def number_char_def split: if_splits)
  then have data: "takeWhile number_char (drop i s) = show_int n"
    unfolding assms(1) using assms(2) by (intro takeWhile_number) auto
  have no_dash: "CHR ''-'' \<notin> set (show_nat m)" for m using show_nat_number by blast
  then have "CHR ''-'' \<notin> set (tl (show_int n))"
    using list.set_sel(2) [OF show_nat_not_Nil] by (auto simp: show_int_def)
  moreover have "CHR ''.'' \<notin> set (show_int n)" using chars by blast
  moreover have "show_int n \<noteq> []" by (simp add: show_int_def)
  moreover have "count_char (CHR ''-'') (show_int n) \<le> 1"
  proof -
    have "count_char (CHR ''-'') (show_nat m) = 0" for m
      using show_nat_number by (auto simp: count_char_def filter_empty_conv)
    then show ?thesis by (simp add: show_int_def count_char_def)
  qed
  moreover have "count_char (CHR ''.'') (show_int n) = 0"
    using chars by (auto simp: count_char_def filter_empty_conv)
  ultimately show ?thesis
    using stoll_show_int [OF assms(3,4)] by (simp add: parseNumber_def Let_def data)
qed

text \<open>A printed floating point number that the scanner reads back.\<close>

definition double_ok :: "(string \<Rightarrow> 'd result) \<Rightarrow> ('d \<Rightarrow> string) \<Rightarrow> 'd \<Rightarrow> bool" where
  "double_ok stod show_double d \<longleftrightarrow>
     (let t = show_double d in t \<noteq> [] \<and> (\<forall>c \<in> set t. number_char c) \<and> hd t \<noteq> CHR ''.''
        \<and> CHR ''-'' \<notin> set (tl t) \<and> count_char (CHR ''.'') t = 1 \<and> stod t = Inr d)"

lemma count_char_tl: "t \<noteq> [] \<Longrightarrow> c \<notin> set (tl t) \<Longrightarrow> count_char c t \<le> 1"
proof (cases t)
  case (Cons x xs)
  assume "c \<notin> set (tl t)"
  then have "filter (\<lambda>x. x = c) xs = []" using Cons by (auto simp: filter_empty_conv)
  then show ?thesis by (simp add: Cons count_char_def)
qed simp

lemma parseNumber_double:
  assumes "drop i s = show_double d @ rest" and "number_ends rest" and "double_ok stod show_double d"
  shows "parseNumber stod s i = Inr (JDouble d, i + length (show_double d))"
proof -
  have data: "takeWhile number_char (drop i s) = show_double d"
    unfolding assms(1) using assms(2,3) by (intro takeWhile_number) (auto simp: double_ok_def Let_def)
  have "CHR ''.'' \<in> set (show_double d)"
  proof (rule ccontr)
    assume "CHR ''.'' \<notin> set (show_double d)"
    then have "count_char (CHR ''.'') (show_double d) = 0" by (auto simp: count_char_def filter_empty_conv)
    with assms(3) show False by (simp add: double_ok_def Let_def)
  qed
  with assms(3) count_char_tl [of "show_double d" "CHR ''-''"] show ?thesis
    by (simp add: parseNumber_def Let_def data double_ok_def)
qed

text \<open>The values that survive: numbers in range, objects in key order, at most \<open>n\<close> levels.\<close>

fun json_ok :: "(string \<Rightarrow> 'd result) \<Rightarrow> ('d \<Rightarrow> string) \<Rightarrow> nat \<Rightarrow> 'd json \<Rightarrow> bool" where
  "json_ok stod sd 0 v = False"
| "json_ok stod sd (Suc n) (JInt i) = (- (2 ^ 63) \<le> i \<and> i < 2 ^ 63)"
| "json_ok stod sd (Suc n) (JDouble d) = double_ok stod sd d"
| "json_ok stod sd (Suc n) (JArray vs) = (\<forall>v \<in> set vs. json_ok stod sd n v)"
| "json_ok stod sd (Suc n) (JObject kvs) =
     ((\<forall>kv \<in> set kvs. json_ok stod sd n (snd kv)) \<and> sorted_wrt (\<lambda>a b. string_less (fst a) (fst b)) kvs)"
| "json_ok stod sd (Suc n) _ = True"

text \<open>What a parser must do for the elements of a container.\<close>

definition reads :: "'d parser \<Rightarrow> ('d \<Rightarrow> string) \<Rightarrow> 'd json \<Rightarrow> bool" where
  "reads pv sd v \<longleftrightarrow> (\<forall>s i rest. drop i s = stringify sd v @ rest \<longrightarrow> number_ends rest \<longrightarrow>
     pv s i = Some (Inr (v, i + length (stringify sd v))))"

definition value_start :: "string \<Rightarrow> bool" where
  "value_start t \<longleftrightarrow> t \<noteq> [] \<and> \<not> is_ws (hd t) \<and> hd t \<noteq> CHR '']'' \<and> hd t \<noteq> CHR ''}''"

lemma number_char_start: "number_char c \<Longrightarrow> \<not> is_ws c \<and> c \<noteq> CHR '']'' \<and> c \<noteq> CHR ''}''"
  by (auto simp: number_char_def is_ws_def char_class)

lemma show_int_start: "show_int n \<noteq> [] \<and> (is_digit (hd (show_int n)) \<or> hd (show_int n) = CHR ''-'')"
  using show_nat_hd by (simp add: show_int_def)

lemma stringify_start: "json_ok stod sd n v \<Longrightarrow> value_start (stringify sd v)"
proof (cases v)
  case (JInt i)
  then show ?thesis
    using show_int_start [of i] number_char_start [of "hd (show_int i)"] by (auto simp: value_start_def number_char_def)
next
  case (JDouble d)
  assume "json_ok stod sd n v"
  with JDouble have "sd d \<noteq> [] \<and> number_char (hd (sd d))" by (cases n) (auto simp: double_ok_def Let_def)
  with JDouble number_char_start [of "hd (sd d)"] show ?thesis by (simp add: value_start_def)
qed (auto simp: value_start_def is_ws_def escapeString_def)

lemma value_start_Cons: "value_start t \<Longrightarrow> \<exists>c u. t = c # u \<and> \<not> is_ws c \<and> c \<noteq> CHR '']'' \<and> c \<noteq> CHR ''}''"
  by (cases t) (auto simp: value_start_def)

lemma ws_other: "\<not> is_ws (CHR '','')" "\<not> is_ws (CHR '']'')" "\<not> is_ws (CHR ''}'')" "\<not> is_ws (CHR '':'')" "\<not> is_ws (CHR 0x22)"
  by (simp_all add: is_ws_def)

lemma skip_comma_comma:
  assumes "drop i s = CHR '','' # t @ rest" and "value_start t"
  shows "skip_comma s i = Inr (i + 1)"
proof -
  from value_start_Cons [OF assms(2)] obtain c u where t: "t = c # u" "\<not> is_ws c" by blast
  from drop_Cons [OF assms(1)] have i: "i < length s" "s ! i = CHR '',''" "drop (i + 1) s = c # u @ rest"
    by (auto simp: t)
  show ?thesis
    using i skipWhitespace_stop [OF assms(1) ws_other(1)] skipWhitespace_stop [OF i(3) t(2)]
    by (simp add: skip_comma_def char_at_def)
qed

lemma skip_comma_none:
  assumes "drop i s = c # t" and "\<not> is_ws c" and "c \<noteq> CHR '',''"
  shows "skip_comma s i = Inr i"
  using drop_Cons [OF assms(1)] skipWhitespace_stop [OF assms(1,2)] assms(3)
  by (simp add: skip_comma_def char_at_def)

lemma comma_separated_simps [simp]:
  "comma_separated [] = []" "comma_separated [t] = t"
  "comma_separated (t # u # us) = t @ CHR '','' # comma_separated (u # us)"
  by (simp_all add: comma_separated_def)

lemma number_ends_other: "number_ends (CHR '','' # t)" "number_ends (CHR '']'' # t)" "number_ends (CHR ''}'' # t)"
  by (simp_all add: number_ends_def number_char_def char_class)

lemma array_loop_printed:
  assumes "\<forall>v \<in> set vs. reads pv sd v \<and> value_start (stringify sd v)"
    and "drop i s = comma_separated (map (stringify sd) vs) @ CHR '']'' # rest"
  shows "array_loop pv s i datas =
    Some (Inr (datas @ vs, i + length (comma_separated (map (stringify sd) vs)) + 1))"
  using assms
proof (induction vs arbitrary: i datas)
  case Nil
  then have "i < length s" "s ! i = CHR '']''" using drop_Cons [of i s "CHR '']''"] by auto
  then show ?case by (subst array_loop.simps) simp
next
  case (Cons v vs)
  let ?t = "stringify sd v" and ?i1 = "i + length (stringify sd v)"
  from Cons.prems(1) value_start_Cons [of ?t] obtain c u where t: "?t = c # u" "c \<noteq> CHR '']''" by auto
  have d: "drop i s = c # tl (drop i s)" using Cons.prems(2) by (cases vs) (simp_all add: t)
  note go = drop_Cons [OF d]
  show ?case
  proof (cases vs)
    case Nil
    then have d1: "drop i s = ?t @ CHR '']'' # rest" using Cons.prems(2) by simp
    then have "pv s i = Some (Inr (v, ?i1))"
      using Cons.prems(1) number_ends_other by (auto simp: reads_def)
    moreover have d2: "drop ?i1 s = CHR '']'' # rest" by (rule drop_append [OF d1])
    ultimately have "array_loop pv s i datas = array_loop pv s ?i1 (datas @ [v])"
      using go t(2) skip_comma_none [OF d2 ws_other(2)] by (subst array_loop.simps) simp
    then show ?thesis using Cons.IH [of ?i1] d2 Nil by simp
  next
    case (Cons w ws)
    let ?rest = "comma_separated (map (stringify sd) (w # ws)) @ CHR '']'' # rest"
    have d1: "drop i s = ?t @ CHR '','' # ?rest" using Cons Cons.prems(2) by simp
    then have "pv s i = Some (Inr (v, ?i1))"
      using Cons.prems(1) number_ends_other by (auto simp: reads_def)
    moreover have d2: "drop ?i1 s = CHR '','' # ?rest" by (rule drop_append [OF d1])
    moreover have "?rest = stringify sd w @ drop (length (stringify sd w)) ?rest" by (cases ws) simp_all
    ultimately have "array_loop pv s i datas = array_loop pv s (?i1 + 1) (datas @ [v])"
      using go t(2) skip_comma_comma [of ?i1 s "stringify sd w" "drop (length (stringify sd w)) ?rest"]
        Cons.prems(1) Cons by (subst array_loop.simps) simp
    moreover have "drop (?i1 + 1) s = ?rest" using drop_Cons [OF d2] by simp
    ultimately show ?thesis using Cons.IH [of "?i1 + 1" "datas @ [v]"] Cons.prems(1) Cons by simp
  qed
qed

text \<open>Objects: the entries come in key order, so each one is added at the end.\<close>

lemma string_less_irrefl: "\<not> string_less s s"
  by (induction s) auto

lemma string_less_asym: "string_less s t \<Longrightarrow> \<not> string_less t s"
  by (induction s t rule: string_less.induct) auto

lemma map_put_last:
  "\<forall>kv \<in> set m. string_less (fst kv) k \<Longrightarrow> map_put k v m = m @ [(k, v)]"
proof (induction m)
  case (Cons kv m)
  then show ?case
    using string_less_irrefl string_less_asym [of "fst kv" k] by (cases kv) auto
qed simp

definition entry_text :: "('d \<Rightarrow> string) \<Rightarrow> string \<times> 'd json \<Rightarrow> string" where
  "entry_text sd kv = escapeString (fst kv) @ '':'' @ stringify sd (snd kv)"

lemma parse_key_printed:
  assumes "drop i s = entry_text sd kv @ rest" and "value_start (stringify sd (snd kv))"
  shows "parse_key s i = Inr (fst kv, i + length (escapeString (fst kv)) + 1)"
    and "drop (i + length (escapeString (fst kv)) + 1) s = stringify sd (snd kv) @ rest"
proof -
  let ?key = "escapeString (fst kv)" and ?i2 = "i + length (escapeString (fst kv))"
  have d: "drop i s = ?key @ CHR '':'' # stringify sd (snd kv) @ rest"
    using assms(1) by (simp add: entry_text_def)
  then have d0: "drop i s = CHR 0x22 # drop 1 ?key @ CHR '':'' # stringify sd (snd kv) @ rest"
    by (simp add: escapeString_def)
  note str = parseString_escaped [OF d]
  have d2: "drop ?i2 s = CHR '':'' # stringify sd (snd kv) @ rest" by (rule drop_append [OF d])
  from value_start_Cons [OF assms(2)] obtain c u where t: "stringify sd (snd kv) = c # u" "\<not> is_ws c" by blast
  from drop_Cons [OF d2] have d3: "drop (?i2 + 1) s = c # u @ rest" by (simp add: t)
  show "parse_key s i = Inr (fst kv, ?i2 + 1)"
    using drop_Cons [OF d0] drop_Cons [OF d2] skipWhitespace_stop [OF d0 ws_other(5)] str
      skipWhitespace_stop [OF d2 ws_other(4)] skipWhitespace_stop [OF d3 t(2)]
    by (simp add: parse_key_def char_at_def)
  show "drop (?i2 + 1) s = stringify sd (snd kv) @ rest" using d3 by (simp add: t)
qed

lemma object_loop_printed:
  assumes "\<forall>kv \<in> set kvs. reads pv sd (snd kv) \<and> value_start (stringify sd (snd kv))"
    and "drop i s = comma_separated (map (entry_text sd) kvs) @ CHR ''}'' # rest"
    and "sorted_wrt (\<lambda>a b. string_less (fst a) (fst b)) (datas @ kvs)"
  shows "object_loop pv s i datas =
    Some (Inr (datas @ kvs, i + length (comma_separated (map (entry_text sd) kvs)) + 1))"
  using assms
proof (induction kvs arbitrary: i datas)
  case Nil
  then have "i < length s" "s ! i = CHR ''}''" using drop_Cons [of i s "CHR ''}''"] by auto
  then show ?case by (subst object_loop.simps) simp
next
  case (Cons kv kvs)
  let ?t = "entry_text sd kv" and ?i1 = "i + length (entry_text sd kv)"
  let ?more = "if kvs = [] then CHR ''}'' # rest
    else CHR '','' # comma_separated (map (entry_text sd) kvs) @ CHR ''}'' # rest"
  have d1: "drop i s = ?t @ ?more" using Cons.prems(2) by (cases kvs) simp_all
  have "drop i s = CHR 0x22 # tl (drop i s)" unfolding d1 by (simp add: entry_text_def escapeString_def)
  note go = drop_Cons [OF this]
  have start: "value_start (stringify sd (snd kv))" using Cons.prems(1) by simp
  note key = parse_key_printed [OF d1 start]
  have "pv s (i + length (escapeString (fst kv)) + 1) =
      Some (Inr (snd kv, i + length (escapeString (fst kv)) + 1 + length (stringify sd (snd kv))))"
    using Cons.prems(1) key(2) number_ends_other unfolding reads_def by (cases kvs) auto
  then have val: "pv s (i + length (escapeString (fst kv)) + 1) = Some (Inr (snd kv, ?i1))"
    by (simp add: entry_text_def)
  have put: "map_put (fst kv) (snd kv) datas = datas @ [kv]"
    using Cons.prems(3) by (subst map_put_last) (auto simp: sorted_wrt_append)
  have d2: "drop ?i1 s = ?more" by (rule drop_append [OF d1])
  show ?case
  proof (cases kvs)
    case Nil
    then have d3: "drop ?i1 s = CHR ''}'' # rest" using d2 by simp
    have "object_loop pv s i datas = object_loop pv s ?i1 (datas @ [kv])"
      using go key(1) val put skip_comma_none [OF d3 ws_other(3)] by (subst object_loop.simps) simp
    then show ?thesis using Cons.IH [of ?i1 "datas @ [kv]"] d3 Nil Cons.prems(3) by simp
  next
    case (Cons w ws)
    let ?rest = "comma_separated (map (entry_text sd) (w # ws)) @ CHR ''}'' # rest"
    have d3: "drop ?i1 s = CHR '','' # ?rest" using Cons d2 by simp
    moreover have "?rest = entry_text sd w @ drop (length (entry_text sd w)) ?rest" by (cases ws) simp_all
    moreover have "value_start (entry_text sd w)"
      by (simp add: value_start_def entry_text_def escapeString_def is_ws_def)
    ultimately have "skip_comma s ?i1 = Inr (?i1 + 1)" by (metis skip_comma_comma)
    then have "object_loop pv s i datas = object_loop pv s (?i1 + 1) (datas @ [kv])"
      using go key(1) val put by (subst object_loop.simps) simp
    moreover have "drop (?i1 + 1) s = ?rest" using drop_Cons [OF d3] by simp
    ultimately show ?thesis
      using Cons.IH [of "?i1 + 1" "datas @ [kv]"] Cons.prems(1,3) Cons by simp
  qed
qed

lemma parseValue_reads: "json_ok stod sd n v \<Longrightarrow> reads (parseValue stod n) sd v"
proof (induction n arbitrary: v)
  case 0
  then show ?case by simp
next
  case (Suc n)
  show ?case
  proof (unfold reads_def, intro allI impI)
    fix s i rest
    assume d: "drop i s = stringify sd v @ rest" and ends: "number_ends rest"
    have first: "i < length s \<and> s ! i = c \<and> drop (i + 1) s = t @ rest" if "stringify sd v = c # t" for c t
      using d that drop_Cons [of i s c] by simp
    show "parseValue stod (Suc n) s i = Some (Inr (v, i + length (stringify sd v)))"
    proof (cases v)
      case JNull
      then show ?thesis using first [of "CHR ''n''"] by (simp add: char_class)
    next
      case (JBool b)
      then show ?thesis using first [of "CHR ''t''"] first [of "CHR ''f''"] by (cases b) (simp_all add: char_class)
    next
      case (JInt k)
      have "s ! i = hd (show_int k) \<and> i < length s"
        using first [of "hd (show_int k)" "tl (show_int k)"] show_int_start [of k] by (simp add: JInt)
      then show ?thesis
        using JInt Suc.prems d ends parseNumber_int [of i s k rest stod] show_int_start [of k]
        by (auto simp: char_class)
    next
      case (JDouble x)
      then have ok: "double_ok stod sd x" using Suc.prems by simp
      then have start: "sd x \<noteq> []" "is_digit (hd (sd x)) \<or> hd (sd x) = CHR ''-''"
        by (auto simp: double_ok_def Let_def number_char_def dest: hd_in_set)
      then have "s ! i = hd (sd x) \<and> i < length s"
        using first [of "hd (sd x)" "tl (sd x)"] by (simp add: JDouble)
      then show ?thesis
        using JDouble d ends parseNumber_double [of i s sd x rest stod] start ok by (auto simp: char_class)
    next
      case (JString t)
      then show ?thesis
        using first [of "CHR 0x22"] d parseString_escaped [of i s t rest]
        by (simp add: escapeString_def finish_def)
    next
      case (JArray vs)
      have elems: "\<forall>v \<in> set vs. reads (parseValue stod n) sd v \<and> value_start (stringify sd v)"
        using Suc JArray stringify_start by fastforce
      have "drop (i + 1) s = comma_separated (map (stringify sd) vs) @ CHR '']'' # rest"
        "i < length s" "s ! i = CHR ''[''"
        using first [of "CHR ''[''"] by (simp_all add: JArray)
      then show ?thesis
        using array_loop_printed [OF elems, of "i + 1" s rest "[]"]
        by (simp add: JArray finish_def char_class)
    next
      case (JObject kvs)
      have elems: "\<forall>kv \<in> set kvs. reads (parseValue stod n) sd (snd kv) \<and> value_start (stringify sd (snd kv))"
        using Suc JObject stringify_start by fastforce
      have text_eq: "stringify sd v = ''{'' @ comma_separated (map (entry_text sd) kvs) @ ''}''"
        by (simp add: JObject entry_text_def [abs_def])
      have "drop (i + 1) s = comma_separated (map (entry_text sd) kvs) @ CHR ''}'' # rest"
        "i < length s" "s ! i = CHR ''{''"
        using first [of "CHR ''{''"] by (simp_all add: text_eq)
      moreover have "sorted_wrt (\<lambda>a b. string_less (fst a) (fst b)) kvs" using Suc.prems JObject by simp
      ultimately show ?thesis
        using object_loop_printed [OF elems, of "i + 1" s rest "[]"] JObject
        unfolding text_eq by (simp add: finish_def char_class)
    qed
  qed
qed

subsection \<open>Properties\<close>

text \<open>C31. Parsing terminates on every input: the recursion and the loops over elements end, with
  a value or an exception.\<close>

theorem json_parse_terminates: "\<exists>r. json_parse stod s = Some r"
  using json_parse_ends by blast

text \<open>C15. JSON round trip: what \<open>stringify\<close> prints, \<open>parse\<close> reads back as the same value, for
  strings with any bytes, integers of 64 bits, floating point numbers whose printed form the
  library reads back, and arrays and objects nested at most 64 deep.\<close>

theorem json_roundtrip:
  assumes "json_ok stod show_double 65 v"
  shows "json_parse stod (stringify show_double v) = Some (Inr v)"
proof -
  let ?s = "stringify show_double v"
  obtain c u where "?s = c # u" "\<not> is_ws c"
    using value_start_Cons [OF stringify_start [OF assms]] by blast
  then have "skipWhitespace ?s 0 = 0" by (intro skipWhitespace_stop) simp_all
  moreover have "parseValue stod 65 ?s 0 = Some (Inr (v, length ?s))"
    using parseValue_reads [OF assms] by (auto simp: reads_def number_ends_def)
  moreover have "skipWhitespace ?s (length ?s) = length ?s" by (simp add: skipWhitespace_def)
  ultimately show ?thesis by (simp add: json_parse_def)
qed

text \<open>What the parser accepts and rejects beyond the grammar: the letters after \<open>t\<close> are not
  looked at, a missing comma is not noticed, white space after an opening bracket is an error, and
  a truncated literal in an array makes the parser read past the end of the string.\<close>

theorem json_not_strict:
  fixes stod :: "string \<Rightarrow> 'd result"
  shows "json_parse stod [CHR ''t'', a, b, c] = Some (Inr (JBool True))
    \<and> json_parse stod ''[nullnull]'' = Some (Inr (JArray [JNull, JNull]))
    \<and> json_parse stod ''[ 1]'' = Some (Inl (Runtime_error ''unexpected character''))
    \<and> json_parse stod ''[t'' = Some (Inl Undefined_behaviour)"
proof -
  note levels = parseValue.simps(2) [of stod 64, simplified] parseValue.simps(2) [of stod 63, simplified]
  have start: "skipWhitespace s 0 = 0" if "s \<noteq> []" "\<not> is_ws (hd s)" for s
    using that by (cases s) (simp_all add: skipWhitespace_def)
  have "json_parse stod [CHR ''t'', a, b, c] = Some (Inr (JBool True))"
    by (simp add: json_parse_def levels start is_ws_def skipWhitespace_def char_class)
  moreover have "array_loop (parseValue stod 64) ''[nullnull]'' 9 [JNull, JNull] = Some (Inr ([JNull, JNull], 10))"
    by (subst array_loop.simps) simp
  then have "array_loop (parseValue stod 64) ''[nullnull]'' 5 [JNull] = Some (Inr ([JNull, JNull], 10))"
    by (subst array_loop.simps) (simp add: levels skip_comma_def skipWhitespace_def is_ws_def char_at_def char_class)
  then have "array_loop (parseValue stod 64) ''[nullnull]'' 1 [] = Some (Inr ([JNull, JNull], 10))"
    by (subst array_loop.simps) (simp add: levels skip_comma_def skipWhitespace_def is_ws_def char_at_def char_class)
  then have "json_parse stod ''[nullnull]'' = Some (Inr (JArray [JNull, JNull]))"
    by (simp add: json_parse_def levels(1) start is_ws_def skipWhitespace_def char_class finish_def)
  moreover have "array_loop (parseValue stod 64) ''[ 1]'' 1 [] = Some (Inl (Runtime_error ''unexpected character''))"
    by (subst array_loop.simps) (simp add: levels char_class)
  then have "json_parse stod ''[ 1]'' = Some (Inl (Runtime_error ''unexpected character''))"
    by (simp add: json_parse_def levels(1) start is_ws_def char_class finish_def)
  moreover have "array_loop (parseValue stod 64) ''[t'' 1 [] = Some (Inl Undefined_behaviour)"
    by (subst array_loop.simps) (simp add: levels char_class skip_comma_def skipWhitespace_def char_at_def)
  then have "json_parse stod ''[t'' = Some (Inl Undefined_behaviour)"
    by (simp add: json_parse_def levels(1) start is_ws_def char_class finish_def)
  ultimately show ?thesis by blast
qed

text \<open>The witness of the round trip, with floating point numbers left out.\<close>

theorem json_roundtrip_witness:
  "json_parse (\<lambda>s. Inl Invalid_argument :: unit result) (stringify (\<lambda>d :: unit. []) (JObject [(''a'', JArray [JInt (-3), JNull]), (''b'', JString [CHR 0x22])]))
     = Some (Inr (JObject [(''a'', JArray [JInt (-3), JNull]), (''b'', JString [CHR 0x22])]))"
proof -
  have "json_ok (\<lambda>s. Inl Invalid_argument :: unit result) (\<lambda>d :: unit. []) (Suc (Suc (Suc n)))
      (JObject [(''a'', JArray [JInt (-3), JNull]), (''b'', JString [CHR 0x22])])" for n
    by simp
  from this [of 62] have "json_ok (\<lambda>s. Inl Invalid_argument :: unit result) (\<lambda>d :: unit. []) 65
      (JObject [(''a'', JArray [JInt (-3), JNull]), (''b'', JString [CHR 0x22])])" by simp
  then show ?thesis by (rule json_roundtrip)
qed

end
