(* ===== verification/Template_Engine.thy ===== *)
theory Template_Engine
  imports Json
begin

section \<open>The template engine\<close>

text \<open>
  Models \<^verbatim>\<open>src/util/template_engine.cpp\<close>. \<open>renderString\<close> calls itself for
  blocks and for partial templates, which are loaded from files and may include each other
  without end, so it is given a bound on the depth of the calls and returns nothing when the
  bound is exceeded; the loop over one template advances and needs none. Loading a file is
  \<open>load\<close>, the cache's \<open>loadFile\<close>, which may throw and changes the cache, of type \<open>'c\<close>.
  What a floating point number is worth as a condition and how it is printed is the record
  \<open>tmpl_env\<close>.
\<close>

record 'd tmpl_env =
  te_show :: "'d \<Rightarrow> string"
  te_nonzero :: "'d \<Rightarrow> bool"

type_synonym 'c loader = "string \<Rightarrow> 'c \<Rightarrow> string result \<times> 'c"
type_synonym ('d, 'c) renderer = "string \<Rightarrow> 'd json \<Rightarrow> 'c \<Rightarrow> (string result \<times> 'c) option"

definition trim :: "string \<Rightarrow> string result" where
  "trim s =
     (case (find_first_not_of s [CHR '' '', CHR 0x09] 0, find_last_not_of s [CHR '' '', CHR 0x09]) of
        (Some first, Some end_at) \<Rightarrow> substr_at s first (Some (end_at - first + 1))
      | _ \<Rightarrow> Inl Out_of_range)"

definition html_char :: "char \<Rightarrow> string" where
  "html_char c =
     (if c = CHR ''<'' then ''&lt;'' else if c = CHR ''>'' then ''&gt;'' else if c = CHR ''&'' then ''&amp;''
      else if c = CHR 0x22 then ''&quot;'' else if c = CHR 0x27 then ''&#39;'' else [c])"

definition htmlEscape :: "string \<Rightarrow> string" where
  "htmlEscape s = concat (map html_char s)"

fun isTruthy :: "('d \<Rightarrow> bool) \<Rightarrow> 'd json \<Rightarrow> bool" where
  "isTruthy nonzero JNull = False"
| "isTruthy nonzero (JBool v) = v"
| "isTruthy nonzero (JInt v) = (v \<noteq> 0)"
| "isTruthy nonzero (JDouble v) = nonzero v"
| "isTruthy nonzero (JString v) = (v \<noteq> [])"
| "isTruthy nonzero (JArray v) = (v \<noteq> [])"
| "isTruthy nonzero (JObject v) = (v \<noteq> [])"

text \<open>\<^verbatim>\<open>std::get\<close> on a value of another type throws.\<close>

fun get_object :: "'d json \<Rightarrow> (string \<times> 'd json) list result" where
  "get_object (JObject v) = Inr v"
| "get_object _ = Inl Bad_variant_access"

fun get_array :: "'d json \<Rightarrow> 'd json list result" where
  "get_array (JArray v) = Inr v"
| "get_array _ = Inl Bad_variant_access"

text \<open>The text that replaces a variable, after \<open>f\<close>.\<close>

definition variable :: "(string \<Rightarrow> string) \<Rightarrow> 'd tmpl_env \<Rightarrow> string \<Rightarrow> (string \<times> 'd json) list \<Rightarrow> string result" where
  "variable f E key_name obj =
     bind_result (trim key_name) (\<lambda>k.
     Inr (case map_of obj k of None \<Rightarrow> [] | Some v \<Rightarrow> f (toText (te_show E) v)))"

definition if_open :: string where "if_open = ''#if ''"
definition if_close :: string where "if_close = ''{{/if}}''"
definition each_open :: string where "each_open = ''#each ''"
definition each_close :: string where "each_close = ''{{/each}}''"

text \<open>The items of a block \<open>#each\<close>, one after the other.\<close>

fun each_items :: "('d, 'c) renderer \<Rightarrow> string \<Rightarrow> 'd json list \<Rightarrow> string \<Rightarrow> 'c \<Rightarrow> (string result \<times> 'c) option" where
  "each_items rs block [] result c = Some (Inr result, c)"
| "each_items rs block (item # items) result c =
     (case rs block item c of
        None \<Rightarrow> None
      | Some (Inl e, c') \<Rightarrow> Some (Inl e, c')
      | Some (Inr t, c') \<Rightarrow> each_items rs block items (result @ t) c')"

text \<open>
  What a tag between double braces at \<open>stop\<close> does: it ends the loop with an exception, breaks out
  of it, or adds text and goes on at a position.
\<close>

datatype 'c tag_outcome = Tag_throws exn 'c | Tag_breaks | Tag_adds string nat 'c

fun adds :: "nat \<Rightarrow> (string result \<times> 'c) option \<Rightarrow> 'c tag_outcome option" where
  "adds pos None = None"
| "adds pos (Some (Inl e, c)) = Some (Tag_throws e c)"
| "adds pos (Some (Inr t, c)) = Some (Tag_adds t pos c)"

definition if_tag ::
  "('d, 'c) renderer \<Rightarrow> 'd tmpl_env \<Rightarrow> string \<Rightarrow> 'd json \<Rightarrow> (string \<times> 'd json) list \<Rightarrow> string \<Rightarrow> nat \<Rightarrow> 'c \<Rightarrow> 'c tag_outcome option" where
  "if_tag rs E tmpl vars obj key_name stop c =
     (case trim (drop 4 key_name) of
        Inl e \<Rightarrow> Some (Tag_throws e c)
      | Inr var_name \<Rightarrow>
          (case find_from tmpl if_close (stop + 2) of
             None \<Rightarrow> Some Tag_breaks
           | Some if_end \<Rightarrow>
               (case map_of obj var_name of
                  Some v \<Rightarrow>
                    if isTruthy (te_nonzero E) v
                    then adds (if_end + 7) (rs (substr tmpl (stop + 2) (if_end - stop - 2)) vars c)
                    else Some (Tag_adds [] (if_end + 7) c)
                | None \<Rightarrow> Some (Tag_adds [] (if_end + 7) c))))"

definition each_tag ::
  "('d, 'c) renderer \<Rightarrow> string \<Rightarrow> (string \<times> 'd json) list \<Rightarrow> string \<Rightarrow> nat \<Rightarrow> 'c \<Rightarrow> 'c tag_outcome option" where
  "each_tag rs tmpl obj key_name stop c =
     (case trim (drop 6 key_name) of
        Inl e \<Rightarrow> Some (Tag_throws e c)
      | Inr var_name \<Rightarrow>
          (case find_from tmpl each_close (stop + 2) of
             None \<Rightarrow> Some Tag_breaks
           | Some each_end \<Rightarrow>
               (case map_of obj var_name of
                  Some v \<Rightarrow>
                    (case get_array v of
                       Inl e \<Rightarrow> Some (Tag_throws e c)
                     | Inr arr \<Rightarrow>
                         adds (each_end + 9)
                           (each_items rs (substr tmpl (stop + 2) (each_end - stop - 2)) arr [] c))
                | None \<Rightarrow> Some (Tag_adds [] (each_end + 9) c))))"

definition partial_tag ::
  "('d, 'c) renderer \<Rightarrow> 'c loader \<Rightarrow> 'd json \<Rightarrow> string \<Rightarrow> nat \<Rightarrow> 'c \<Rightarrow> 'c tag_outcome option" where
  "partial_tag rs load vars key_name stop c =
     (case trim (drop 2 key_name) of
        Inl e \<Rightarrow> Some (Tag_throws e c)
      | Inr file_name \<Rightarrow>
          (case load file_name c of
             (Inl e, c') \<Rightarrow> Some (Tag_throws e c')
           | (Inr text, c') \<Rightarrow> adds (stop + 2) (rs text vars c')))"

definition double_tag ::
  "('d, 'c) renderer \<Rightarrow> 'c loader \<Rightarrow> 'd tmpl_env \<Rightarrow> string \<Rightarrow> 'd json \<Rightarrow> string \<Rightarrow> nat \<Rightarrow> 'c \<Rightarrow> 'c tag_outcome option" where
  "double_tag rs load E tmpl vars key_name stop c =
     (case get_object vars of
        Inl e \<Rightarrow> Some (Tag_throws e c)
      | Inr obj \<Rightarrow>
          if prefix if_open key_name then if_tag rs E tmpl vars obj key_name stop c
          else if prefix each_open key_name then each_tag rs tmpl obj key_name stop c
          else if prefix ''> '' key_name then partial_tag rs load vars key_name stop c
          else adds (stop + 2) (Some (variable htmlEscape E key_name obj, c)))"

definition triple_tag :: "'d tmpl_env \<Rightarrow> 'd json \<Rightarrow> string \<Rightarrow> nat \<Rightarrow> 'c \<Rightarrow> 'c tag_outcome option" where
  "triple_tag E vars key_name stop c =
     (case get_object vars of
        Inl e \<Rightarrow> Some (Tag_throws e c)
      | Inr obj \<Rightarrow> adds (stop + 3) (Some (variable (\<lambda>t. t) E key_name obj, c)))"

definition tag ::
  "('d, 'c) renderer \<Rightarrow> 'c loader \<Rightarrow> 'd tmpl_env \<Rightarrow> string \<Rightarrow> 'd json \<Rightarrow> nat \<Rightarrow> 'c \<Rightarrow> 'c tag_outcome option" where
  "tag rs load E tmpl vars start c =
     (if start + 2 < length tmpl \<and> tmpl ! (start + 2) = CHR ''{''
      then (case find_from tmpl ''}}}'' start of
              None \<Rightarrow> Some Tag_breaks
            | Some stop \<Rightarrow> triple_tag E vars (substr tmpl (start + 3) (stop - start - 3)) stop c)
      else (case find_from tmpl ''}}'' start of
              None \<Rightarrow> Some Tag_breaks
            | Some stop \<Rightarrow>
                double_tag rs load E tmpl vars (substr tmpl (start + 2) (stop - start - 2)) stop c))"

text \<open>Every tag that adds text goes on behind its opening braces.\<close>

lemma adds_pos: "adds pos r = Some (Tag_adds t pos' c') \<Longrightarrow> pos' = pos"
  by (cases "(pos, r)" rule: adds.cases) auto

lemma tag_advances:
  assumes "tag rs load E tmpl vars start c = Some (Tag_adds t pos c')"
  shows "start < pos"
  using assms
  by (auto simp: tag_def triple_tag_def double_tag_def if_tag_def each_tag_def partial_tag_def
    split: if_splits option.splits sum.splits prod.splits dest!: adds_pos find_from_bounds)

function render_loop ::
  "('d, 'c) renderer \<Rightarrow> 'c loader \<Rightarrow> 'd tmpl_env \<Rightarrow> string \<Rightarrow> 'd json \<Rightarrow> nat \<Rightarrow> string \<Rightarrow> 'c \<Rightarrow> (string result \<times> 'c) option" where
  "render_loop rs load E tmpl vars pos result c =
     (case find_from tmpl ''{{'' pos of
        None \<Rightarrow> Some (Inr (result @ drop pos tmpl), c)
      | Some start \<Rightarrow>
          (let result' = result @ substr tmpl pos (start - pos) in
           case tag rs load E tmpl vars start c of
             None \<Rightarrow> None
           | Some (Tag_throws e c') \<Rightarrow> Some (Inl e, c')
           | Some Tag_breaks \<Rightarrow> Some (Inr (result' @ drop pos tmpl), c)
           | Some (Tag_adds t pos' c') \<Rightarrow> render_loop rs load E tmpl vars pos' (result' @ t) c'))"
  by pat_completeness auto
termination
  by (relation "measure (\<lambda>(rs, load, E, tmpl, vars, pos, result, c). length tmpl - pos)")
    (auto dest!: tag_advances find_from_bounds)

declare render_loop.simps [simp del]

fun renderString :: "nat \<Rightarrow> 'c loader \<Rightarrow> 'd tmpl_env \<Rightarrow> ('d, 'c) renderer" where
  "renderString 0 load E tmpl vars c = None"
| "renderString (Suc n) load E tmpl vars c = render_loop (renderString n load E) load E tmpl vars 0 [] c"

definition render :: "nat \<Rightarrow> 'c loader \<Rightarrow> 'd tmpl_env \<Rightarrow> string \<Rightarrow> 'd json \<Rightarrow> 'c \<Rightarrow> (string result \<times> 'c) option" where
  "render n load E file_path vars c =
     (case load file_path c of
        (Inl e, c') \<Rightarrow> Some (Inl e, c')
      | (Inr tmpl, c') \<Rightarrow> renderString n load E tmpl vars c')"

subsection \<open>Escaping\<close>

text \<open>What a browser shows for escaped text.\<close>

function html_unescape :: "string \<Rightarrow> string" where
  "html_unescape s =
     (if s = [] then []
      else if prefix ''&lt;'' s then CHR ''<'' # html_unescape (drop 4 s)
      else if prefix ''&gt;'' s then CHR ''>'' # html_unescape (drop 4 s)
      else if prefix ''&amp;'' s then CHR ''&'' # html_unescape (drop 5 s)
      else if prefix ''&quot;'' s then CHR 0x22 # html_unescape (drop 6 s)
      else if prefix ''&#39;'' s then CHR 0x27 # html_unescape (drop 5 s)
      else hd s # html_unescape (tl s))"
  by pat_completeness auto
termination
  by (relation "measure length") auto

declare html_unescape.simps [simp del]

lemma html_unescape_char: "html_unescape (html_char c @ t) = c # html_unescape t"
  by (subst html_unescape.simps) (auto simp: html_char_def)

lemma html_unescape_escape: "html_unescape (htmlEscape s) = s"
proof (induction s)
  case Nil
  show ?case by (subst html_unescape.simps) (simp add: htmlEscape_def)
next
  case (Cons c s)
  then show ?case using html_unescape_char [of c "htmlEscape s"] by (simp add: htmlEscape_def)
qed

interpretation html: codec htmlEscape html_unescape
  by unfold_locales (rule html_unescape_escape)

lemma html_char_safe: "set (html_char c) \<inter> {CHR ''<'', CHR ''>'', CHR 0x22, CHR 0x27} = {}"
  by (simp add: html_char_def)

lemma htmlEscape_safe: "set (htmlEscape s) \<inter> {CHR ''<'', CHR ''>'', CHR 0x22, CHR 0x27} = {}"
  using html_char_safe by (fastforce simp: htmlEscape_def)

text \<open>
  What a variable between two braces puts into a page contains no character that opens or
  closes a tag or a quoted attribute, whatever the value is, and a browser shows the value itself.
\<close>

theorem htmlEscape_escapes:
  "set (htmlEscape s) \<inter> {CHR ''<'', CHR ''>'', CHR 0x22, CHR 0x27} = {} \<and> html_unescape (htmlEscape s) = s"
  using htmlEscape_safe by (simp add: html.dec_enc)

subsection \<open>The meaning of a template\<close>

text \<open>
  The reference: a template is a list of tags, each with the plain text in front of it, and a
  plain text at the end; the tags are rendered from left to right.
\<close>

datatype piece = Var string | Raw string | If_block string string | Each_block string string | Partial string

fun piece_text :: "piece \<Rightarrow> string" where
  "piece_text (Var k) = ''{{'' @ k @ ''}}''"
| "piece_text (Raw k) = ''{{{'' @ k @ ''}}}''"
| "piece_text (If_block k b) = ''{{'' @ if_open @ k @ ''}}'' @ b @ if_close"
| "piece_text (Each_block k b) = ''{{'' @ each_open @ k @ ''}}'' @ b @ each_close"
| "piece_text (Partial f) = ''{{> '' @ f @ ''}}''"

definition name_ok :: "string \<Rightarrow> bool" where
  "name_ok k \<longleftrightarrow> CHR ''{'' \<notin> set k \<and> CHR ''}'' \<notin> set k"

fun piece_ok :: "piece \<Rightarrow> bool" where
  "piece_ok (Var k) = (name_ok k \<and> \<not> prefix if_open k \<and> \<not> prefix each_open k \<and> \<not> prefix ''> '' k)"
| "piece_ok (Raw k) = name_ok k"
| "piece_ok (If_block k b) = (name_ok k \<and> find_sub if_close (b @ if_close) = Some (length b))"
| "piece_ok (Each_block k b) = (name_ok k \<and> find_sub each_close (b @ each_close) = Some (length b))"
| "piece_ok (Partial f) = name_ok f"

fun with_name :: "string \<Rightarrow> 'c \<Rightarrow> (string \<Rightarrow> (string result \<times> 'c) option) \<Rightarrow> (string result \<times> 'c) option" where
  "with_name k c f = (case trim k of Inl e \<Rightarrow> Some (Inl e, c) | Inr n \<Rightarrow> f n)"

fun eval_piece ::
  "('d, 'c) renderer \<Rightarrow> 'c loader \<Rightarrow> 'd tmpl_env \<Rightarrow> (string \<times> 'd json) list \<Rightarrow> piece \<Rightarrow> 'c \<Rightarrow> (string result \<times> 'c) option" where
  "eval_piece rs load E obj (Var k) c = Some (variable htmlEscape E k obj, c)"
| "eval_piece rs load E obj (Raw k) c = Some (variable (\<lambda>t. t) E k obj, c)"
| "eval_piece rs load E obj (If_block k b) c = with_name k c (\<lambda>n.
     case map_of obj n of
       Some v \<Rightarrow> if isTruthy (te_nonzero E) v then rs b (JObject obj) c else Some (Inr [], c)
     | None \<Rightarrow> Some (Inr [], c))"
| "eval_piece rs load E obj (Each_block k b) c = with_name k c (\<lambda>n.
     case map_of obj n of
       Some v \<Rightarrow> (case get_array v of Inl e \<Rightarrow> Some (Inl e, c) | Inr arr \<Rightarrow> each_items rs b arr [] c)
     | None \<Rightarrow> Some (Inr [], c))"
| "eval_piece rs load E obj (Partial f) c = with_name f c (\<lambda>n.
     case load n c of (Inl e, c') \<Rightarrow> Some (Inl e, c') | (Inr t, c') \<Rightarrow> rs t (JObject obj) c')"

fun eval_template ::
  "('d, 'c) renderer \<Rightarrow> 'c loader \<Rightarrow> 'd tmpl_env \<Rightarrow> (string \<times> 'd json) list \<Rightarrow> (string \<times> piece) list \<Rightarrow> string \<Rightarrow> string \<Rightarrow> 'c \<Rightarrow> (string result \<times> 'c) option" where
  "eval_template rs load E obj [] tail result c = Some (Inr (result @ tail), c)"
| "eval_template rs load E obj ((t, p) # ps) tail result c =
     (case eval_piece rs load E obj p c of
        None \<Rightarrow> None
      | Some (Inl e, c') \<Rightarrow> Some (Inl e, c')
      | Some (Inr x, c') \<Rightarrow> eval_template rs load E obj ps tail (result @ t @ x) c')"

definition template_text :: "(string \<times> piece) list \<Rightarrow> string \<Rightarrow> string" where
  "template_text ps tail = concat (map (\<lambda>(t, p). t @ piece_text p) ps) @ tail"

subsection \<open>One tag\<close>

lemma find_sub_extend:
  assumes "find_sub pat (b @ pat) = Some (length b)"
  shows "find_sub pat (b @ pat @ rest) = Some (length b)"
proof -
  have "\<not> prefix pat (drop j b @ pat @ rest)" if j: "j < length b" for j
  proof
    assume "prefix pat (drop j b @ pat @ rest)"
    then have "prefix pat (drop j b @ pat)"
      by (metis append_assoc le_add2 length_append prefix_length_prefix prefixI)
    with assms j show False by (simp add: find_sub_Some_iff)
  qed
  then show ?thesis by (simp add: find_sub_Some_iff)
qed

lemma find_from_drop: "drop pos s = t \<Longrightarrow> pos \<le> length s \<Longrightarrow> find_from s pat pos = map_option ((+) pos) (find_sub pat t)"
  by (simp add: find_from_def)

lemma substr_drop: "drop pos s = t @ u \<Longrightarrow> substr s pos (length t) = t"
  by (simp add: substr_def)

lemma drop_le: "drop pos s = c # t \<Longrightarrow> pos \<le> length s"
  by (metis drop_eq_Nil list.distinct(1) nle_le)

text \<open>Where a tag between double braces ends and what its name is.\<close>

lemma double_tag_at:
  assumes d: "drop start tmpl = ''{{'' @ k @ ''}}'' @ rest" and k: "CHR ''}'' \<notin> set k" "k = [] \<or> hd k \<noteq> CHR ''{''"
  shows "tag rs load E tmpl vars start c = double_tag rs load E tmpl vars k (start + length k + 2) c"
    and "drop (start + length k + 4) tmpl = rest"
proof -
  have stop: "find_from tmpl ''}}'' start = Some (start + length k + 2)"
    using k(1) find_from_drop [OF d] drop_le [of start tmpl] d
    by (simp add: find_sub_skip find_sub_here)
  have "drop 2 (drop start tmpl) = k @ ''}}'' @ rest" using d by simp
  then have d2: "drop (start + 2) tmpl = k @ ''}}'' @ rest" by (simp add: add.commute)
  have "\<not> (start + 2 < length tmpl \<and> tmpl ! (start + 2) = CHR ''{'')"
    using d2 k(2) by (cases k) (auto simp: hd_drop_conv_nth [symmetric])
  moreover have "substr tmpl (start + 2) (length k) = k" using d2 by (rule substr_drop)
  ultimately show "tag rs load E tmpl vars start c = double_tag rs load E tmpl vars k (start + length k + 2) c"
    by (auto simp: tag_def stop)
  have "drop (length k + 2) (drop (start + 2) tmpl) = rest" by (subst d2) simp
  then show "drop (start + length k + 4) tmpl = rest" by (simp add: add_ac numeral_eq_Suc)
qed

lemma triple_tag_at:
  assumes d: "drop start tmpl = ''{{{'' @ k @ ''}}}'' @ rest" and k: "CHR ''}'' \<notin> set k"
  shows "tag rs load E tmpl vars start c = triple_tag E vars k (start + length k + 3) c"
proof -
  have stop: "find_from tmpl ''}}}'' start = Some (start + length k + 3)"
    using k find_from_drop [OF d] drop_le [of start tmpl] d
    by (simp add: find_sub_skip find_sub_here)
  have "drop 2 (drop start tmpl) = CHR ''{'' # k @ ''}}}'' @ rest" using d by simp
  then have d2: "drop (start + 2) tmpl = CHR ''{'' # k @ ''}}}'' @ rest" by (simp add: add.commute)
  then have "drop 1 (drop (start + 2) tmpl) = k @ ''}}}'' @ rest" by (simp del: drop_drop)
  then have "drop (start + 3) tmpl = k @ ''}}}'' @ rest" by (simp add: add_ac numeral_eq_Suc)
  then have "substr tmpl (start + 3) (length k) = k" by (rule substr_drop)
  moreover have "start + 2 < length tmpl \<and> tmpl ! (start + 2) = CHR ''{''"
    using d2 by (metis drop_eq_Nil hd_drop_conv_nth linorder_not_less list.distinct(1) list.sel(1))
  ultimately show ?thesis by (simp add: tag_def stop)
qed

text \<open>Where the block behind an opening tag ends.\<close>

lemma block_at:
  assumes "drop pos tmpl = b @ pat @ rest" and "find_sub pat (b @ pat) = Some (length b)"
    and "pos \<le> length tmpl"
  shows "find_from tmpl pat pos = Some (pos + length b)" and "substr tmpl pos (length b) = b"
  using find_from_drop [OF assms(1,3)] find_sub_extend [OF assms(2)] substr_drop [OF assms(1)] by simp_all

text \<open>A tag does what the reference says, and the loop goes on behind its text.\<close>

lemma name_ok_hd: "name_ok k \<Longrightarrow> k = [] \<or> hd k \<noteq> CHR ''{''"
  by (cases k) (auto simp: name_ok_def)

lemma tag_var:
  assumes d: "drop start tmpl = piece_text (Var k) @ rest" and ok: "piece_ok (Var k)"
  shows "tag rs load E tmpl (JObject obj) start c =
    adds (start + length (piece_text (Var k))) (eval_piece rs load E obj (Var k) c)"
proof -
  have "CHR ''}'' \<notin> set k" "k = [] \<or> hd k \<noteq> CHR ''{''"
    using ok name_ok_hd [of k] by (auto simp: name_ok_def)
  from double_tag_at(1) [OF _ this, of start tmpl rest rs load E "JObject obj" c] d ok show ?thesis
    by (simp add: double_tag_def numeral_eq_Suc)
qed

lemma tag_raw:
  assumes d: "drop start tmpl = piece_text (Raw k) @ rest" and ok: "piece_ok (Raw k)"
  shows "tag rs load E tmpl (JObject obj) start c =
    adds (start + length (piece_text (Raw k))) (eval_piece rs load E obj (Raw k) c)"
proof -
  have "CHR ''}'' \<notin> set k" using ok by (simp add: name_ok_def)
  from triple_tag_at [OF _ this, of start tmpl rest rs load E "JObject obj" c] d show ?thesis
    by (simp add: triple_tag_def numeral_eq_Suc)
qed

lemma tag_if:
  assumes d: "drop start tmpl = piece_text (If_block k b) @ rest" and ok: "piece_ok (If_block k b)"
  shows "tag rs load E tmpl (JObject obj) start c =
    adds (start + length (piece_text (If_block k b))) (eval_piece rs load E obj (If_block k b) c)"
proof -
  let ?k = "if_open @ k"
  have k: "CHR ''}'' \<notin> set ?k" "?k = [] \<or> hd ?k \<noteq> CHR ''{''"
    using ok by (auto simp: name_ok_def if_open_def)
  have d': "drop start tmpl = ''{{'' @ ?k @ ''}}'' @ b @ if_close @ rest" using d by simp
  let ?pos = "start + length ?k + 4"
  have "?pos \<le> length tmpl" using arg_cong [OF d', of length] by simp
  note at = block_at [OF double_tag_at(2) [OF d' k] _ this]
  from ok have "find_sub if_close (b @ if_close) = Some (length b)" by simp
  from at [OF this] show ?thesis
    using double_tag_at(1) [OF d' k, of rs load E "JObject obj" c]
    by (auto simp: double_tag_def if_tag_def if_open_def if_close_def numeral_eq_Suc add.assoc split: sum.split option.split)
qed

lemma tag_each:
  assumes d: "drop start tmpl = piece_text (Each_block k b) @ rest" and ok: "piece_ok (Each_block k b)"
  shows "tag rs load E tmpl (JObject obj) start c =
    adds (start + length (piece_text (Each_block k b))) (eval_piece rs load E obj (Each_block k b) c)"
proof -
  let ?k = "each_open @ k"
  have k: "CHR ''}'' \<notin> set ?k" "?k = [] \<or> hd ?k \<noteq> CHR ''{''"
    using ok by (auto simp: name_ok_def each_open_def)
  have d': "drop start tmpl = ''{{'' @ ?k @ ''}}'' @ b @ each_close @ rest" using d by simp
  let ?pos = "start + length ?k + 4"
  have "?pos \<le> length tmpl" using arg_cong [OF d', of length] by simp
  note at = block_at [OF double_tag_at(2) [OF d' k] _ this]
  from ok have "find_sub each_close (b @ each_close) = Some (length b)" by simp
  from at [OF this] show ?thesis
    using double_tag_at(1) [OF d' k, of rs load E "JObject obj" c]
    by (auto simp: double_tag_def each_tag_def if_open_def each_open_def each_close_def numeral_eq_Suc add.assoc split: sum.split option.split)
qed

lemma tag_partial:
  assumes d: "drop start tmpl = piece_text (Partial f) @ rest" and ok: "piece_ok (Partial f)"
  shows "tag rs load E tmpl (JObject obj) start c =
    adds (start + length (piece_text (Partial f))) (eval_piece rs load E obj (Partial f) c)"
proof -
  let ?k = "''> '' @ f"
  have k: "CHR ''}'' \<notin> set ?k" "?k = [] \<or> hd ?k \<noteq> CHR ''{''"
    using ok by (auto simp: name_ok_def)
  have d': "drop start tmpl = ''{{'' @ ?k @ ''}}'' @ rest" using d by simp
  show ?thesis
    using double_tag_at(1) [OF d' k, of rs load E "JObject obj" c]
    by (auto simp: double_tag_def partial_tag_def if_open_def each_open_def numeral_eq_Suc split: sum.split prod.split)
qed

lemma tag_piece:
  assumes "drop start tmpl = piece_text p @ rest" and "piece_ok p"
  shows "tag rs load E tmpl (JObject obj) start c =
    adds (start + length (piece_text p)) (eval_piece rs load E obj p c)"
  using assms by (cases p) (simp_all only: tag_var tag_raw tag_if tag_each tag_partial)

subsection \<open>Whole templates\<close>

definition well_formed :: "(string \<times> piece) list \<Rightarrow> string \<Rightarrow> bool" where
  "well_formed ps tail \<longleftrightarrow>
     (\<forall>(t, p) \<in> set ps. CHR ''{'' \<notin> set t \<and> piece_ok p) \<and> CHR ''{'' \<notin> set tail"

lemma piece_text_braces: "prefix ''{{'' (piece_text p)"
  by (cases p) auto

lemma render_loop_template:
  assumes "well_formed ps tail" and "pos \<le> length tmpl" and "drop pos tmpl = template_text ps tail"
  shows "render_loop rs load E tmpl (JObject obj) pos result c = eval_template rs load E obj ps tail result c"
  using assms
proof (induction ps arbitrary: pos result c)
  case Nil
  then have "find_from tmpl ''{{'' pos = None"
    using find_from_drop [OF Nil(3,2)] by (simp add: well_formed_def template_text_def find_sub_notin)
  with Nil show ?case by (subst render_loop.simps) (simp add: template_text_def)
next
  case (Cons tp ps)
  obtain t p where tp: "tp = (t, p)" by (cases tp)
  let ?start = "pos + length t" and ?n = "length (piece_text p)"
  have t: "CHR ''{'' \<notin> set t" and p: "piece_ok p" and ok: "well_formed ps tail"
    using Cons.prems(1) by (auto simp: tp well_formed_def)
  have d: "drop pos tmpl = t @ piece_text p @ template_text ps tail"
    using Cons.prems(3) by (simp add: tp template_text_def)
  have "prefix ''{{'' (piece_text p @ template_text ps tail)"
    using piece_text_braces by (rule prefix_prefix)
  with t have "find_sub ''{{'' (t @ piece_text p @ template_text ps tail) = Some (length t)"
    by (simp add: find_sub_skip find_sub_here)
  then have start: "find_from tmpl ''{{'' pos = Some ?start"
    using find_from_drop [OF d Cons.prems(2)] by simp
  have "drop (length t) (drop pos tmpl) = piece_text p @ template_text ps tail" by (simp add: d)
  then have ds: "drop ?start tmpl = piece_text p @ template_text ps tail" by (simp add: add.commute)
  then have "drop ?n (drop ?start tmpl) = template_text ps tail" by simp
  then have next_at: "drop (?start + ?n) tmpl = template_text ps tail" by (simp add: add.commute)
  have "?start + ?n \<le> length tmpl"
    using arg_cong [OF ds, of length] Cons.prems(2) arg_cong [OF d, of length] by simp
  note IH = Cons.IH [OF ok this next_at]
  show ?case
  proof (cases "eval_piece rs load E obj p c")
    case None
    then show ?thesis
      by (subst render_loop.simps) (simp add: start tag_piece [OF ds p] tp)
  next
    case (Some rc)
    then obtain r c' where rc: "eval_piece rs load E obj p c = Some (r, c')" by (cases rc) auto
    show ?thesis
      by (subst render_loop.simps, cases r)
        (simp_all add: start tag_piece [OF ds p] tp rc IH substr_drop [OF d])
  qed
qed

text \<open>
  C16. Rendering the text of a list of tags with plain text around them gives, from left to right,
  the plain text unchanged and for each tag what the reference says: the escaped value of a
  variable (nothing when it is not there), the raw one between three braces, the block of an
  \<open>#if\<close> whose variable is true, the block of an \<open>#each\<close> once per item with the item
  as its variables, the partial template that the loader returns; the first exception ends it.
\<close>

theorem template_semantics:
  assumes "well_formed ps tail"
  shows "renderString (Suc n) load E (template_text ps tail) (JObject obj) c =
    eval_template (renderString n load E) load E obj ps tail [] c"
  by (simp add: render_loop_template [OF assms])

definition sample_tmpl_env :: "int tmpl_env" where
  "sample_tmpl_env = \<lparr>te_show = (\<lambda>_. ''0''), te_nonzero = (\<lambda>d. d \<noteq> 0)\<rparr>"

definition sample_template :: "(string \<times> piece) list" where
  "sample_template =
     [(''<p>'', Var '' name ''), ('' '', If_block ''vip'' ''yes {{name}}''), ([], Each_block ''xs'' ''[{{{v}}}]'')]"

theorem template_semantics_witness:
  "renderString 2 (\<lambda>_ c. (Inl Filesystem_error, c)) sample_tmpl_env (template_text sample_template ''</p>'')
     (JObject [(''name'', JString ''a<b''), (''vip'', JBool True),
        (''xs'', JArray [JObject [(''v'', JInt 1)], JObject [(''v'', JString ''<i>'')]])]) () =
   Some (Inr ''<p>a&lt;b yes a&lt;b[1][<i>]</p>'', ())"
proof -
  have ok: "well_formed sample_template ''</p>''" by code_simp
  show ?thesis
    using template_semantics [OF ok, of 1 "\<lambda>_ c. (Inl Filesystem_error, c)" sample_tmpl_env _ "()"]
    unfolding Suc_1 by code_simp
qed

subsection \<open>The bound on the depth\<close>

text \<open>A larger bound never changes a result.\<close>

definition renderer_le :: "('d, 'c) renderer \<Rightarrow> ('d, 'c) renderer \<Rightarrow> bool" where
  "renderer_le rs rs' \<longleftrightarrow> (\<forall>t v c r. rs t v c = Some r \<longrightarrow> rs' t v c = Some r)"

lemma renderer_leD: "renderer_le rs rs' \<Longrightarrow> rs t v c = Some r \<Longrightarrow> rs' t v c = Some r"
  unfolding renderer_le_def by blast

lemma each_items_le:
  "renderer_le rs rs' \<Longrightarrow> each_items rs b items result c = Some r \<Longrightarrow> each_items rs' b items result c = Some r"
proof (induction items arbitrary: result c)
  case (Cons item items)
  then obtain q c' where q: "rs b item c = Some (q, c')" by (auto split: option.splits)
  then show ?case using Cons renderer_leD [OF Cons.prems(1) q] by (cases q; cases r) simp_all
qed simp

lemma adds_Some: "adds pos r = Some x \<Longrightarrow> \<exists>q. r = Some q"
  by (cases r) auto

lemma adds_le: "adds pos r = Some x \<Longrightarrow> (\<And>q. r = Some q \<Longrightarrow> r' = Some q) \<Longrightarrow> adds pos r' = Some x"
  using adds_Some by metis

lemma if_tag_le:
  assumes "renderer_le rs rs'"
  shows "if_tag rs E tmpl vars obj k stop c = Some x \<Longrightarrow> if_tag rs' E tmpl vars obj k stop c = Some x"
  unfolding if_tag_def
  by (auto split: sum.splits option.splits if_splits elim!: adds_le intro!: renderer_leD [OF assms])

lemma each_tag_le:
  assumes "renderer_le rs rs'"
  shows "each_tag rs tmpl obj k stop c = Some x \<Longrightarrow> each_tag rs' tmpl obj k stop c = Some x"
  unfolding each_tag_def
  by (auto split: sum.splits option.splits elim!: adds_le intro!: each_items_le [OF assms])

lemma partial_tag_le:
  assumes "renderer_le rs rs'"
  shows "partial_tag rs load vars k stop c = Some x \<Longrightarrow> partial_tag rs' load vars k stop c = Some x"
  unfolding partial_tag_def
  by (auto split: sum.splits prod.splits elim!: adds_le intro!: renderer_leD [OF assms])

lemma double_tag_le:
  assumes "renderer_le rs rs'"
  shows "double_tag rs load E tmpl vars k stop c = Some x \<Longrightarrow> double_tag rs' load E tmpl vars k stop c = Some x"
  unfolding double_tag_def
  using if_tag_le [OF assms] each_tag_le [OF assms] partial_tag_le [OF assms]
  by (cases "get_object vars") (auto split: if_splits)

lemma tag_le:
  assumes "renderer_le rs rs'"
  shows "tag rs load E tmpl vars start c = Some x \<Longrightarrow> tag rs' load E tmpl vars start c = Some x"
  unfolding tag_def using double_tag_le [OF assms]
  by (auto split: option.splits if_splits)

lemma render_loop_le:
  assumes "renderer_le rs rs'" and "render_loop rs load E tmpl vars pos result c = Some r"
  shows "render_loop rs' load E tmpl vars pos result c = Some r"
  using assms
proof (induction rs load E tmpl vars pos result c rule: render_loop.induct)
  case (1 rs load E tmpl vars pos result c)
  show ?case
  proof (cases "find_from tmpl ''{{'' pos")
    case None
    with 1(3) show ?thesis by (simp add: render_loop.simps [of _ _ _ _ _ pos])
  next
    case (Some start)
    with 1(3) obtain x where x: "tag rs load E tmpl vars start c = Some x"
      by (cases "tag rs load E tmpl vars start c") (auto simp: render_loop.simps [of _ _ _ _ _ pos] Let_def)
    with 1(3) Some tag_le [OF 1(2) x] 1(1) [OF Some _ x _ 1(2)] show ?thesis
      by (cases x) (auto simp: render_loop.simps [of _ _ _ _ _ pos] Let_def)
  qed
qed

lemma renderString_le: "renderer_le (renderString n load E) (renderString (Suc n) load E)"
proof (induction n)
  case 0
  show ?case by (simp add: renderer_le_def)
next
  case (Suc n)
  show ?case
    unfolding renderer_le_def
    by (subst (1 2) renderString.simps(2)) (blast intro: render_loop_le [OF Suc])
qed

lemma renderString_mono:
  assumes "n \<le> m" and "renderString n load E tmpl vars c = Some r"
  shows "renderString m load E tmpl vars c = Some r"
  using assms
proof (induction m rule: dec_induct)
  case base
  then show ?case .
next
  case (step m)
  then show ?case using renderString_le renderer_leD by metis
qed

text \<open>A template without partial templates needs no more depth than it has characters.\<close>

abbreviation no_partials :: "string \<Rightarrow> bool" where
  "no_partials t \<equiv> \<not> sublist ''{{> '' t"

definition renders_below :: "('d, 'c) renderer \<Rightarrow> nat \<Rightarrow> bool" where
  "renders_below rs n \<longleftrightarrow> (\<forall>t v c. length t < n \<longrightarrow> no_partials t \<longrightarrow> rs t v c \<noteq> None)"

lemma each_items_renders:
  "(\<And>v c. rs b v c \<noteq> None) \<Longrightarrow> each_items rs b items result c \<noteq> None"
proof (induction items arbitrary: result c)
  case (Cons item items)
  obtain q where "rs b item c = Some q" using Cons.prems by blast
  moreover obtain r c' where "q = (r, c')" by (cases q)
  ultimately show ?case using Cons by (cases r) simp_all
qed simp

lemma adds_None: "adds pos r = None \<longleftrightarrow> r = None"
  by (cases "(pos, r)" rule: adds.cases) auto

lemma block_renders:
  assumes "renders_below rs (length tmpl)" and "no_partials tmpl" and "0 < p" and "p \<le> length tmpl"
  shows "rs (substr tmpl p n) v c \<noteq> None"
proof -
  have "length (substr tmpl p n) < length tmpl" using assms(3,4) by (auto simp: length_substr)
  moreover have "no_partials (substr tmpl p n)"
    using assms(2) sublist_substr [of tmpl p n] sublist_order.order_trans by blast
  ultimately show ?thesis using assms(1) by (simp add: renders_below_def)
qed

lemma partial_sublist:
  assumes "find_from tmpl ''{{'' pos = Some start" and "prefix ''> '' (substr tmpl (start + 2) n)"
  shows "sublist ''{{> '' tmpl"
proof -
  obtain u where u: "drop start tmpl = ''{{'' @ u"
    using assms(1) by (auto simp: find_from_Some_iff prefix_def)
  then have "drop 2 (drop start tmpl) = u" by simp
  then have "drop (start + 2) tmpl = u" by (simp add: add.commute)
  with assms(2) have "prefix ''> '' u"
    by (simp add: substr_def) (metis prefix_order.order_trans take_is_prefix)
  with u have "prefix ''{{> '' (drop start tmpl)" by (auto simp: prefix_def)
  then show ?thesis
    by (metis prefix_imp_sublist sublist_drop sublist_order.order_trans)
qed

lemma tag_renders:
  assumes below: "renders_below rs (length tmpl)" and np: "no_partials tmpl"
    and start: "find_from tmpl ''{{'' pos = Some start"
  shows "tag rs load E tmpl vars start c \<noteq> None"
proof
  assume none: "tag rs load E tmpl vars start c = None"
  then obtain k stop where stop: "find_from tmpl ''}}'' start = Some stop"
    and k: "k = substr tmpl (start + 2) (stop - start - 2)"
    and dt: "double_tag rs load E tmpl vars k stop c = None"
    by (auto simp: tag_def triple_tag_def adds_None split: if_splits option.splits sum.splits)
  have "\<not> prefix ''> '' k" using partial_sublist [OF start] np k by blast
  with dt obtain obj where "if_tag rs E tmpl vars obj k stop c = None \<or> each_tag rs tmpl obj k stop c = None"
    by (auto simp: double_tag_def adds_None split: if_splits sum.splits)
  moreover have block: "rs (substr tmpl (stop + 2) n) v c \<noteq> None" for n v c
    using find_from_bounds [OF stop] by (intro block_renders [OF below np]) auto
  then have "each_items rs (substr tmpl (stop + 2) n) items result c \<noteq> None" for n items result c
    by (rule each_items_renders)
  ultimately show False using block
    by (auto simp only: if_tag_def each_tag_def adds_None option.distinct split: sum.splits option.splits if_splits)
qed

lemma render_loop_renders:
  assumes "renders_below rs (length tmpl)" and "no_partials tmpl"
  shows "render_loop rs load E tmpl vars pos result c \<noteq> None"
  using assms
proof (induction rs load E tmpl vars pos result c rule: render_loop.induct)
  case (1 rs load E tmpl vars pos result c)
  show ?case
  proof (cases "find_from tmpl ''{{'' pos")
    case None
    then show ?thesis by (simp add: render_loop.simps [of _ _ _ _ _ pos])
  next
    case (Some start)
    then obtain x where x: "tag rs load E tmpl vars start c = Some x"
      using tag_renders [OF 1(2,3)] by blast
    with 1(1) [OF Some _ x _ 1(2,3)] Some show ?thesis
      by (cases x) (simp_all add: render_loop.simps [of _ _ _ _ _ pos] Let_def)
  qed
qed

lemma renderString_renders: "renders_below (renderString n load E) n"
proof (induction n)
  case (Suc n)
  have "renders_below (renderString n load E) (length t)" if "length t < Suc n" for t :: string
    using Suc that by (simp add: renders_below_def)
  then show ?case by (simp add: renders_below_def render_loop_renders)
qed (simp add: renders_below_def)

text \<open>
  A template that includes no partial template is rendered without endless recursion, however
  its blocks are nested and whatever the variables are: one result (a text or an exception) comes
  out for every bound on the depth that is larger than the length of the template.
\<close>

theorem template_terminates:
  assumes "no_partials tmpl"
  shows "\<exists>r. \<forall>n > length tmpl. renderString n load E tmpl vars c = Some r"
proof -
  let ?n = "Suc (length tmpl)"
  have "renderString ?n load E tmpl vars c \<noteq> None"
    using renderString_renders [of ?n load E] assms unfolding renders_below_def by blast
  then obtain r where r: "renderString ?n load E tmpl vars c = Some r" by blast
  have "renderString n load E tmpl vars c = Some r" if "n > length tmpl" for n
    using renderString_mono [OF _ r] that by simp
  then show ?thesis by blast
qed

theorem template_terminates_witness:
  "\<exists>r. \<forall>n > 27. renderString n (\<lambda>_ c. (Inl Filesystem_error, c)) sample_tmpl_env ''{{#if a}}{{#each a}}{{/if}}'' (JObject []) () = Some r"
proof -
  have "no_partials ''{{#if a}}{{#each a}}{{/if}}''" by code_simp
  moreover have "length ''{{#if a}}{{#each a}}{{/if}}'' = 27" by code_simp
  ultimately show ?thesis
    using template_terminates [of "''{{#if a}}{{#each a}}{{/if}}''" "\<lambda>_ c. (Inl Filesystem_error, c)" sample_tmpl_env "JObject []" "()"]
    by metis
qed

text \<open>
  A partial template that includes itself in a part that is always reached is rendered by
  an endless recursion: no bound on the depth gives a result.
\<close>

theorem self_including_partial_diverges:
  assumes "well_formed ((t, Partial f) # ps) tail" and "trim f = Inr g"
    and "\<And>c. load g c = (Inr (template_text ((t, Partial f) # ps) tail), c)"
  shows "render n load E g (JObject obj) c = None"
proof -
  have "renderString n load E (template_text ((t, Partial f) # ps) tail) (JObject obj) c = None"
  proof (induction n)
    case (Suc n)
    then show ?case using assms(2,3) by (simp add: render_loop_template [OF assms(1)])
  qed simp
  then show ?thesis using assms(3) by (simp add: render_def)
qed

theorem self_including_partial_diverges_witness:
  "\<forall>n. render n (\<lambda>name c. (Inr ''<hr>{{> a.html}}'', c)) sample_tmpl_env ''a.html'' (JObject []) () = None"
proof -
  let ?load = "\<lambda>name c. (Inr ''<hr>{{> a.html}}'', c)"
  have "well_formed [(''<hr>'', Partial ''a.html'')] []" "trim ''a.html'' = Inr ''a.html''" by code_simp+
  moreover have "template_text [(''<hr>'', Partial ''a.html'')] [] = ''<hr>{{> a.html}}''" by code_simp
  then have "\<And>c. ?load ''a.html'' c = (Inr (template_text [(''<hr>'', Partial ''a.html'')] []), c)" by simp
  ultimately have hyps: "well_formed [(''<hr>'', Partial ''a.html'')] []" "trim ''a.html'' = Inr ''a.html''"
    "\<And>c. ?load ''a.html'' c = (Inr (template_text [(''<hr>'', Partial ''a.html'')] []), c)" .
  from self_including_partial_diverges [OF hyps, of _ sample_tmpl_env "[]" "()"] show ?thesis by simp
qed

end
