(* ===== verification/Websocket.thy ===== *)
theory Websocket
  imports Request Connection Crypto
begin

section \<open>WebSocket connections\<close>

text \<open>
  Models \<^verbatim>\<open>src/net/websocket.cpp\<close>. The peer's side of a connection is the list of
  the segments that arrive: a read gets bytes of the first one only, as many as it asks for or
  as there are, and nothing when the connection is closed or no segment is left. A read of no
  bytes is what the code takes every result below 1 for. What a write sends is what the
  socket accepts of it, by the numbers in \<open>wi_accept\<close>, everything when there is none left.
  Buffers that the code does not initialise hold what is on the stack, an argument \<open>junk\<close>.
\<close>

record wire =
  wi_conn :: conn
  wi_net :: net
  wi_in :: "string list"
  wi_out :: string
  wi_accept :: "nat list"

type_synonym stack = "wire \<Rightarrow> nat \<Rightarrow> char"

definition wire_read :: "nat \<Rightarrow> wire \<Rightarrow> string \<times> wire" where
  "wire_read len w =
     (if cn_fd (wi_conn w) = -1 then ([], w)
      else case wi_in w of
             [] \<Rightarrow> ([], w)
           | seg # segs \<Rightarrow>
               (take len seg, w\<lparr>wi_in := (if length seg \<le> len then segs else drop len seg # segs)\<rparr>))"

definition wire_write :: "string \<Rightarrow> wire \<Rightarrow> wire" where
  "wire_write data w =
     (if cn_fd (wi_conn w) = -1 then w
      else case wi_accept w of
             [] \<Rightarrow> w\<lparr>wi_out := wi_out w @ data\<rparr>
           | n # ns \<Rightarrow> w\<lparr>wi_out := wi_out w @ take n data, wi_accept := ns\<rparr>)"

definition wire_close :: "wire \<Rightarrow> wire result" where
  "wire_close w =
     bind_result (conn_close (wi_conn w) (wi_net w)) (\<lambda>(c, n). Inr (w\<lparr>wi_conn := c, wi_net := n\<rparr>))"

subsection \<open>The upgrade\<close>

definition isUpgrade :: "request \<Rightarrow> bool" where
  "isUpgrade req \<longleftrightarrow>
     getHeader req ''Upgrade'' = Some ''websocket'' \<and>
     (case getHeader req ''Connection'' of
        Some conn \<Rightarrow> find_sub ''Upgrade'' conn \<noteq> None
      | None \<Rightarrow> False)"

definition ws_guid :: string where
  "ws_guid = ''258EAFA5-E914-47DA-95CA-5AB9DC176B71''"

definition accept_reply :: "string \<Rightarrow> string" where
  "accept_reply accept =
     ''HTTP/1.1 101 Switching Protocols'' @ crlf @ ''Upgrade: websocket'' @ crlf @
     ''Connection: Upgrade'' @ crlf @ ''Sec-WebSocket-Accept: '' @ accept @ crlf @
     ''Sec-WebSocket-Version: 13'' @ crlf @ crlf"

definition ws_handshake :: "(byte list \<Rightarrow> byte list) \<Rightarrow> request \<Rightarrow> string" where
  "ws_handshake SHA1 req =
     (case getHeader req ''Sec-WebSocket-Key'' of
        None \<Rightarrow> []
      | Some key \<Rightarrow> accept_reply (base64_encode (SHA1 (text_bytes (key @ ws_guid)))))"

subsection \<open>Frames\<close>

text \<open>The length of the payload, in bytes of the header or in the 2 or 8 bytes that follow it.\<close>

definition be_word :: "string \<Rightarrow> 64 word" where
  "be_word ext = foldl (\<lambda>p c. push_bit 8 p OR ucast (char_byte c)) 0 ext"

definition filled :: "stack \<Rightarrow> wire \<Rightarrow> nat \<Rightarrow> string \<Rightarrow> string" where
  "filled junk w n got = got @ map (junk w) [length got..<n]"

definition read_length :: "stack \<Rightarrow> 64 word \<Rightarrow> wire \<Rightarrow> 64 word option \<times> wire" where
  "read_length junk payload_len w =
     (if payload_len = 126
      then (case wire_read 2 w of
              (got, w1) \<Rightarrow> if got = [] then (None, w1) else (Some (be_word (filled junk w 2 got)), w1))
      else if payload_len = 127
      then (case wire_read 8 w of
              (got, w1) \<Rightarrow> if got = [] then (None, w1) else (Some (be_word (filled junk w 8 got)), w1))
      else (Some payload_len, w))"

text \<open>The key of a masked frame; a short read leaves zeros in it.\<close>

definition zero_filled :: "nat \<Rightarrow> string \<Rightarrow> string" where
  "zero_filled n got = got @ replicate (n - length got) (CHR 0x00)"

definition read_mask :: "bool \<Rightarrow> wire \<Rightarrow> string option \<times> wire" where
  "read_mask masked w =
     (if masked
      then (case wire_read 4 w of (got, w1) \<Rightarrow> if got = [] then (None, w1) else (Some (zero_filled 4 got), w1))
      else (Some (replicate 4 (CHR 0x00)), w))"

definition xor_char :: "char \<Rightarrow> char \<Rightarrow> char" where
  "xor_char a b = byte_char (char_byte a XOR char_byte b)"

definition unmask :: "string \<Rightarrow> string \<Rightarrow> string" where
  "unmask key payload = map (\<lambda>i. xor_char (payload ! i) (key ! (i mod 4))) [0..<length payload]"

definition max_payload :: "64 word" where
  "max_payload = 16 * 1024 * 1024"

definition length_bytes :: "nat \<Rightarrow> 64 word \<Rightarrow> string" where
  "length_bytes n sz = map (\<lambda>i. byte_char (ucast (drop_bit (i * 8) sz AND 0xFF))) (rev [0..<n])"

definition frame_bytes :: "string \<Rightarrow> byte \<Rightarrow> string" where
  "frame_bytes data opcode =
     (let sz = of_nat (length data) :: 64 word in
      byte_char (0x80 OR opcode) #
      (if length data \<le> 125 then [byte_char (ucast sz)]
       else if length data \<le> 65535 then byte_char 126 # length_bytes 2 sz
       else byte_char 127 # length_bytes 8 sz) @ data)"

definition sendFrame :: "string \<Rightarrow> byte \<Rightarrow> wire \<Rightarrow> wire" where
  "sendFrame data opcode w = wire_write (frame_bytes data opcode) w"

text \<open>What is done with the payload of a frame.\<close>

definition frame_effect :: "byte \<Rightarrow> string \<Rightarrow> wire \<Rightarrow> (string \<times> wire) result" where
  "frame_effect opcode data w =
     (if opcode = 0x8 then bind_result (wire_close (sendFrame [] 0x8 w)) (\<lambda>w'. Inr ([], w'))
      else if opcode = 0x9 then Inr (data, sendFrame data 0xA w)
      else Inr (data, w))"

definition read_payload :: "byte \<Rightarrow> bool \<Rightarrow> 64 word \<Rightarrow> wire \<Rightarrow> (string \<times> wire) result" where
  "read_payload opcode masked payload_len w =
     (if payload_len > max_payload then bind_result (wire_close w) (\<lambda>w1. Inr ([], w1))
      else case read_mask masked w of
             (None, w1) \<Rightarrow> Inr ([], w1)
           | (Some mask_key, w1) \<Rightarrow>
               (case wire_read (unat payload_len) w1 of (got, w2) \<Rightarrow>
                if got = [] then Inr ([], w2)
                else
                  let payload = zero_filled (unat payload_len) got
                  in frame_effect opcode (if masked then unmask mask_key payload else payload) w2))"

definition readFrame :: "stack \<Rightarrow> wire \<Rightarrow> (string \<times> wire) result" where
  "readFrame junk w =
     (case wire_read 2 w of (got, w1) \<Rightarrow>
      if got = [] then Inr ([], w1)
      else
        let header = filled junk w 2 got
        in case read_length junk (ucast (char_byte (header ! 1) AND 0x7F)) w1 of
             (None, w2) \<Rightarrow> Inr ([], w2)
           | (Some payload_len, w2) \<Rightarrow>
               read_payload (char_byte (header ! 0) AND 0x0F) (char_byte (header ! 1) AND 0x80 \<noteq> 0) payload_len w2)"

subsection \<open>The loop over the messages\<close>

text \<open>
  The callbacks change the program's state, of type \<open>'u\<close>, and may send frames; an empty
  callback is \<open>None\<close>. \<^verbatim>\<open>epoll_wait\<close> waits for bytes or is called again, so a turn
  of the loop skips the pauses of the client, which are empty segments, and reads a frame. This is
  the loop on a connection without TLS; bytes that the TLS library has taken from the socket and
  keeps in its buffer do not wake \<^verbatim>\<open>epoll_wait\<close>; \<open>Tls_Websocket\<close> has the loop that waits, for both.
\<close>

type_synonym 'u ws_state = "wire \<times> 'u"

definition call :: "('s \<Rightarrow> 's) option \<Rightarrow> 's \<Rightarrow> 's" where
  "call cb s = (case cb of None \<Rightarrow> s | Some f \<Rightarrow> f s)"

definition await :: "wire \<Rightarrow> wire" where
  "await w = w\<lparr>wi_in := dropWhile (\<lambda>s. s = []) (wi_in w)\<rparr>"

partial_function (option) ws_loop ::
  "stack \<Rightarrow> (string \<Rightarrow> 'u ws_state \<Rightarrow> 'u ws_state) option \<Rightarrow> 'u ws_state \<Rightarrow> 'u ws_state result option" where
  "ws_loop junk on_message s =
     (case readFrame junk (await (fst s)) of
        Inl e \<Rightarrow> Some (Inl e)
      | Inr (payload, w) \<Rightarrow>
          if payload = [] then Some (Inr (w, snd s))
          else ws_loop junk on_message (call (map_option (\<lambda>f. f payload) on_message) (w, snd s)))"

definition close_epoll :: "int \<Rightarrow> wire \<Rightarrow> wire" where
  "close_epoll epfd w = w\<lparr>wi_net := sys_close epfd (wi_net w)\<rparr>"

definition ws_run ::
  "stack \<Rightarrow> int \<Rightarrow> int \<Rightarrow> ('u ws_state \<Rightarrow> 'u ws_state) option \<Rightarrow> (string \<Rightarrow> 'u ws_state \<Rightarrow> 'u ws_state) option \<Rightarrow>
   ('u ws_state \<Rightarrow> 'u ws_state) option \<Rightarrow> 'u ws_state \<Rightarrow> 'u ws_state result option" where
  "ws_run junk epfd ctl on_open on_message on_close s =
     (if epfd = -1 then Some (Inr s)
      else
        let s1 = ((fst s)\<lparr>wi_net := (wi_net (fst s))\<lparr>nt_open := insert epfd (nt_open (wi_net (fst s)))\<rparr>\<rparr>, snd s)
        in if ctl = -1 then Some (Inr (close_epoll epfd (fst s1), snd s1))
           else map_option (\<lambda>r. bind_result r (\<lambda>s2.
                  let s3 = call on_close s2 in Inr (close_epoll epfd (fst s3), snd s3)))
                (ws_loop junk on_message (call on_open s1)))"

subsection \<open>The object\<close>

text \<open>
  What a handler of the program gets: an object that keeps the callbacks, all empty at first, and
  runs the loop with those that are set. Its connection is the wire it is run on.
\<close>

record 'u websocket =
  wk_on_open :: "('u ws_state \<Rightarrow> 'u ws_state) option"
  wk_on_message :: "(string \<Rightarrow> 'u ws_state \<Rightarrow> 'u ws_state) option"
  wk_on_close :: "('u ws_state \<Rightarrow> 'u ws_state) option"

definition WebSocket_new :: "'u websocket" where
  "WebSocket_new = \<lparr>wk_on_open = None, wk_on_message = None, wk_on_close = None\<rparr>"

definition onOpen :: "('u ws_state \<Rightarrow> 'u ws_state) option \<Rightarrow> 'u websocket \<Rightarrow> 'u websocket" where
  "onOpen cb ws = ws\<lparr>wk_on_open := cb\<rparr>"

definition onMessage :: "(string \<Rightarrow> 'u ws_state \<Rightarrow> 'u ws_state) option \<Rightarrow> 'u websocket \<Rightarrow> 'u websocket" where
  "onMessage cb ws = ws\<lparr>wk_on_message := cb\<rparr>"

definition onClose :: "('u ws_state \<Rightarrow> 'u ws_state) option \<Rightarrow> 'u websocket \<Rightarrow> 'u websocket" where
  "onClose cb ws = ws\<lparr>wk_on_close := cb\<rparr>"

definition WebSocket_run :: "stack \<Rightarrow> int \<Rightarrow> int \<Rightarrow> 'u websocket \<Rightarrow> 'u ws_state \<Rightarrow> 'u ws_state result option" where
  "WebSocket_run junk epfd ctl ws = ws_run junk epfd ctl (wk_on_open ws) (wk_on_message ws) (wk_on_close ws)"

subsection \<open>Lengths\<close>

lemma byte_bit_bound: "bit (b :: byte) n \<Longrightarrow> n < 8"
  using bit_imp_le_length [of b n] by simp

lemma be_step: "push_bit 8 (p :: 64 word) OR ucast (b :: byte) = p * 256 + of_nat (unat b)"
proof -
  have "push_bit 8 p + (ucast b :: 64 word) = push_bit 8 p OR ucast b"
    by (intro disjunctive_add_eq_or bit_word_eqI) (auto simp: bit_simps dest: byte_bit_bound)
  then show ?thesis by (simp add: push_bit_eq_mult)
qed

lemma unat_char_byte: "unat (char_byte c) = ord c"
  using ord_bound [of c] by (simp add: char_byte_def unat_of_nat)

lemma be_word_of_nat: "be_word ext = of_nat (foldl (\<lambda>p c. p * 256 + ord c) 0 ext)"
proof -
  have "foldl (\<lambda>p c. push_bit 8 p OR ucast (char_byte c)) (of_nat n) ext
      = (of_nat (foldl (\<lambda>p c. p * 256 + ord c) n ext) :: 64 word)" for n
  proof (induction ext arbitrary: n)
    case (Cons c ext)
    have "push_bit 8 (of_nat n) OR ucast (char_byte c) = (of_nat (n * 256 + ord c) :: 64 word)"
      by (simp only: be_step unat_char_byte of_nat_add of_nat_mult of_nat_numeral)
    with Cons show ?case by (simp only: foldl_Cons)
  qed simp
  from this [of 0] show ?thesis by (simp add: be_word_def)
qed

lemma ord_length_byte: "ord (byte_char (ucast (drop_bit (i * 8) (sz :: 64 word) AND 0xFF))) = unat sz div 256 ^ i mod 256"
proof -
  have eq: "drop_bit (i * 8) sz AND 0xFF = take_bit 8 (drop_bit (i * 8) sz)"
    by (simp add: take_bit_eq_mask mask_eq_exp_minus_1)
  have "take_bit 64 (unat sz) = unat sz"
    using unsigned_less [of sz, where ?'a = nat] by (simp add: take_bit_nat_eq_self)
  then have "unat (ucast (take_bit 8 (drop_bit (i * 8) sz)) :: byte) = take_bit 8 (drop_bit (i * 8) (unat sz))"
    by (simp add: unsigned_take_bit_eq unsigned_drop_bit_eq unsigned_ucast_eq)
  also have "\<dots> = unat sz div 256 ^ i mod 256"
    by (simp add: take_bit_eq_mod drop_bit_eq_div power_mult [symmetric] mult.commute [of i] power_mult)
  finally show ?thesis by (simp add: eq byte_char_def)
qed

lemma foldl_digits: "foldl (\<lambda>p i. p * 256 + n div 256 ^ i mod 256) a (rev [0..<k]) = a * 256 ^ k + n mod (256 ^ k :: nat)"
proof (induction k arbitrary: a)
  case (Suc k)
  have "n mod 256 ^ Suc k = n div 256 ^ k mod 256 * 256 ^ k + n mod 256 ^ k"
    using mod_mult2_eq [of n "256 ^ k" 256] by (simp add: mult.commute)
  with Suc show ?case by (simp add: algebra_simps)
qed simp

lemma be_word_length_bytes: "be_word (length_bytes k sz) = of_nat (unat sz mod 256 ^ k)"
  by (simp add: be_word_of_nat length_bytes_def foldl_map ord_length_byte foldl_digits)

lemma length_length_bytes [simp]: "length (length_bytes k sz) = k"
  by (simp add: length_bytes_def)

subsection \<open>Frames of the protocol\<close>

text \<open>A final frame as RFC 6455 lays it out, masked with a key when a client sends it.\<close>

definition len7 :: "nat \<Rightarrow> nat" where
  "len7 n = (if n \<le> 125 then n else if n \<le> 65535 then 126 else 127)"

definition ext_len :: "nat \<Rightarrow> string" where
  "ext_len n = (if n \<le> 125 then [] else length_bytes (if n \<le> 65535 then 2 else 8) (of_nat n))"

definition frame_head :: "byte \<Rightarrow> bool \<Rightarrow> nat \<Rightarrow> string" where
  "frame_head opcode masked n =
     byte_char (0x80 OR opcode) # byte_char ((if masked then 0x80 else 0) OR of_nat (len7 n)) # ext_len n"

definition peer_frame :: "byte \<Rightarrow> string option \<Rightarrow> string \<Rightarrow> string" where
  "peer_frame opcode key data =
     frame_head opcode (key \<noteq> None) (length data) @ (case key of None \<Rightarrow> data | Some k \<Rightarrow> k @ unmask k data)"

definition key_ok :: "string option \<Rightarrow> bool" where
  "key_ok key \<longleftrightarrow> (case key of None \<Rightarrow> True | Some k \<Rightarrow> length k = 4)"

lemma frame_bytes_peer: "frame_bytes data opcode = peer_frame opcode None data"
proof -
  have "unat (of_nat n :: 64 word) = n" if "n \<le> 125" for n
    using that by (simp add: unat_of_nat)
  then have "ucast (of_nat n :: 64 word) = (of_nat n :: byte)" if "n \<le> 125" for n
    using that by (metis of_nat_unat)
  then show ?thesis
    by (simp add: frame_bytes_def peer_frame_def frame_head_def len7_def ext_len_def Let_def)
qed

lemma length_unmask [simp]: "length (unmask key s) = length s"
  by (simp add: unmask_def)

lemma xor_char_twice: "xor_char (xor_char a b) b = a"
  by (simp add: xor_char_def xor.assoc)

lemma unmask_twice: "unmask key (unmask key s) = s"
  by (rule nth_equalityI) (simp_all add: unmask_def xor_char_twice)

lemma len7_small: "len7 n < 128"
  by (simp add: len7_def)

lemma small_byte: "n < 128 \<Longrightarrow> take_bit 7 (of_nat n :: byte) = of_nat n"
  by (simp add: take_bit_of_nat take_bit_nat_eq_self)

lemma opcode_field: "opcode < 16 \<Longrightarrow> (0x80 OR opcode :: byte) AND 0x0F = opcode"
proof -
  assume "opcode < 16"
  then have "opcode AND 0x0F = opcode"
    using less_mask_eq [of opcode 4] by (simp add: mask_eq_exp_minus_1)
  then show ?thesis by (simp add: bit.conj_disj_distrib2)
qed

lemma length_field: "n < 128 \<Longrightarrow> ((if masked then 0x80 else 0) OR of_nat n :: byte) AND 0x7F = of_nat n"
  using small_byte [of n] by (simp add: bit.conj_disj_distrib2 take_bit_eq_mask mask_eq_exp_minus_1)

lemma mask_field: "n < 128 \<Longrightarrow> (((if masked then 0x80 else 0) OR of_nat n :: byte) AND 0x80 \<noteq> 0) = masked"
proof -
  assume "n < 128"
  then have "(of_nat n :: byte) AND 0x80 = take_bit 7 (of_nat n) AND 0x80" by (simp add: small_byte)
  also have "\<dots> = 0" by (simp add: take_bit_eq_mask mask_eq_exp_minus_1 and.assoc)
  finally show ?thesis by (simp add: bit.conj_disj_distrib2)
qed

subsection \<open>Reading a frame\<close>

definition open_wire :: "wire \<Rightarrow> bool" where
  "open_wire w \<longleftrightarrow> cn_fd (wi_conn w) \<noteq> -1"

definition arrive :: "string \<Rightarrow> string list \<Rightarrow> string list" where
  "arrive s segs = (if s = [] then segs else s # segs)"

lemma open_wire_in [simp]: "open_wire (w\<lparr>wi_in := i\<rparr>) = open_wire w"
  by (simp add: open_wire_def)

lemma wire_read_avail:
  assumes "open_wire w" and "wi_in w = (s @ t) # segs"
  shows "wire_read (length s) w = (s, w\<lparr>wi_in := arrive t segs\<rparr>)"
  using assms by (auto simp: wire_read_def open_wire_def arrive_def)

lemma filled_full: "length got = n \<Longrightarrow> filled junk w n got = got"
  by (simp add: filled_def)

lemma zero_filled_full: "length got = n \<Longrightarrow> zero_filled n got = got"
  by (simp add: zero_filled_def)

lemma unat_len: "n < 2 ^ 64 \<Longrightarrow> unat (of_nat n :: 64 word) = n"
  by (simp add: unat_of_nat)

lemma read_length_field:
  assumes w: "open_wire w" "wi_in w = (ext_len n @ t) # segs" and t: "t \<noteq> []" and n: "n < 2 ^ 64"
  shows "read_length junk (of_nat (len7 n)) w = (Some (of_nat n), w\<lparr>wi_in := t # segs\<rparr>)"
proof -
  consider "n \<le> 125" | "125 < n" "n \<le> 65535" | "65535 < n" by linarith
  then show ?thesis
  proof cases
    case 1
    then have "of_nat n \<noteq> (126 :: 64 word)" "of_nat n \<noteq> (127 :: 64 word)"
      using unat_len [OF n] by (auto dest: arg_cong [where f = unat])
    with 1 w show ?thesis by (simp add: read_length_def len7_def ext_len_def)
  next
    case 2
    have "length (ext_len n) = 2" "be_word (ext_len n) = of_nat n"
      using 2 unat_len [OF n] by (simp_all add: ext_len_def be_word_length_bytes)
    moreover from this(1) have "ext_len n \<noteq> []" by auto
    ultimately show ?thesis using 2 wire_read_avail [OF w] t
      by (simp add: read_length_def len7_def filled_full arrive_def)
  next
    case 3
    have "length (ext_len n) = 8" "be_word (ext_len n) = of_nat n"
      using 3 unat_len [OF n] n by (simp_all add: ext_len_def be_word_length_bytes)
    moreover from this(1) have "ext_len n \<noteq> []" by auto
    ultimately show ?thesis using 3 wire_read_avail [OF w] t
      by (simp add: read_length_def len7_def filled_full arrive_def)
  qed
qed

lemma read_mask_field:
  assumes "open_wire w" "wi_in w = ((case key of None \<Rightarrow> [] | Some k \<Rightarrow> k) @ t) # segs" "t \<noteq> []" "key_ok key"
  shows "\<exists>k. read_mask (key \<noteq> None) w = (Some k, w\<lparr>wi_in := t # segs\<rparr>) \<and> (\<forall>k'. key = Some k' \<longrightarrow> k = k')"
proof (cases key)
  case None
  with assms show ?thesis by (simp add: read_mask_def)
next
  case (Some k)
  with assms have "length k = 4" "wi_in w = (k @ t) # segs" by (simp_all add: key_ok_def)
  with wire_read_avail [OF assms(1) this(2)] assms(3) Some show ?thesis
    by (auto simp: read_mask_def zero_filled_full arrive_def)
qed

lemma read_payload_peer:
  assumes w: "open_wire w" "wi_in w = ((case key of None \<Rightarrow> data | Some k \<Rightarrow> k @ unmask k data) @ rest) # segs"
    and data: "data \<noteq> []" "length data \<le> 16 * 1024 * 1024" and key: "key_ok key"
  shows "read_payload opcode (key \<noteq> None) (of_nat (length data)) w =
    frame_effect opcode data (w\<lparr>wi_in := arrive rest segs\<rparr>)"
proof -
  define body where "body = (case key of None \<Rightarrow> data | Some k \<Rightarrow> unmask k data)"
  have body: "body \<noteq> []" "length body = length data"
    using data(1) by (auto simp: body_def unmask_def split: option.split)
  have n: "length data < 2 ^ 64" using data(2) by simp
  have "(of_nat (length data) :: 64 word) \<le> of_nat (16 * 1024 * 1024)"
    using data(2) n by (simp add: word_le_nat_alt unat_len)
  then have small: "\<not> max_payload < of_nat (length data)" by (simp add: max_payload_def not_less)
  have "wi_in w = ((case key of None \<Rightarrow> [] | Some k \<Rightarrow> k) @ body @ rest) # segs"
    using w(2) by (simp add: body_def split: option.splits)
  from read_mask_field [OF w(1) this _ key] body(1) obtain k
    where k: "read_mask (key \<noteq> None) w = (Some k, w\<lparr>wi_in := (body @ rest) # segs\<rparr>)" "\<forall>k'. key = Some k' \<longrightarrow> k = k'"
    by auto
  have read: "wire_read (length data) (w\<lparr>wi_in := (body @ rest) # segs\<rparr>) = (body, w\<lparr>wi_in := arrive rest segs\<rparr>)"
    using wire_read_avail [of "w\<lparr>wi_in := (body @ rest) # segs\<rparr>" body rest segs] w(1) body by simp
  have payload: "(if key \<noteq> None then unmask k body else body) = data"
  proof (cases key)
    case (Some k')
    with k(2) have "k = k'" by blast
    with Some show ?thesis by (simp add: body_def unmask_twice)
  qed (simp add: body_def)
  show ?thesis
    by (simp only: read_payload_def small if_False k(1) prod.case option.case unat_len [OF n] read body(1)
        zero_filled_full [OF body(2)] Let_def payload)
qed

lemma readFrame_head:
  assumes w: "open_wire w" "wi_in w = (frame_head opcode masked n @ body) # segs"
    and "body \<noteq> []" and "n < 2 ^ 64" and "opcode < 16"
  shows "readFrame junk w = read_payload opcode masked (of_nat n) (w\<lparr>wi_in := body # segs\<rparr>)"
proof -
  define h0 where "h0 = byte_char (0x80 OR opcode)"
  define h1 where "h1 = byte_char ((if masked then 0x80 else 0) OR of_nat (len7 n))"
  from w(2) have in1: "wi_in w = ([h0, h1] @ ext_len n @ body) # segs" by (simp add: frame_head_def h0_def h1_def)
  define w1 where "w1 = w\<lparr>wi_in := (ext_len n @ body) # segs\<rparr>"
  have read1: "wire_read 2 w = ([h0, h1], w1)"
    using wire_read_avail [OF w(1) in1] assms(3) by (simp add: arrive_def numeral_2_eq_2 w1_def)
  have "ucast (char_byte h1 AND 0x7F) = (of_nat (len7 n) :: 64 word)"
    unfolding h1_def char_byte_char length_field [OF len7_small]
    using len7_small [of n] by (simp add: unsigned_of_nat take_bit_nat_eq_self)
  then have read2: "read_length junk (ucast (char_byte h1 AND 0x7F)) w1 = (Some (of_nat n), w\<lparr>wi_in := body # segs\<rparr>)"
    using read_length_field [of w1 n body segs junk] w(1) assms(3,4) by (simp add: w1_def)
  have mask: "(char_byte h1 AND 0x80 \<noteq> 0) = masked"
    unfolding h1_def char_byte_char by (rule mask_field [OF len7_small])
  have opcode: "char_byte h0 AND 0x0F = opcode"
    by (simp add: h0_def opcode_field [OF assms(5)])
  have "filled junk w 2 [h0, h1] = [h0, h1]" by (simp add: filled_full)
  then show ?thesis
    by (simp only: readFrame_def read1 prod.case list.distinct if_False Let_def nth_Cons_0 One_nat_def nth_Cons_Suc
        read2 option.case mask opcode)
qed

lemma readFrame_peer:
  assumes w: "open_wire w" "wi_in w = (peer_frame opcode key data @ rest) # segs"
    and data: "data \<noteq> []" "length data \<le> 16 * 1024 * 1024" and op: "opcode < 16" and key: "key_ok key"
  shows "readFrame junk w = frame_effect opcode data (w\<lparr>wi_in := arrive rest segs\<rparr>)"
proof -
  define body where "body = (case key of None \<Rightarrow> data | Some k \<Rightarrow> k @ unmask k data)"
  have body: "body @ rest \<noteq> []"
    using data(1) by (auto simp: body_def unmask_def split: option.split)
  have "wi_in w = (frame_head opcode (key \<noteq> None) (length data) @ body @ rest) # segs"
    using w(2) by (simp add: peer_frame_def body_def)
  with readFrame_head [OF w(1) this body _ op] data(2)
  have "readFrame junk w = read_payload opcode (key \<noteq> None) (of_nat (length data)) (w\<lparr>wi_in := (body @ rest) # segs\<rparr>)"
    by simp
  also have "\<dots> = frame_effect opcode data ((w\<lparr>wi_in := (body @ rest) # segs\<rparr>)\<lparr>wi_in := arrive rest segs\<rparr>)"
    using w(1) by (intro read_payload_peer [OF _ _ data key]) (simp_all add: body_def)
  finally show ?thesis by simp
qed

subsection \<open>The properties of single frames and of the upgrade\<close>

definition rfc_guid :: string where
  "rfc_guid = ''258EAFA5-E914-47DA-95CA-C5AB0DC85B11''"

definition rfc_reply :: "(byte list \<Rightarrow> byte list) \<Rightarrow> string \<Rightarrow> string" where
  "rfc_reply SHA1 key = accept_reply (base64_encode (SHA1 (text_bytes (key @ rfc_guid))))"

lemma accept_reply_inject: "accept_reply a = accept_reply b \<longleftrightarrow> a = b"
  by (simp add: accept_reply_def)

lemma text_bytes_inject: "text_bytes s = text_bytes t \<longleftrightarrow> s = t"
proof -
  have "inj char_byte" by (rule inj_on_inverseI [of _ byte_char]) simp
  then show ?thesis by (simp add: text_bytes_def inj_map_eq_map)
qed

text \<open>
  The answer to an upgrade request carries the accept value of RFC 6455 only if the hash of
  the key with the constant of the code happens to be the hash of the key with the constant of the
  protocol, which is another text: the constant of the code is not the one of the protocol.
\<close>

theorem upgrade_accept_iff:
  assumes "getHeader req ''Sec-WebSocket-Key'' = Some key"
  shows "(ws_handshake SHA1 req = rfc_reply SHA1 key \<longleftrightarrow>
      SHA1 (text_bytes (key @ ws_guid)) = SHA1 (text_bytes (key @ rfc_guid)))
    \<and> text_bytes (key @ ws_guid) \<noteq> text_bytes (key @ rfc_guid)"
proof -
  have "ws_guid \<noteq> rfc_guid" by (simp add: ws_guid_def rfc_guid_def)
  with assms show ?thesis
    by (simp add: text_bytes_inject ws_handshake_def rfc_reply_def accept_reply_inject base64.enc_inject)
qed

definition upgrade_request :: request where
  "upgrade_request = empty_request\<lparr>rq_headers := [''Upgrade'' \<mapsto> ''websocket'', ''Connection'' \<mapsto> ''Upgrade'',
     ''Sec-WebSocket-Key'' \<mapsto> ''dGhlIHNhbXBsZSBub25jZQ=='']\<rparr>"

theorem upgrade_accept_iff_witness:
  "ws_handshake (\<lambda>bs. take 20 (rev bs)) upgrade_request \<noteq> rfc_reply (\<lambda>bs. take 20 (rev bs)) ''dGhlIHNhbXBsZSBub25jZQ==''"
proof -
  have key: "getHeader upgrade_request ''Sec-WebSocket-Key'' = Some ''dGhlIHNhbXBsZSBub25jZQ==''"
    by (simp add: getHeader_def upgrade_request_def)
  have "take 20 (rev (text_bytes (''dGhlIHNhbXBsZSBub25jZQ=='' @ ws_guid)))
      \<noteq> take 20 (rev (text_bytes (''dGhlIHNhbXBsZSBub25jZQ=='' @ rfc_guid)))"
    by code_simp
  then show ?thesis
    by (simp only: upgrade_accept_iff [OF key, of "\<lambda>bs. take 20 (rev bs)", THEN conjunct1] not_False_eq_True)
qed

text \<open>
  C17. A whole frame that has arrived is read as it was sent: for every payload of 1 byte to 16 MB,
  with a length of 7, 16 or 64 bits, masked or not, the payload comes out of \<open>readFrame\<close>
  and the bytes behind the frame are left; a ping is answered with a frame that the other side reads
  back as the same payload.
\<close>

theorem frame_roundtrip:
  assumes "open_wire w" and "wi_in w = (peer_frame opcode key data @ rest) # segs" and "key_ok key"
    and "data \<noteq> []" and "length data \<le> 16 * 1024 * 1024" and "opcode < 16" and "opcode \<noteq> 8"
  shows "readFrame junk w =
      (let w' = w\<lparr>wi_in := (if rest = [] then segs else rest # segs)\<rparr>
       in Inr (data, if opcode = 9 then wire_write (peer_frame 0xA None data) w' else w'))"
  using readFrame_peer [OF assms(1,2,4,5,6,3)] assms(7)
  by (simp add: frame_effect_def arrive_def sendFrame_def frame_bytes_peer)

definition sample_wire :: "string list \<Rightarrow> wire" where
  "sample_wire segs =
     \<lparr>wi_conn = new_conn 5 ''10.0.0.1'' 4711, wi_net = \<lparr>nt_open = {5}, nt_ssl = {}\<rparr>, wi_in = segs, wi_out = [],
      wi_accept = []\<rparr>"

theorem frame_roundtrip_witness:
  "readFrame (\<lambda>_ _. CHR 0x00) (sample_wire [peer_frame 9 (Some ''key!'') ''hello'' @ ''next'']) =
    Inr (''hello'', (sample_wire [''next''])\<lparr>wi_out := peer_frame 0xA None ''hello''\<rparr>)"
proof -
  let ?w = "sample_wire [peer_frame 9 (Some ''key!'') ''hello'' @ ''next'']"
  have "open_wire ?w" "wi_in ?w = (peer_frame 9 (Some ''key!'') ''hello'' @ ''next'') # []" "key_ok (Some ''key!'')"
    "''hello'' \<noteq> []" "length ''hello'' \<le> 16 * 1024 * 1024" "(9 :: byte) < 16" "(9 :: byte) \<noteq> 8"
    by (simp_all add: open_wire_def sample_wire_def new_conn_def key_ok_def)
  from frame_roundtrip [OF this] show ?thesis
    by (simp add: sample_wire_def wire_write_def new_conn_def Let_def)
qed

text \<open>
  A frame whose bytes arrive in two segments is not put together again: the message that comes
  out ends in bytes of the masking key in place of the part that arrives later, and that part is
  what the next frame is read from.
\<close>

theorem split_frame_corrupted:
  assumes "open_wire w" and "wi_in w = (frame_head opcode True n @ key @ unmask key front) # rest # segs"
    and "length key = 4" and "front \<noteq> []" and "length front < n" and "n \<le> 16 * 1024 * 1024"
    and "opcode < 16" and "opcode \<noteq> 8" and "opcode \<noteq> 9"
  shows "readFrame junk w =
    Inr (front @ map (\<lambda>i. key ! (i mod 4)) [length front..<n], w\<lparr>wi_in := rest # segs\<rparr>)"
proof -
  let ?body = "unmask key front"
  let ?w1 = "w\<lparr>wi_in := (key @ ?body) # rest # segs\<rparr>"
  let ?w2 = "w\<lparr>wi_in := ?body # rest # segs\<rparr>"
  have body: "?body \<noteq> []" "length ?body = length front" using assms(4) by (auto simp: unmask_def)
  have "(of_nat n :: 64 word) \<le> of_nat (16 * 1024 * 1024)"
    using assms(6) by (simp add: word_le_nat_alt unat_len)
  then have small: "\<not> max_payload < of_nat n" by (simp add: max_payload_def not_less)
  have n: "unat (of_nat n :: 64 word) = n" using assms(6) by (simp add: unat_len)
  have mask: "read_mask True ?w1 = (Some key, ?w2)"
    using wire_read_avail [of ?w1 key ?body "rest # segs"] assms(1,3) body
    by (auto simp: read_mask_def zero_filled_full arrive_def)
  have read: "wire_read n ?w2 = (?body, w\<lparr>wi_in := rest # segs\<rparr>)"
    using assms(1,5) body by (simp add: wire_read_def open_wire_def)
  have "char_byte (CHR 0x00) = 0" by (simp add: char_byte_def)
  then have xor0: "xor_char (CHR 0x00) c = c" for c by (simp add: xor_char_def)
  have payload: "unmask key (zero_filled n ?body) = front @ map (\<lambda>i. key ! (i mod 4)) [length front..<n]"
    using assms(5) body
    by (intro nth_equalityI) (auto simp: unmask_def zero_filled_def nth_append xor_char_twice xor0)
  have "readFrame junk w = read_payload opcode True (of_nat n) ?w1"
    using assms body by (intro readFrame_head) auto
  also have "\<dots> = frame_effect opcode (front @ map (\<lambda>i. key ! (i mod 4)) [length front..<n]) (w\<lparr>wi_in := rest # segs\<rparr>)"
    by (simp only: read_payload_def small if_False if_True mask prod.case option.case n read body(1) Let_def payload)
  finally show ?thesis using assms(8,9) by (simp add: frame_effect_def)
qed

theorem split_frame_corrupted_witness:
  "readFrame (\<lambda>_ _. CHR 0x00) (sample_wire [frame_head 1 True 5 @ ''key!'' @ unmask ''key!'' ''hel'', ''XY'']) =
    Inr (''hel!k'', sample_wire [''XY''])"
proof -
  let ?w = "sample_wire [frame_head 1 True 5 @ ''key!'' @ unmask ''key!'' ''hel'', ''XY'']"
  have "open_wire ?w" "wi_in ?w = (frame_head 1 True 5 @ ''key!'' @ unmask ''key!'' ''hel'') # ''XY'' # []"
    "length ''key!'' = 4" "''hel'' \<noteq> []" "length ''hel'' < 5" "(5 :: nat) \<le> 16 * 1024 * 1024"
    "(1 :: byte) < 16" "(1 :: byte) \<noteq> 8" "(1 :: byte) \<noteq> 9"
    by (simp_all add: open_wire_def sample_wire_def new_conn_def)
  from split_frame_corrupted [OF this] show ?thesis by (simp add: sample_wire_def upt_rec)
qed

subsection \<open>A whole conversation\<close>

text \<open>
  The frames of a client, in the segments they arrive in, each of which holds whole frames or is a
  pause before the next frame; and a
  program that reacts to a message with a new state of its own and frames to send.
\<close>

type_synonym frame = "byte \<times> string option \<times> string"

definition frame_text :: "frame \<Rightarrow> string" where
  "frame_text f = (case f of (opcode, key, data) \<Rightarrow> peer_frame opcode key data)"

definition frame_ok :: "frame \<Rightarrow> bool" where
  "frame_ok f \<longleftrightarrow> (case f of (opcode, key, data) \<Rightarrow>
     opcode < 16 \<and> key_ok key \<and> data \<noteq> [] \<and> length data \<le> 16 * 1024 * 1024)"

fun arrives :: "frame list \<Rightarrow> string list \<Rightarrow> bool" where
  "arrives [] segs \<longleftrightarrow> segs = []"
| "arrives (f # fs) [] \<longleftrightarrow> False"
| "arrives (f # fs) (s # segs) \<longleftrightarrow>
     (if s = [] then arrives (f # fs) segs
      else prefix (frame_text f) s \<and> arrives fs (arrive (drop (length (frame_text f)) s) segs))"

type_synonym 'u reaction = "'u \<Rightarrow> 'u \<times> (string \<times> byte) list"

definition sends :: "(string \<times> byte) list \<Rightarrow> wire \<Rightarrow> wire" where
  "sends replies w = fold (\<lambda>(data, opcode). sendFrame data opcode) replies w"

definition react :: "'u reaction \<Rightarrow> 'u ws_state \<Rightarrow> 'u ws_state" where
  "react cb s = (case cb (snd s) of (u, replies) \<Rightarrow> (sends replies (fst s), u))"

definition replies_text :: "(string \<times> byte) list \<Rightarrow> string" where
  "replies_text replies = concat (map (\<lambda>(data, opcode). frame_bytes data opcode) replies)"

text \<open>The reference: the state and the bytes sent after a list of messages.\<close>

fun dialogue :: "(string \<Rightarrow> 'u reaction) \<Rightarrow> frame list \<Rightarrow> 'u \<Rightarrow> 'u \<times> string" where
  "dialogue cb [] u = (u, [])"
| "dialogue cb ((opcode, key, data) # fs) u =
     (case cb data u of (u1, replies) \<Rightarrow>
      case dialogue cb fs u1 of (u2, sent) \<Rightarrow>
        (u2, (if opcode = 9 then frame_bytes data 0xA else []) @ replies_text replies @ sent))"

definition hears_all :: "wire \<Rightarrow> bool" where
  "hears_all w \<longleftrightarrow> open_wire w \<and> wi_accept w = []"

lemma wire_write_open: "hears_all w \<Longrightarrow> wire_write data w = w\<lparr>wi_out := wi_out w @ data\<rparr>"
  by (simp add: hears_all_def open_wire_def wire_write_def)

lemma hears_all_upd [simp]:
  "hears_all (w\<lparr>wi_in := i\<rparr>) = hears_all w" "hears_all (w\<lparr>wi_out := out\<rparr>) = hears_all w"
  by (simp_all add: hears_all_def open_wire_def)

lemma sends_open: "hears_all w \<Longrightarrow> sends replies w = w\<lparr>wi_out := wi_out w @ replies_text replies\<rparr>"
proof (induction replies arbitrary: w)
  case (Cons r replies)
  obtain d op where "r = (d, op)" by (cases r)
  moreover have "hears_all (w\<lparr>wi_out := wi_out w @ frame_bytes d op\<rparr>)" using Cons.prems by simp
  ultimately show ?case
    using Cons.IH [of "w\<lparr>wi_out := wi_out w @ frame_bytes d op\<rparr>"] Cons.prems
    by (simp add: sends_def replies_text_def sendFrame_def wire_write_open)
qed (simp add: sends_def replies_text_def)

lemma sends_closed: "cn_fd (wi_conn w) = -1 \<Longrightarrow> sends replies w = w"
  by (induction replies arbitrary: w) (auto simp: sends_def sendFrame_def wire_write_def)

lemma peer_frame_not_Nil [simp]: "peer_frame opcode key data \<noteq> []"
  by (simp add: peer_frame_def frame_head_def)

lemma arrives_await:
  "arrives (f # fs) segs \<Longrightarrow> \<exists>s segs'. dropWhile (\<lambda>s. s = []) segs = s # segs' \<and> prefix (frame_text f) s
    \<and> arrives fs (arrive (drop (length (frame_text f)) s) segs')"
  by (induction segs) (auto split: if_splits)

lemma readFrame_arrives:
  assumes "hears_all w" and "arrives (f # fs) (wi_in w)" and "frame_ok f" and "f = (opcode, key, data)"
  shows "\<exists>segs. readFrame junk (await w) = frame_effect opcode data (w\<lparr>wi_in := segs\<rparr>) \<and> arrives fs segs"
proof -
  obtain s segs where segs: "wi_in (await w) = s # segs"
    and s: "prefix (frame_text f) s" "arrives fs (arrive (drop (length (frame_text f)) s) segs)"
    using arrives_await [OF assms(2)] by (auto simp: await_def)
  from s(1) obtain rest where rest: "s = frame_text f @ rest" by (auto simp: prefix_def)
  have "wi_in (await w) = (peer_frame opcode key data @ rest) # segs" "open_wire (await w)"
    using segs rest assms(1,4) by (simp_all add: frame_text_def hears_all_def open_wire_def await_def)
  from readFrame_peer [OF this(2,1)] have "readFrame junk (await w) = frame_effect opcode data ((await w)\<lparr>wi_in := arrive rest segs\<rparr>)"
    using assms by (simp add: frame_ok_def)
  with s(2) rest show ?thesis by (auto simp: await_def)
qed

lemma ws_loop_step:
  "readFrame junk (await w) = Inr (payload, w') \<Longrightarrow> payload \<noteq> [] \<Longrightarrow>
   ws_loop junk (Some f) (w, u) = ws_loop junk (Some f) (f payload (w', u))"
  by (subst ws_loop.simps) (simp add: call_def)

lemma ws_loop_end:
  "readFrame junk (await w) = Inr ([], w') \<Longrightarrow> ws_loop junk cb (w, u) = Some (Inr (w', u))"
  by (subst ws_loop.simps) simp

lemma ws_loop_frames:
  assumes "hears_all w" and "\<forall>f \<in> set fs. frame_ok f \<and> fst f \<noteq> 8" and "arrives (fs @ [(8, key, reason)]) (wi_in w)"
    and "frame_ok (8, key, reason)" and "dialogue cb fs u = (u', sent)"
  shows "ws_loop junk (Some (\<lambda>p. react (cb p))) (w, u) =
    map_option (map_sum id (\<lambda>w'. (w', u')))
      (Some (wire_close (w\<lparr>wi_in := [], wi_out := wi_out w @ sent @ frame_bytes [] 8\<rparr>)))"
  using assms
proof (induction fs arbitrary: w u u' sent)
  case Nil
  then obtain segs where "readFrame junk (await w) = frame_effect 8 reason (w\<lparr>wi_in := segs\<rparr>)" "arrives [] segs"
    using readFrame_arrives [of w "(8, key, reason)" "[]" 8 key reason junk] by auto
  with Nil show ?case
    by (subst ws_loop.simps)
      (cases "wire_close (w\<lparr>wi_in := [], wi_out := wi_out w @ frame_bytes [] 8\<rparr>)",
        auto simp: frame_effect_def sendFrame_def wire_write_open)
next
  case (Cons f fs)
  obtain opcode k data where f: "f = (opcode, k, data)" by (cases f)
  obtain u1 replies where cb: "cb data u = (u1, replies)" by (cases "cb data u")
  obtain u2 sent' where rest: "dialogue cb fs u1 = (u2, sent')" by (cases "dialogue cb fs u1")
  from Cons.prems f have data: "data \<noteq> []" "opcode \<noteq> 8" by (auto simp: frame_ok_def)
  have "arrives (f # fs @ [(8, key, reason)]) (wi_in w)" "frame_ok f" using Cons.prems(2,3) by simp_all
  from readFrame_arrives [OF Cons.prems(1) this f]
  obtain segs where segs: "readFrame junk (await w) = frame_effect opcode data (w\<lparr>wi_in := segs\<rparr>)"
    "arrives (fs @ [(8, key, reason)]) segs"
    by blast
  define pong where "pong = (if opcode = 9 then frame_bytes data 0xA else [])"
  have read: "readFrame junk (await w) = Inr (data, w\<lparr>wi_in := segs, wi_out := wi_out w @ pong\<rparr>)"
    using segs(1) data Cons.prems(1)
    by (simp add: frame_effect_def pong_def sendFrame_def wire_write_open)
  let ?w = "w\<lparr>wi_in := segs, wi_out := wi_out w @ pong @ replies_text replies\<rparr>"
  have "ws_loop junk (Some (\<lambda>p. react (cb p))) (w, u) = ws_loop junk (Some (\<lambda>p. react (cb p))) (?w, u1)"
    using ws_loop_step [OF read data(1), of "\<lambda>p. react (cb p)" u] Cons.prems(1)
    by (simp add: react_def cb sends_open)
  also have "\<dots> = map_option (map_sum id (\<lambda>w'. (w', u2)))
      (Some (wire_close (?w\<lparr>wi_in := [], wi_out := wi_out ?w @ sent' @ frame_bytes [] 8\<rparr>)))"
    using Cons.IH [of ?w u1 u2 sent'] Cons.prems segs(2) rest by (simp add: id_def)
  finally show ?case
    using Cons.prems(5) by (clarsimp simp: f cb rest pong_def id_def)
qed

lemma wire_close_released:
  assumes "open_wire w" and "\<forall>s. cn_ssl (wi_conn w) = Some s \<longrightarrow> s \<in> nt_ssl (wi_net w)"
  shows "wire_close w = Inr (w\<lparr>wi_conn := (wi_conn w)\<lparr>cn_ssl := None, cn_fd := -1\<rparr>,
    wi_net := released (wi_conn w) (wi_net w)\<rparr>)"
  using assms
  by (cases "cn_ssl (wi_conn w)")
    (auto simp: wire_close_def open_wire_def conn_close_def released_def owned_fd_def sys_close_def
      ssl_free_opt_def ssl_free_def)

lemma conversation_run:
  assumes "hears_all w" and "cn_ssl (wi_conn w) = None"
    and "\<forall>f \<in> set fs. frame_ok f \<and> fst f \<noteq> 8" and "arrives (fs @ [(8, key, reason)]) (wi_in w)"
    and "frame_ok (8, key, reason)" and "epfd \<noteq> -1" and "ctl \<noteq> -1"
    and "opened u = (u1, greeting)" and "dialogue cb fs u1 = (u2, sent)"
  shows "ws_run junk epfd ctl (Some (react opened)) (Some (\<lambda>p. react (cb p))) (Some (react closed)) (w, u) =
    Some (Inr (w\<lparr>wi_in := [], wi_out := wi_out w @ replies_text greeting @ sent @ frame_bytes [] 8,
        wi_conn := (wi_conn w)\<lparr>cn_ssl := None, cn_fd := -1\<rparr>,
        wi_net := (released (wi_conn w) (wi_net w))\<lparr>nt_open := nt_open (wi_net w) - {cn_fd (wi_conn w), epfd}\<rparr>\<rparr>,
      fst (closed u2)))"
proof -
  let ?n = "(wi_net w)\<lparr>nt_open := insert epfd (nt_open (wi_net w))\<rparr>"
  let ?w = "w\<lparr>wi_net := ?n, wi_out := wi_out w @ replies_text greeting\<rparr>"
  let ?e = "?w\<lparr>wi_in := [], wi_out := wi_out ?w @ sent @ frame_bytes [] 8\<rparr>"
  have heard: "hears_all (w\<lparr>wi_net := ?n\<rparr>)" "hears_all ?w" "open_wire ?e"
    using assms(1) by (simp_all add: hears_all_def open_wire_def)
  have opened: "call (Some (react opened)) (w\<lparr>wi_net := ?n\<rparr>, u) = (?w, u1)"
    using assms(8) by (simp add: call_def react_def sends_open [OF heard(1)])
  have "ws_loop junk (Some (\<lambda>p. react (cb p))) (?w, u1) =
      map_option (map_sum id (\<lambda>w'. (w', u2))) (Some (wire_close ?e))"
    using ws_loop_frames [OF heard(2) assms(3) _ assms(5,9), of junk] assms(4) by simp
  also have "wire_close ?e = Inr (?e\<lparr>wi_conn := (wi_conn w)\<lparr>cn_ssl := None, cn_fd := -1\<rparr>, wi_net := released (wi_conn w) ?n\<rparr>)"
    using wire_close_released [OF heard(3)] assms(2) by simp
  finally have loop: "ws_loop junk (Some (\<lambda>p. react (cb p))) (?w, u1) =
    Some (Inr (?e\<lparr>wi_conn := (wi_conn w)\<lparr>cn_ssl := None, cn_fd := -1\<rparr>, wi_net := released (wi_conn w) ?n\<rparr>, u2))"
    by simp
  have fd: "cn_fd (wi_conn w) \<noteq> -1" using assms(1) by (simp add: hears_all_def open_wire_def)
  have "insert epfd (nt_open (wi_net w)) - {cn_fd (wi_conn w)} - {epfd} = nt_open (wi_net w) - {cn_fd (wi_conn w), epfd}"
    by auto
  then show ?thesis
    using assms(6,7) opened fd
    by (simp add: ws_run_def Let_def loop)
      (simp add: call_def react_def sends_closed close_epoll_def sys_close_def released_def owned_fd_def split: prod.split)
qed

text \<open>The object of a program that sets all three callbacks.\<close>

definition talking :: "'u reaction \<Rightarrow> (string \<Rightarrow> 'u reaction) \<Rightarrow> 'u reaction \<Rightarrow> 'u websocket" where
  "talking opened cb closed = onOpen (Some (react opened))
     (onMessage (Some (\<lambda>p. react (cb p))) (onClose (Some (react closed)) WebSocket_new))"

lemma WebSocket_run_talking:
  "WebSocket_run junk epfd ctl (talking opened cb closed) =
   ws_run junk epfd ctl (Some (react opened)) (Some (\<lambda>p. react (cb p))) (Some (react closed))"
  by (simp add: WebSocket_run_def talking_def onOpen_def onMessage_def onClose_def WebSocket_new_def)

text \<open>
  A conversation over an open connection without TLS: the frames of the client, grouped into segments in
  any way, each with a payload, the last one a close frame. Then \<open>run\<close> returns; the program has
  been given every message once and in order, between the callbacks for opening and closing; the
  bytes sent are what it sent in reaction, each ping answered first, and a close frame at the end;
  the connection is closed and its resources and the epoll descriptor are given back.
\<close>

theorem conversation:
  assumes "hears_all w" and "cn_ssl (wi_conn w) = None"
    and "\<forall>f \<in> set fs. frame_ok f \<and> fst f \<noteq> 8" and "arrives (fs @ [(8, key, reason)]) (wi_in w)"
    and "frame_ok (8, key, reason)" and "epfd \<noteq> -1" and "ctl \<noteq> -1"
    and "opened u = (u1, greeting)" and "dialogue cb fs u1 = (u2, sent)"
  shows "WebSocket_run junk epfd ctl (talking opened cb closed) (w, u) =
    Some (Inr (w\<lparr>wi_in := [], wi_out := wi_out w @ replies_text greeting @ sent @ frame_bytes [] 8,
        wi_conn := (wi_conn w)\<lparr>cn_ssl := None, cn_fd := -1\<rparr>,
        wi_net := (released (wi_conn w) (wi_net w))\<lparr>nt_open := nt_open (wi_net w) - {cn_fd (wi_conn w), epfd}\<rparr>\<rparr>,
      fst (closed u2)))"
  unfolding WebSocket_run_talking by (rule conversation_run) (fact assms)+

theorem conversation_witness:
  "WebSocket_run (\<lambda>_ _. CHR 0x00) 7 0
     (talking (\<lambda>n. (n, [(''hi'', 1)])) (\<lambda>p n. (n + length p, [(p, 1)])) (\<lambda>n. (n + 100, [])))
     (sample_wire [peer_frame 1 (Some ''key!'') ''abc'' @ peer_frame 9 None ''x'', peer_frame 8 None ''by''], 0 :: nat) =
   Some (Inr ((sample_wire [])\<lparr>wi_out := frame_bytes ''hi'' 1 @ frame_bytes ''abc'' 1 @ frame_bytes ''x'' 10 @
        frame_bytes ''x'' 1 @ frame_bytes [] 8, wi_conn := \<lparr>cn_fd = -1, cn_ip = ''10.0.0.1'', cn_port = 4711, cn_ssl = None\<rparr>,
      wi_net := \<lparr>nt_open = {}, nt_ssl = {}\<rparr>\<rparr>, 104))"
proof -
  let ?fs = "[(1, Some ''key!'', ''abc''), (9, None, ''x'')] :: frame list"
  let ?w = "sample_wire [peer_frame 1 (Some ''key!'') ''abc'' @ peer_frame 9 None ''x'', peer_frame 8 None ''by'']"
  let ?cb = "\<lambda>p n. (n + length p, [(p, 1 :: byte)])"
  have hyps: "hears_all ?w" "cn_ssl (wi_conn ?w) = None"
    "\<forall>f \<in> set ?fs. frame_ok f \<and> fst f \<noteq> 8" "arrives (?fs @ [(8, None, ''by'')]) (wi_in ?w)"
    "frame_ok (8, None, ''by'')" "(7 :: int) \<noteq> -1" "(0 :: int) \<noteq> -1"
    by (simp_all add: hears_all_def open_wire_def sample_wire_def new_conn_def frame_ok_def key_ok_def
        frame_text_def arrive_def)
  have "dialogue ?cb ?fs 0 = (4, frame_bytes ''abc'' 1 @ frame_bytes ''x'' 10 @ frame_bytes ''x'' 1)"
    by (simp add: replies_text_def)
  from conversation [where opened = "\<lambda>n. (n, [(''hi'', 1)])" and closed = "\<lambda>n. (n + 100, [])" and
      junk = "\<lambda>_ _. CHR 0x00", OF hyps refl this]
  show ?thesis
    by (simp add: sample_wire_def new_conn_def replies_text_def released_def owned_fd_def)
qed

end
