(* ===== verification/Rate_Limiter.thy ===== *)
theory Rate_Limiter
  imports Complex_Main Middleware
begin

section \<open>The rate limiter\<close>

text \<open>
  Models \<^verbatim>\<open>src/security/rate_limiter.cpp\<close>: a bucket of tokens for every client
  address, refilled as time goes by. Tokens are \<^verbatim>\<open>double\<close>s: a rational number, an
  infinity or not-a-number, and the result of an operation on numbers is the exact one after
  \<open>rnd\<close>, the rounding of the machine, an argument. The values of this program are far from the
  largest double, so rounding never overflows. The clock is read once per request, in nanoseconds.
\<close>

datatype dbl = Fin rat | Inf bool | NaN

fun dbl_add :: "(rat \<Rightarrow> rat) \<Rightarrow> dbl \<Rightarrow> dbl \<Rightarrow> dbl" where
  "dbl_add rnd (Fin a) (Fin b) = Fin (rnd (a + b))"
| "dbl_add rnd (Inf s) (Inf t) = (if s = t then Inf s else NaN)"
| "dbl_add rnd (Inf s) (Fin b) = Inf s"
| "dbl_add rnd (Fin a) (Inf t) = Inf t"
| "dbl_add rnd _ _ = NaN"

text \<open>A number times a double.\<close>

fun dbl_scale :: "(rat \<Rightarrow> rat) \<Rightarrow> rat \<Rightarrow> dbl \<Rightarrow> dbl" where
  "dbl_scale rnd a (Fin b) = Fin (rnd (a * b))"
| "dbl_scale rnd a (Inf s) = (if a = 0 then NaN else Inf ((0 < a) = s))"
| "dbl_scale rnd a NaN = NaN"

text \<open>The quotient of two integers; the divisor may be 0.\<close>

definition dbl_quotient :: "(rat \<Rightarrow> rat) \<Rightarrow> int \<Rightarrow> int \<Rightarrow> dbl" where
  "dbl_quotient rnd a b =
     (if b = 0 then (if a = 0 then NaN else Inf (0 < a)) else Fin (rnd (of_int a / of_int b)))"

text \<open>Comparisons with an integer; they are false on not-a-number.\<close>

fun dbl_greater :: "dbl \<Rightarrow> int \<Rightarrow> bool" where
  "dbl_greater (Fin a) n = (of_int n < a)"
| "dbl_greater (Inf s) n = s"
| "dbl_greater NaN n = False"

fun dbl_at_least :: "dbl \<Rightarrow> int \<Rightarrow> bool" where
  "dbl_at_least (Fin a) n = (of_int n \<le> a)"
| "dbl_at_least (Inf s) n = s"
| "dbl_at_least NaN n = False"

record bucket =
  bk_tokens :: dbl
  bk_last :: int
  bk_initialized :: bool

type_synonym buckets = "string \<rightharpoonup> bucket"

definition new_bucket :: "int \<Rightarrow> bucket" where
  "new_bucket now = \<lparr>bk_tokens = Fin 0, bk_last = now, bk_initialized = False\<rparr>"

definition elapsed_seconds :: "(rat \<Rightarrow> rat) \<Rightarrow> int \<Rightarrow> rat" where
  "elapsed_seconds rnd ns = rnd (rnd (of_int ns) / 1000000000)"

definition bucket_init :: "int \<Rightarrow> int \<Rightarrow> bucket \<Rightarrow> bucket" where
  "bucket_init max_requests now b =
     (if bk_initialized b then b
      else b\<lparr>bk_tokens := Fin (of_int max_requests), bk_last := now, bk_initialized := True\<rparr>)"

definition bucket_refill :: "(rat \<Rightarrow> rat) \<Rightarrow> int \<Rightarrow> int \<Rightarrow> int \<Rightarrow> bucket \<Rightarrow> bucket" where
  "bucket_refill rnd max_requests period_seconds now b =
     (let elapsed = elapsed_seconds rnd (now - bk_last b);
          tokens = dbl_add rnd (bk_tokens b) (dbl_scale rnd elapsed (dbl_quotient rnd max_requests period_seconds))
      in b\<lparr>bk_tokens := (if dbl_greater tokens max_requests then Fin (of_int max_requests) else tokens),
           bk_last := now\<rparr>)"

definition bucket_take :: "(rat \<Rightarrow> rat) \<Rightarrow> bucket \<Rightarrow> bool \<times> bucket" where
  "bucket_take rnd b =
     (if dbl_at_least (bk_tokens b) 1 then (True, b\<lparr>bk_tokens := dbl_add rnd (bk_tokens b) (Fin (-1))\<rparr>)
      else (False, b))"

definition limiter_step :: "(rat \<Rightarrow> rat) \<Rightarrow> int \<Rightarrow> int \<Rightarrow> string \<Rightarrow> int \<Rightarrow> buckets \<Rightarrow> bool \<times> buckets" where
  "limiter_step rnd max_requests period_seconds ip now bs =
     (let b = (case bs ip of Some b \<Rightarrow> b | None \<Rightarrow> new_bucket now);
          (allowed, b') = bucket_take rnd (bucket_refill rnd max_requests period_seconds now (bucket_init max_requests now b))
      in (allowed, bs(ip \<mapsto> b')))"

definition RateLimiter ::
  "('w \<Rightarrow> buckets) \<Rightarrow> (buckets \<Rightarrow> 'w \<Rightarrow> 'w) \<Rightarrow> ('w \<Rightarrow> int) \<Rightarrow> (rat \<Rightarrow> rat) \<Rightarrow> int \<Rightarrow> int \<Rightarrow> 'w middleware" where
  "RateLimiter get put clock rnd max_requests period_seconds c nxt =
     (case c of (req, res, w) \<Rightarrow>
        let (allowed, bs) = limiter_step rnd max_requests period_seconds (rq_client_ip req) (clock w) (get w);
            w' = put bs w
        in if allowed then nxt (req, res, w')
           else (None, req, res_body ''Too Many Requests'' (res_status 429 res), w'))"

definition limiter_decide ::
  "('w \<Rightarrow> buckets) \<Rightarrow> (buckets \<Rightarrow> 'w \<Rightarrow> 'w) \<Rightarrow> ('w \<Rightarrow> int) \<Rightarrow> (rat \<Rightarrow> rat) \<Rightarrow> int \<Rightarrow> int \<Rightarrow> 'w ctx \<Rightarrow> 'w verdict" where
  "limiter_decide get put clock rnd max_requests period_seconds c =
     (case c of (req, res, w) \<Rightarrow>
        let (allowed, bs) = limiter_step rnd max_requests period_seconds (rq_client_ip req) (clock w) (get w)
        in if allowed then Continue (req, res, put bs w)
           else Stop (req, res_body ''Too Many Requests'' (res_status 429 res), put bs w))"

interpretation limiter_filter: filter_middleware
  "RateLimiter get put clock rnd max_requests period_seconds"
  "limiter_decide get put clock rnd max_requests period_seconds"
  for get put clock rnd max_requests period_seconds
  by unfold_locales (auto simp: RateLimiter_def limiter_decide_def Let_def split: prod.splits)

subsection \<open>A run of the limiter\<close>

text \<open>Requests are pairs of an address and a time; the result says which ones were let through.\<close>

fun limiter_run :: "(rat \<Rightarrow> rat) \<Rightarrow> int \<Rightarrow> int \<Rightarrow> (string \<times> int) list \<Rightarrow> buckets \<Rightarrow> bool list \<times> buckets" where
  "limiter_run rnd m p [] bs = ([], bs)"
| "limiter_run rnd m p ((ip, now) # reqs) bs =
     (let (allowed, bs') = limiter_step rnd m p ip now bs;
          (rest, bs'') = limiter_run rnd m p reqs bs'
      in (allowed # rest, bs''))"

lemma limiter_run_Cons [simp]:
  "fst (limiter_run rnd m p ((ip, now) # reqs) bs) =
     fst (limiter_step rnd m p ip now bs) # fst (limiter_run rnd m p reqs (snd (limiter_step rnd m p ip now bs)))"
  "snd (limiter_run rnd m p ((ip, now) # reqs) bs) =
     snd (limiter_run rnd m p reqs (snd (limiter_step rnd m p ip now bs)))"
  by (simp_all add: Let_def split: prod.split)

declare limiter_run.simps(2) [simp del]

text \<open>How many requests of an address are let through.\<close>

fun admitted :: "string \<Rightarrow> (string \<times> int) list \<Rightarrow> bool list \<Rightarrow> nat" where
  "admitted ip ((ip', now) # reqs) (b # bs) = (if ip' = ip \<and> b then 1 else 0) + admitted ip reqs bs"
| "admitted ip _ _ = 0"

text \<open>
  What is assumed of the rounding: a number that is not negative is not made negative, and its
  relative error upwards is at most \<open>e\<close>. Rounding to IEEE doubles has \<open>e = 2 ^ -53\<close> as long as
  the numbers are neither subnormal nor too large for a double, which those of the limiter are
  not (tokens up to the limit, and whole seconds times limit over period); exact arithmetic has
  \<open>e = 0\<close>.
\<close>

definition rounds_within :: "rat \<Rightarrow> (rat \<Rightarrow> rat) \<Rightarrow> bool" where
  "rounds_within e rnd \<longleftrightarrow> 0 \<le> e \<and> (\<forall>x. 0 \<le> x \<longrightarrow> 0 \<le> rnd x \<and> rnd x \<le> (1 + e) * x)"

lemma rounds_withinD:
  "rounds_within e rnd \<Longrightarrow> 0 \<le> e"
  "rounds_within e rnd \<Longrightarrow> 0 \<le> x \<Longrightarrow> 0 \<le> rnd x"
  "rounds_within e rnd \<Longrightarrow> 0 \<le> x \<Longrightarrow> rnd x \<le> (1 + e) * x"
  by (simp_all add: rounds_within_def)

definition bucket_ok :: "int \<Rightarrow> bucket \<Rightarrow> bool" where
  "bucket_ok now b \<longleftrightarrow> (\<exists>t. bk_tokens b = Fin t \<and> 0 \<le> t) \<and> bk_last b \<le> now \<and> bk_initialized b"

definition limiter_ok :: "int \<Rightarrow> buckets \<Rightarrow> bool" where
  "limiter_ok now bs \<longleftrightarrow> (\<forall>ip b. bs ip = Some b \<longrightarrow> bucket_ok now b)"

text \<open>The tokens an address gets in some nanoseconds, with the rounding errors of the code.\<close>

definition gain :: "rat \<Rightarrow> int \<Rightarrow> int \<Rightarrow> int \<Rightarrow> rat" where
  "gain e m p ns = (1 + e) ^ 4 * (of_int ns / 1000000000) * (of_int m / of_int p)"

lemma gain_add: "gain e m p (a + b) = gain e m p a + gain e m p b"
  by (simp add: gain_def add_divide_distrib distrib_left distrib_right)

lemma gain_nonneg: "0 \<le> e \<Longrightarrow> 0 \<le> m \<Longrightarrow> 0 \<le> p \<Longrightarrow> 0 \<le> ns \<Longrightarrow> 0 \<le> gain e m p ns"
  by (simp add: gain_def)

lemma bucket_init_ok: "bucket_ok t b \<Longrightarrow> bucket_init m now b = b"
  by (simp add: bucket_ok_def bucket_init_def)

lemma refill_amount:
  assumes r: "rounds_within e rnd" and "0 \<le> ns" "0 \<le> m" "0 < p"
  shows "0 \<le> rnd (elapsed_seconds rnd ns * rnd (of_int m / of_int p))"
    and "rnd (elapsed_seconds rnd ns * rnd (of_int m / of_int p)) \<le> gain e m p ns"
proof -
  let ?q = "of_int m / of_int p :: rat" and ?s = "of_int ns :: rat"
  have e: "0 \<le> e" using r by (rule rounds_withinD)
  have q: "0 \<le> rnd ?q" "rnd ?q \<le> (1 + e) * ?q" using rounds_withinD(2,3) [OF r, of ?q] assms by simp_all
  have s: "0 \<le> rnd ?s" "rnd ?s \<le> (1 + e) * ?s" using rounds_withinD(2,3) [OF r, of ?s] assms by simp_all
  have el: "0 \<le> elapsed_seconds rnd ns" "elapsed_seconds rnd ns \<le> (1 + e) * ((1 + e) * ?s / 1000000000)"
  proof -
    show "0 \<le> elapsed_seconds rnd ns" using rounds_withinD(2) [OF r] s(1) by (simp add: elapsed_seconds_def)
    have "elapsed_seconds rnd ns \<le> (1 + e) * (rnd ?s / 1000000000)"
      unfolding elapsed_seconds_def using s(1) by (intro rounds_withinD(3) [OF r]) simp
    also have "\<dots> \<le> (1 + e) * ((1 + e) * ?s / 1000000000)"
      using s(2) e by (intro mult_left_mono divide_right_mono) auto
    finally show "elapsed_seconds rnd ns \<le> (1 + e) * ((1 + e) * ?s / 1000000000)" .
  qed
  show "0 \<le> rnd (elapsed_seconds rnd ns * rnd ?q)" using rounds_withinD(2) [OF r] el q by simp
  have "rnd (elapsed_seconds rnd ns * rnd ?q) \<le> (1 + e) * (elapsed_seconds rnd ns * rnd ?q)"
    using el(1) q(1) by (intro rounds_withinD(3) [OF r]) simp
  also have "\<dots> \<le> (1 + e) * (((1 + e) * ((1 + e) * ?s / 1000000000)) * ((1 + e) * ?q))"
    using e el q assms by (intro mult_left_mono mult_mono) auto
  also have "\<dots> = gain e m p ns" by (simp add: gain_def power4_eq_xxxx)
  finally show "rnd (elapsed_seconds rnd ns * rnd ?q) \<le> gain e m p ns" .
qed

lemma refill_ok:
  assumes r: "rounds_within e rnd" and m: "0 \<le> m" "0 < p" and b: "bucket_ok now b" and t: "bk_tokens b = Fin t"
  obtains t' where "bucket_refill rnd m p now b = b\<lparr>bk_tokens := Fin t', bk_last := now\<rparr>" "0 \<le> t'" "t' \<le> of_int m"
    "t' \<le> t + gain e m p (now - bk_last b) + e * of_int m"
proof -
  let ?ns = "now - bk_last b"
  define x where "x = rnd (elapsed_seconds rnd ?ns * rnd (of_int m / of_int p))"
  have ns: "0 \<le> ?ns" using b by (simp add: bucket_ok_def)
  have x: "0 \<le> x" "x \<le> gain e m p ?ns" using refill_amount [OF r ns m] by (simp_all add: x_def)
  have t0: "0 \<le> t" using b t by (auto simp: bucket_ok_def)
  have y: "0 \<le> rnd (t + x)" "rnd (t + x) \<le> (1 + e) * (t + x)" using rounds_withinD(2,3) [OF r, of "t + x"] t0 x by simp_all
  have e: "0 \<le> e" "0 \<le> e * of_int m" using rounds_withinD(1) [OF r] m by simp_all
  define t' where "t' = (if of_int m < rnd (t + x) then of_int m else rnd (t + x))"
  have "t' \<le> t + x + e * of_int m"
  proof (cases "t + x \<le> of_int m")
    case True
    then have "e * (t + x) \<le> e * of_int m" using e by (intro mult_left_mono)
    with y have "rnd (t + x) \<le> t + x + e * of_int m" by (simp add: distrib_right)
    then show ?thesis by (simp add: t'_def)
  next
    case False
    with e show ?thesis by (auto simp: t'_def)
  qed
  moreover have "bucket_refill rnd m p now b = b\<lparr>bk_tokens := Fin t', bk_last := now\<rparr>"
    using m by (simp add: bucket_refill_def t dbl_quotient_def x_def t'_def Let_def)
  moreover have "0 \<le> t'" "t' \<le> of_int m" using y m by (auto simp: t'_def)
  ultimately show thesis using x that by fastforce
qed

lemma take_ok:
  assumes r: "rounds_within e rnd" and t: "bk_tokens b = Fin t" "0 \<le> t" "t \<le> of_int m"
  obtains t' where "bucket_take rnd b = (1 \<le> t, b\<lparr>bk_tokens := Fin t'\<rparr>)" "0 \<le> t'"
    "t' + of_bool (1 \<le> t) \<le> t + e * of_int m" "t' \<le> t + e * of_int m"
proof (cases "1 \<le> t")
  case True
  have y: "0 \<le> rnd (t - 1)" "rnd (t - 1) \<le> (1 + e) * (t - 1)" using rounds_withinD(2,3) [OF r, of "t - 1"] True by simp_all
  have "e * (t - 1) \<le> e * of_int m" using t rounds_withinD(1) [OF r] by (intro mult_left_mono) simp_all
  with y have "rnd (t - 1) \<le> t - 1 + e * of_int m" by (simp add: distrib_right)
  with y True show thesis by (intro that [of "rnd (t - 1)"]) (simp_all add: bucket_take_def t)
next
  case False
  have "0 \<le> e * of_int m" using rounds_withinD(1) [OF r] t by (intro mult_nonneg_nonneg) linarith+
  with False t show thesis by (intro that [of t]) (simp_all add: bucket_take_def)
qed

text \<open>One request of the address: what it costs, and what a full bucket allows.\<close>

lemma limiter_step_other: "ip' \<noteq> ip \<Longrightarrow> snd (limiter_step rnd m p ip' now bs) ip = bs ip"
  by (simp add: limiter_step_def Let_def split: prod.split)

lemma limiter_step_known:
  assumes r: "rounds_within e rnd" and m: "0 \<le> m" "0 < p" and b: "bs ip = Some b" "bucket_ok now b" "bk_tokens b = Fin t"
  obtains a b' t' where "limiter_step rnd m p ip now bs = (a, bs(ip \<mapsto> b'))" "bucket_ok now b'" "bk_last b' = now"
    "bk_tokens b' = Fin t'" "of_bool a + t' \<le> t + gain e m p (now - bk_last b) + 2 * e * of_int m"
    "of_bool a + t' \<le> of_int m + e * of_int m"
proof -
  from refill_ok [OF r m b(2,3)] obtain t1 where t1: "bucket_refill rnd m p now b = b\<lparr>bk_tokens := Fin t1, bk_last := now\<rparr>"
    "0 \<le> t1" "t1 \<le> of_int m" "t1 \<le> t + gain e m p (now - bk_last b) + e * of_int m" .
  let ?b = "b\<lparr>bk_tokens := Fin t1, bk_last := now\<rparr>"
  have tok: "bk_tokens ?b = Fin t1" by simp
  from take_ok [OF r tok t1(2,3)] obtain t2 where t2: "bucket_take rnd ?b = (1 \<le> t1, ?b\<lparr>bk_tokens := Fin t2\<rparr>)" "0 \<le> t2"
    "t2 + of_bool (1 \<le> t1) \<le> t1 + e * of_int m" by blast
  show thesis
  proof (rule that)
    show "limiter_step rnd m p ip now bs = (1 \<le> t1, bs(ip \<mapsto> ?b\<lparr>bk_tokens := Fin t2\<rparr>))"
      by (simp add: limiter_step_def b bucket_init_ok [OF b(2)] t1(1) t2(1))
    show "bucket_ok now (?b\<lparr>bk_tokens := Fin t2\<rparr>)" using b t2 by (simp add: bucket_ok_def)
    show "of_bool (1 \<le> t1) + t2 \<le> t + gain e m p (now - bk_last b) + 2 * e * of_int m"
      using t1(4) t2(3) by linarith
    show "of_bool (1 \<le> t1) + t2 \<le> of_int m + e * of_int m" using t1(3) t2(3) by linarith
  qed simp_all
qed

lemma limiter_step_new:
  assumes "bs ip = None"
  shows "limiter_step rnd m p ip now bs =
    limiter_step rnd m p ip now (bs(ip \<mapsto> \<lparr>bk_tokens = Fin (of_int m), bk_last = now, bk_initialized = True\<rparr>))"
  using assms by (simp add: limiter_step_def new_bucket_def bucket_init_def)

lemma limiter_step_full:
  assumes r: "rounds_within e rnd" and m: "0 \<le> m" "0 < p" and ok: "limiter_ok now bs"
  obtains a b' t' where "limiter_step rnd m p ip now bs = (a, bs(ip \<mapsto> b'))" "bucket_ok now b'" "bk_last b' = now"
    "bk_tokens b' = Fin t'" "of_bool a + t' \<le> of_int m + e * of_int m"
proof (cases "bs ip")
  case None
  let ?b = "\<lparr>bk_tokens = Fin (of_int m), bk_last = now, bk_initialized = True\<rparr>"
  let ?bs = "bs(ip \<mapsto> ?b)"
  have "?bs ip = Some ?b" "bucket_ok now ?b" "bk_tokens ?b = Fin (of_int m)" using m by (simp_all add: bucket_ok_def)
  from limiter_step_known [where bs = ?bs and b = ?b, OF r m this] show thesis
    using limiter_step_new [where bs = bs and ip = ip, OF None] that by (metis fun_upd_upd)
next
  case (Some b)
  then have b: "bucket_ok now b" using ok by (simp add: limiter_ok_def)
  then obtain t where "bk_tokens b = Fin t" by (auto simp: bucket_ok_def)
  from limiter_step_known [where bs = bs and b = b, OF r m Some b this] show thesis using that by metis
qed

lemma limiter_ok_mono: "limiter_ok now bs \<Longrightarrow> now \<le> later \<Longrightarrow> limiter_ok later bs"
  by (fastforce simp: limiter_ok_def bucket_ok_def)

lemma limiter_step_ok:
  assumes "rounds_within e rnd" and "0 \<le> m" "0 < p" and ok: "limiter_ok now bs"
  shows "limiter_ok now (snd (limiter_step rnd m p ip now bs))"
proof -
  from limiter_step_full [OF assms, of ip] obtain a b'
    where "limiter_step rnd m p ip now bs = (a, bs(ip \<mapsto> b'))" "bucket_ok now b'" by metis
  with ok show ?thesis by (simp add: limiter_ok_def)
qed

lemma limiter_run_ok:
  assumes "rounds_within e rnd" and "0 \<le> m" "0 < p"
  shows "limiter_ok t bs \<Longrightarrow> sorted (t # map snd reqs) \<Longrightarrow>
    limiter_ok (last (t # map snd reqs)) (snd (limiter_run rnd m p reqs bs))"
proof (induction reqs arbitrary: t bs)
  case (Cons r reqs)
  obtain ip now where r: "r = (ip, now)" by (cases r)
  with Cons.prems have "limiter_ok now bs" by (auto intro: limiter_ok_mono)
  from limiter_step_ok [OF assms this, of ip] Cons.IH [of now] Cons.prems(2) show ?case
    by (auto simp: r)
qed simp

lemma admitted_known:
  assumes r: "rounds_within e rnd" and m: "0 \<le> m" "0 < p"
    and b: "bs ip = Some b" "bk_tokens b = Fin t" "bucket_ok now b"
    and times: "sorted (now # map snd reqs)" "last (now # map snd reqs) \<le> until"
  shows "of_nat (admitted ip reqs (fst (limiter_run rnd m p reqs bs)))
    \<le> t + gain e m p (until - bk_last b) + of_nat (length (filter (\<lambda>q. fst q = ip) reqs)) * (2 * e * of_int m)"
  using b times
proof (induction reqs arbitrary: bs b t now)
  case Nil
  have "0 \<le> gain e m p (until - bk_last b)"
    using Nil m rounds_withinD(1) [OF r] by (intro gain_nonneg) (auto simp: bucket_ok_def)
  with Nil show ?case by (auto simp: bucket_ok_def)
next
  case (Cons q reqs)
  obtain ip' time where q: "q = (ip', time)" by (cases q)
  have b: "bucket_ok time b" using Cons.prems q by (auto simp: bucket_ok_def)
  have times: "sorted (time # map snd reqs)" "last (time # map snd reqs) \<le> until" using Cons.prems q by auto
  show ?case
  proof (cases "ip' = ip")
    case False
    then have "snd (limiter_step rnd m p ip' time bs) ip = Some b" using Cons.prems(1) by (simp add: limiter_step_other)
    from Cons.IH [where bs = "snd (limiter_step rnd m p ip' time bs)" and b = b, OF this Cons.prems(2) b times] False show ?thesis
      by (simp add: q)
  next
    case True
    from limiter_step_known [where bs = bs and b = b, OF r m Cons.prems(1) b Cons.prems(2)]
    obtain a b' t' where step: "limiter_step rnd m p ip time bs = (a, bs(ip \<mapsto> b'))" "bucket_ok time b'" "bk_last b' = time"
      "bk_tokens b' = Fin t'" "of_bool a + t' \<le> t + gain e m p (time - bk_last b) + 2 * e * of_int m" .
    have "(bs(ip \<mapsto> b')) ip = Some b'" by simp
    from Cons.IH [where bs = "bs(ip \<mapsto> b')" and b = b', OF this step(4,2) times]
    have "of_nat (admitted ip reqs (fst (limiter_run rnd m p reqs (bs(ip \<mapsto> b')))))
      \<le> t' + gain e m p (until - time) + of_nat (length (filter (\<lambda>q. fst q = ip) reqs)) * (2 * e * of_int m)"
      by (simp add: step(3) fun_upd_def)
    moreover have "gain e m p (until - bk_last b) = gain e m p (until - time) + gain e m p (time - bk_last b)"
      using gain_add [of e m p "until - time" "time - bk_last b"] by simp
    ultimately show ?thesis using step(5)
      by (cases a) (simp_all add: q True step(1) algebra_simps)
  qed
qed

lemma admitted_window:
  assumes r: "rounds_within e rnd" and m: "0 \<le> m" "0 < p" and ok: "limiter_ok start bs"
    and times: "sorted (start # map snd reqs)" "last (start # map snd reqs) \<le> until"
  shows "of_nat (admitted ip reqs (fst (limiter_run rnd m p reqs bs)))
    \<le> of_int m + gain e m p (until - start) + of_nat (length (filter (\<lambda>q. fst q = ip) reqs)) * (2 * e * of_int m)"
  using ok times
proof (induction reqs arbitrary: bs start)
  case Nil
  then show ?case using gain_nonneg [OF rounds_withinD(1) [OF r] m(1), of p "until - start"] m by simp
next
  case (Cons q reqs)
  obtain ip' time where q: "q = (ip', time)" by (cases q)
  have ok: "limiter_ok time bs" using Cons.prems q by (auto intro: limiter_ok_mono)
  have times: "start \<le> time" "sorted (time # map snd reqs)" "last (time # map snd reqs) \<le> until" using Cons.prems q by auto
  have "0 \<le> gain e m p (time - start)" using times rounds_withinD(1) [OF r] m by (intro gain_nonneg) auto
  then have later: "gain e m p (until - time) \<le> gain e m p (until - start)"
    using gain_add [of e m p "until - time" "time - start"] by simp
  show ?case
  proof (cases "ip' = ip")
    case False
    from Cons.IH [OF limiter_step_ok [OF r m ok, of ip'] times(2,3)] False later show ?thesis
      by (simp add: q)
  next
    case True
    from limiter_step_full [OF r m ok, of ip]
    obtain a b' t' where step: "limiter_step rnd m p ip time bs = (a, bs(ip \<mapsto> b'))" "bucket_ok time b'" "bk_last b' = time"
      "bk_tokens b' = Fin t'" "of_bool a + t' \<le> of_int m + e * of_int m" .
    have "(bs(ip \<mapsto> b')) ip = Some b'" by simp
    from admitted_known [where bs = "bs(ip \<mapsto> b')" and b = b', OF r m this step(4,2) times(2,3)]
    have "of_nat (admitted ip reqs (fst (limiter_run rnd m p reqs (bs(ip \<mapsto> b')))))
      \<le> t' + gain e m p (until - time) + of_nat (length (filter (\<lambda>q. fst q = ip) reqs)) * (2 * e * of_int m)"
      by (simp add: step(3) fun_upd_def)
    moreover have "0 \<le> e * of_int m" using rounds_withinD(1) [OF r] m by simp
    ultimately show ?thesis using step(5) later
      by (cases a) (simp_all add: q True step(1) algebra_simps)
  qed
qed

subsection \<open>Properties\<close>

text \<open>
  C23. The limit holds in every window of time: of the requests of an address between two instants, in
  a run of the limiter with requests of any addresses, at most \<open>max_requests\<close> are let
  through, plus the ones for which the window is long enough at \<open>max_requests\<close> per period,
  up to the rounding errors of the machine.
\<close>

theorem rate_limit_bound:
  assumes "rounds_within e rnd" and "0 \<le> m" and "0 < p"
    and "sorted (map snd (before @ reqs))" and "\<forall>q \<in> set reqs. start \<le> snd q \<and> snd q \<le> until" and "start \<le> until"
    and "\<forall>q \<in> set before. snd q \<le> start"
  shows "of_nat (admitted ip reqs (drop (length before) (fst (limiter_run rnd m p (before @ reqs) Map.empty))))
    \<le> of_int m + (1 + e) ^ 4 * (of_int (until - start) / 10 ^ 9) * (of_int m / of_int p)
      + of_nat (length (filter (\<lambda>q. fst q = ip) reqs)) * (2 * e * of_int m)"
proof -
  let ?bs = "snd (limiter_run rnd m p before Map.empty)"
  have split: "fst (limiter_run rnd m p (as @ bs) st) =
      fst (limiter_run rnd m p as st) @ fst (limiter_run rnd m p bs (snd (limiter_run rnd m p as st)))" for as bs st
    by (induction as arbitrary: st) auto
  have len: "length (fst (limiter_run rnd m p as st)) = length as" for as st
    by (induction as arbitrary: st) auto
  define t0 where "t0 = Min (insert start (snd ` set before))"
  have "sorted (t0 # map snd before)" using assms(4) by (auto simp: t0_def sorted_append)
  from limiter_run_ok [OF assms(1-3) _ this, of Map.empty]
  have ok: "limiter_ok (last (t0 # map snd before)) ?bs" by (simp add: limiter_ok_def)
  have "last (t0 # map snd before) \<le> start"
  proof (cases before)
    case (Cons q qs)
    then have "last (t0 # map snd before) \<in> snd ` set before" by (auto simp: last_map)
    with assms(7) show ?thesis by auto
  qed (simp add: t0_def)
  with ok have start: "limiter_ok start ?bs" by (rule limiter_ok_mono)
  have times: "sorted (start # map snd reqs)" using assms(4,5) by (auto simp: sorted_append)
  have "last (start # map snd reqs) \<in> insert start (snd ` set reqs)" by (auto simp: last_map)
  then have "last (start # map snd reqs) \<le> until" using assms(5,6) by auto
  from admitted_window [OF assms(1-3) start times this] show ?thesis
    by (simp add: split len gain_def)
qed

theorem rate_limit_bound_witness:
  "admitted ''a'' [(''a'', 10), (''a'', 20)]
     (drop 1 (fst (limiter_run (\<lambda>x. x) 2 1 ([(''a'', 0)] @ [(''a'', 10), (''a'', 20)]) Map.empty))) \<le> 2"
proof -
  have "rounds_within 0 (\<lambda>x. x)" by (simp add: rounds_within_def)
  moreover have "sorted (map snd ([(''a'', 0)] @ [(''a'', 10), (''a'', 20 :: int)]))"
    "\<forall>q \<in> set [(''a'', 10), (''a'', 20)]. 10 \<le> snd q \<and> snd q \<le> (20 :: int)" "\<forall>q \<in> set [(''a'', 0)]. snd q \<le> (10 :: int)"
    by simp_all
  ultimately have "rat_of_nat (admitted ''a'' [(''a'', 10), (''a'', 20)]
     (drop 1 (fst (limiter_run (\<lambda>x. x) 2 1 ([(''a'', 0)] @ [(''a'', 10), (''a'', 20)]) Map.empty)))) \<le> 2 + 2 / 10 ^ 8"
    using rate_limit_bound [of 0 "\<lambda>x. x" 2 1 "[(''a'', 0)]" "[(''a'', 10), (''a'', 20)]" 10 20 "''a''"] by simp
  then have "rat_of_nat (admitted ''a'' [(''a'', 10), (''a'', 20)]
     (drop 1 (fst (limiter_run (\<lambda>x. x) 2 1 ([(''a'', 0)] @ [(''a'', 10), (''a'', 20)]) Map.empty)))) < of_nat 3" by simp
  then show ?thesis by (simp only: of_nat_less_iff)
qed

lemma limiter_step_instant:
  assumes exact: "\<forall>i. 0 \<le> i \<and> i \<le> m \<longrightarrow> rnd (of_int i) = of_int i" and j: "0 \<le> j" "j \<le> m" and p: "p \<noteq> 0"
  shows "limiter_step rnd m p ip now (bs(ip \<mapsto> \<lparr>bk_tokens = Fin (of_int j), bk_last = now, bk_initialized = True\<rparr>)) =
    (1 \<le> j, bs(ip \<mapsto> \<lparr>bk_tokens = Fin (of_int (if 1 \<le> j then j - 1 else j)), bk_last = now, bk_initialized = True\<rparr>))"
proof -
  have z: "rnd 0 = 0" using spec [OF exact, of 0] j by simp
  have "rnd (of_int j) = of_int j" using exact j by simp
  moreover have "1 \<le> j \<Longrightarrow> rnd (of_int j - 1) = of_int j - 1" using spec [OF exact, of "j - 1"] j by simp
  ultimately show ?thesis
    using p j by (auto simp: limiter_step_def bucket_init_def bucket_refill_def bucket_take_def elapsed_seconds_def z dbl_quotient_def)
qed

text \<open>
  A client that was not seen before may send a burst: of its requests at one instant, exactly
  the first \<open>max_requests\<close> are let through, whatever the period is, if it is not 0.
\<close>

theorem rate_limit_burst:
  assumes "\<forall>i. 0 \<le> i \<and> i \<le> int n \<longrightarrow> rnd (of_int i) = of_int i" and "p \<noteq> 0"
  shows "fst (limiter_run rnd (int n) p (replicate k (ip, now)) Map.empty) =
    replicate (min k n) True @ replicate (k - n) False"
proof -
  let ?b = "\<lambda>j :: nat. \<lparr>bk_tokens = Fin (of_int (int j)), bk_last = now, bk_initialized = True\<rparr>"
  have run: "fst (limiter_run rnd (int n) p (replicate k (ip, now)) (Map.empty(ip \<mapsto> ?b j))) =
      replicate (min k j) True @ replicate (k - j) False" if "j \<le> n" for j
    using that
  proof (induction k arbitrary: j)
    case (Suc k)
    then show ?case
      using limiter_step_instant [OF assms(1) _ _ assms(2), of "int j" ip now Map.empty] Suc.IH [of 0]
      by (cases j) (simp_all del: fun_upd_apply)
  qed simp
  show ?thesis
  proof (cases k)
    case (Suc k')
    then show ?thesis using run [of n] limiter_step_new [where bs = Map.empty and ip = ip]
      by (simp del: fun_upd_apply)
  qed simp
qed

theorem rate_limit_burst_witness:
  "fst (limiter_run (\<lambda>x. x) (int 2) 60 (replicate 3 (''a'', 5)) Map.empty) = [True, True, False]"
proof -
  have "\<forall>i. 0 \<le> i \<and> i \<le> int 2 \<longrightarrow> (\<lambda>x. x) (of_int i) = (of_int i :: rat)" by simp
  from rate_limit_burst [OF this, of 60 3 "''a''" 5] show ?thesis by (simp add: numeral_eq_Suc)
qed

text \<open>
  With a period of 0 seconds no request is ever let through: the rate is infinite, the first
  refill multiplies it by the 0 seconds that have passed, and the tokens are not-a-number for good.
\<close>

theorem rate_limit_period_0:
  assumes "rnd 0 = 0"
  shows "fst (limiter_run rnd m 0 reqs Map.empty) = replicate (length reqs) False"
proof -
  have add: "dbl_add rnd NaN x = NaN" "dbl_add rnd x NaN = NaN" for x by (cases x; simp)+
  have step: "fst (limiter_step rnd m 0 ip now bs) = False \<and>
      (\<forall>i b. snd (limiter_step rnd m 0 ip now bs) i = Some b \<longrightarrow> bk_tokens b = NaN \<and> bk_initialized b)"
    if "\<forall>i b. bs i = Some b \<longrightarrow> bk_tokens b = NaN \<and> bk_initialized b" for ip now bs
    using that
    by (auto simp: limiter_step_def bucket_init_def new_bucket_def bucket_refill_def bucket_take_def elapsed_seconds_def
        dbl_quotient_def assms add Let_def split: option.split)
  have "fst (limiter_run rnd m 0 reqs bs) = replicate (length reqs) False"
    if "\<forall>i b. bs i = Some b \<longrightarrow> bk_tokens b = NaN \<and> bk_initialized b" for bs
    using that
  proof (induction reqs arbitrary: bs)
    case (Cons q reqs)
    obtain ip now where "q = (ip, now)" by (cases q)
    with Cons.IH [of "snd (limiter_step rnd m 0 ip now bs)"] step [OF Cons.prems, of ip now] show ?case by simp
  qed simp
  then show ?thesis by simp
qed

theorem rate_limit_period_0_witness:
  "fst (limiter_run (\<lambda>x. x) 100 0 [(''a'', 5), (''a'', 7000000000)] Map.empty) = [False, False]"
  using rate_limit_period_0 [of "\<lambda>x. x" 100 "[(''a'', 5), (''a'', 7000000000)]"] by simp

end
