(* ===== verification/Static_File.thy ===== *)
theory Static_File
  imports Response
begin

section \<open>Static files\<close>

text \<open>
  Models \<^verbatim>\<open>src/core/static_file.cpp\<close> and \<^verbatim>\<open>src/util/mime.cpp\<close>. The file
  system is the record \<open>file_system\<close>: \<^verbatim>\<open>realpath\<close>, which resolves a path to the
  canonical one of a file that exists, and what opening a file gives, its size as seeking to the
  end tells it and the bytes a read of the whole stream returns.
\<close>

record file_system =
  fy_realpath :: "string \<Rightarrow> string option"
  fy_open :: "string \<Rightarrow> (int \<times> string) option"

record static_server =
  sf_prefix :: string
  sf_root :: string

definition mime_types :: "string \<rightharpoonup> string" where
  "mime_types =
     map_of [(''.html'', ''text/html''), (''.htm'', ''text/html''), (''.css'', ''text/css''),
       (''.js'', ''application/javascript''), (''.json'', ''application/json''), (''.xml'', ''application/xml''),
       (''.txt'', ''text/plain''), (''.csv'', ''text/csv''), (''.png'', ''image/png''), (''.jpg'', ''image/jpeg''),
       (''.jpeg'', ''image/jpeg''), (''.gif'', ''image/gif''), (''.svg'', ''image/svg+xml''), (''.ico'', ''image/x-icon''),
       (''.webp'', ''image/webp''), (''.pdf'', ''application/pdf''), (''.zip'', ''application/zip''),
       (''.gz'', ''application/gzip''), (''.wasm'', ''application/wasm''), (''.mp3'', ''audio/mpeg''),
       (''.mp4'', ''video/mp4''), (''.woff'', ''font/woff''), (''.woff2'', ''font/woff2''), (''.ttf'', ''font/ttf'')]"

definition getMimeType :: "string \<Rightarrow> string" where
  "getMimeType path =
     (case rfind_char path (CHR ''.'') of
        None \<Rightarrow> ''application/octet-stream''
      | Some rcomma \<Rightarrow>
          (case mime_types (drop rcomma path) of
             Some m \<Rightarrow> m
           | None \<Rightarrow> ''application/octet-stream''))"

definition max_file_size :: int where
  "max_file_size = 50 * 1024 * 1024"

definition tryServe :: "file_system \<Rightarrow> static_server \<Rightarrow> request \<Rightarrow> response \<Rightarrow> bool \<times> response" where
  "tryServe fs sf req res =
     (let path = rq_path req in
      if prefix (sf_prefix sf) path then
        let rel = drop (length (sf_prefix sf)) path;
            file_path = sf_root sf @ rel
        in case fy_realpath fs file_path of
             None \<Rightarrow> (False, res)
           | Some resolved \<Rightarrow>
               (case fy_realpath fs (sf_root sf) of
                  None \<Rightarrow> (False, res)
                | Some root_resolved \<Rightarrow>
                    if \<not> prefix (root_resolved @ ''/'') resolved then (False, res)
                    else (case fy_open fs resolved of
                            None \<Rightarrow> (False, res)
                          | Some (size_told, content) \<Rightarrow>
                              if size_told > max_file_size
                              then (True, res_body ''File too large'' (res_status 413 res))
                              else (True, res_body content
                                     (res_header ''Content-Type'' (getMimeType resolved) (res_status 200 res)))))
      else (False, res))"

subsection \<open>Containment\<close>

text \<open>
  What \<^verbatim>\<open>realpath\<close> documents: a canonical absolute path, without empty, dot and dot-dot
  segments.
\<close>

definition canonical :: "string \<Rightarrow> bool" where
  "canonical p \<longleftrightarrow> p = ''/'' \<or> (\<exists>ts. ts \<noteq> [] \<and> (\<forall>t \<in> set ts. clean_segment t) \<and> p = join_with (CHR ''/'') ts)"

definition resolves :: "file_system \<Rightarrow> bool" where
  "resolves fs \<longleftrightarrow> (\<forall>p q. fy_realpath fs p = Some q \<longrightarrow> canonical q)"

lemma canonical_segments: "canonical p \<Longrightarrow> p \<noteq> ''/'' \<Longrightarrow> p = join_with (CHR ''/'') (path_segments p)"
  by (auto simp: canonical_def path_segments_join)

lemma canonical_starts: "canonical p \<Longrightarrow> \<exists>u. p = CHR ''/'' # u"
proof (unfold canonical_def, elim disjE exE conjE)
  fix ts assume "ts \<noteq> []" "p = join_with (CHR ''/'') ts"
  then show ?thesis by (cases ts) simp_all
qed simp

lemma split_on_append_sep: "split_on c (xs @ c # ys) = split_on c xs @ split_on c ys"
proof (induction xs)
  case (Cons x xs)
  have "split_on c xs \<noteq> []" by simp
  then obtain t ts where "split_on c xs = t # ts" by (cases "split_on c xs") auto
  with Cons show ?case by simp
qed simp

lemma canonical_inside:
  assumes r: "canonical r" and p: "canonical p" and pre: "prefix (r @ ''/'') p"
  shows "r \<noteq> ''/''" and "\<exists>ts. ts \<noteq> [] \<and> path_segments p = path_segments r @ ts"
proof -
  obtain u where u: "p = r @ ''/'' @ u" using pre by (auto simp: prefix_def)
  show nr: "r \<noteq> ''/''"
  proof
    assume "r = ''/''"
    with u have pu: "p = ''//'' @ u" by simp
    then have "p \<noteq> ''/''" by simp
    with p obtain ts where "ts \<noteq> []" "\<forall>t \<in> set ts. clean_segment t" "p = join_with (CHR ''/'') ts"
      by (auto simp: canonical_def)
    with pu show False by (cases ts; cases "hd ts") (auto simp: clean_segment_def)
  qed
  have segs: "split_on (CHR ''/'') q = [] # path_segments q" if "canonical q" "q \<noteq> ''/''" for q
    using canonical_segments [OF that] path_segments_clean [of _ q]
      split_on_join_with [of "path_segments q" "CHR ''/''"] by (metis clean_segment_def)
  have "p \<noteq> ''/''" using u nr canonical_starts [OF r] by auto
  then have "[] # path_segments p = ([] # path_segments r) @ split_on (CHR ''/'') u"
    using segs [OF p] segs [OF r nr] u split_on_append_sep [of "CHR ''/''" r u] by simp
  then show "\<exists>ts. ts \<noteq> [] \<and> path_segments p = path_segments r @ ts"
    by (intro exI [of _ "split_on (CHR ''/'') u"]) simp
qed

text \<open>
  C14. A static file server answers only with files inside its directory: whatever the path of the
  request is, when something is served it is the resolved file, whose resolved path consists of
  the segments of the resolved root and at least one more; it is sent with status 200, its contents
  and the type of its extension, or with 413 and none of its contents when it is larger than 50 MB.
\<close>

theorem static_file_contained:
  assumes "resolves fs" and "tryServe fs sf req res = (True, res')"
  shows "\<exists>root p n content ts. fy_realpath fs (sf_root sf) = Some root
    \<and> fy_realpath fs (sf_root sf @ drop (length (sf_prefix sf)) (rq_path req)) = Some p
    \<and> prefix (sf_prefix sf) (rq_path req) \<and> fy_open fs p = Some (n, content)
    \<and> ts \<noteq> [] \<and> path_segments p = path_segments root @ ts
    \<and> (if n \<le> 52428800
       then rs_status res' = 200 \<and> rs_body res' = content \<and> res_getHeader res' ''Content-Type'' = Some (getMimeType p)
       else rs_status res' = 413 \<and> rs_body res' = ''File too large'')"
proof -
  let ?file = "sf_root sf @ drop (length (sf_prefix sf)) (rq_path req)"
  from assms(2) obtain p root n content
    where p: "fy_realpath fs ?file = Some p" and root: "fy_realpath fs (sf_root sf) = Some root"
      and pre: "prefix (root @ ''/'') p" and opened: "fy_open fs p = Some (n, content)"
      and url: "prefix (sf_prefix sf) (rq_path req)"
      and res': "res' = (if n > max_file_size then res_body ''File too large'' (res_status 413 res)
        else res_body content (res_header ''Content-Type'' (getMimeType p) (res_status 200 res)))"
    by (auto simp: tryServe_def Let_def split: if_splits option.splits prod.splits)
  have "canonical root" "canonical p" using assms(1) p root by (auto simp: resolves_def)
  from canonical_inside(2) [OF this pre] obtain ts where "ts \<noteq> []" "path_segments p = path_segments root @ ts" by blast
  with p root opened url show ?thesis
    by (intro exI [of _ root] exI [of _ p] exI [of _ n] exI [of _ content] exI [of _ ts])
      (simp add: res' max_file_size_def res_body_def res_status_def res_header_def res_getHeader_def)
qed

definition sample_files :: file_system where
  "sample_files =
     \<lparr>fy_realpath = [''www'' \<mapsto> ''/srv/www'', ''www/a.css'' \<mapsto> ''/srv/www/a.css'', ''www/../b.txt'' \<mapsto> ''/srv/b.txt'',
        ''www-old/c.txt'' \<mapsto> ''/srv/www-old/c.txt''],
      fy_open = [''/srv/www/a.css'' \<mapsto> (2, ''p{''), ''/srv/b.txt'' \<mapsto> (1, ''b''), ''/srv/www-old/c.txt'' \<mapsto> (1, ''c'')]\<rparr>"

definition sample_server :: static_server where
  "sample_server = \<lparr>sf_prefix = ''/static'', sf_root = ''www''\<rparr>"

theorem static_file_contained_witness:
  "\<exists>root p n content ts. fy_realpath sample_files ''www'' = Some root \<and> fy_realpath sample_files ''www/a.css'' = Some p
    \<and> fy_open sample_files p = Some (n, content) \<and> ts \<noteq> [] \<and> path_segments p = path_segments root @ ts
    \<and> fst (tryServe sample_files sample_server (empty_request\<lparr>rq_path := ''/static/a.css''\<rparr>) new_response)
    \<and> \<not> fst (tryServe sample_files sample_server (empty_request\<lparr>rq_path := ''/static/../b.txt''\<rparr>) new_response)
    \<and> \<not> fst (tryServe sample_files sample_server (empty_request\<lparr>rq_path := ''/static-old/c.txt''\<rparr>) new_response)"
proof -
  have canonical: "canonical (join_with (CHR ''/'') ts)" if "ts \<noteq> []" "\<forall>t \<in> set ts. clean_segment t" for ts
    using that by (auto simp: canonical_def)
  have "resolves sample_files"
    using canonical [of "[''srv'', ''www'']"] canonical [of "[''srv'', ''www'', ''a.css'']"]
      canonical [of "[''srv'', ''b.txt'']"] canonical [of "[''srv'', ''www-old'', ''c.txt'']"]
    by (simp add: resolves_def sample_files_def clean_segment_def)
  moreover have "tryServe sample_files sample_server (empty_request\<lparr>rq_path := ''/static/a.css''\<rparr>) new_response =
      (True, res_body ''p{'' (res_header ''Content-Type'' ''text/css'' (res_status 200 new_response)))"
    "\<not> fst (tryServe sample_files sample_server (empty_request\<lparr>rq_path := ''/static/../b.txt''\<rparr>) new_response)"
    "\<not> fst (tryServe sample_files sample_server (empty_request\<lparr>rq_path := ''/static-old/c.txt''\<rparr>) new_response)"
    by (simp_all add: tryServe_def sample_files_def sample_server_def max_file_size_def getMimeType_def mime_types_def)
  ultimately show ?thesis
    using static_file_contained [of sample_files sample_server "empty_request\<lparr>rq_path := ''/static/a.css''\<rparr>" new_response]
    by (fastforce simp: sample_server_def)
qed

end
