(* ===== verification/File_Saver.thy ===== *)
theory File_Saver
  imports Request_Roundtrip
begin

section \<open>Saving an uploaded file\<close>

text \<open>
  Models \<^verbatim>\<open>src/util/file_saver.cpp\<close>. The disk is the files with their contents,
  the paths at which something exists, \<^verbatim>\<open>realpath\<close>, and which paths can be opened for
  writing, and after how many bytes a write to a path fails, if it does. The loop looks for a name
  that is not taken; it need not end on a disk where every name is taken, so it is a partial
  function. Its counter stays far below the limit of an \<^verbatim>\<open>int\<close> and is a number.
  The file is created when it is opened, before the data of the part is read through its view, so
  the disk is a result also when the function throws or is undefined.
\<close>

record disk =
  dk_files :: "string \<rightharpoonup> string"
  dk_exists :: "string \<Rightarrow> bool"
  dk_realpath :: "string \<Rightarrow> string option"
  dk_opens :: "string \<Rightarrow> bool"
  dk_fails :: "string \<Rightarrow> nat option"

text \<open>The last component of a path, empty when the path ends in a slash.\<close>

definition path_filename :: "string \<Rightarrow> string" where
  "path_filename p = (case rfind_char p (CHR ''/'') of None \<Rightarrow> p | Some i \<Rightarrow> drop (i + 1) p)"

definition numbered :: "string \<Rightarrow> nat \<Rightarrow> string result" where
  "numbered filename count =
     (case rfind_char filename (CHR ''.'') of
        None \<Rightarrow> Inl Out_of_range
      | Some dot \<Rightarrow> Inr (take dot filename @ ''_'' @ show_nat count @ drop dot filename))"

partial_function (option) free_path ::
  "(string \<Rightarrow> bool) \<Rightarrow> string \<Rightarrow> string \<Rightarrow> nat \<Rightarrow> string \<Rightarrow> string result option" where
  "free_path taken dir filename count fullpath =
     (if taken fullpath
      then (case numbered filename (count + 1) of
              Inl e \<Rightarrow> Some (Inl e)
            | Inr name \<Rightarrow> free_path taken dir filename (count + 1) (dir @ ''/'' @ name))
      else Some (Inr fullpath))"

definition save_to :: "heap \<Rightarrow> part \<Rightarrow> disk \<Rightarrow> string \<Rightarrow> bool result \<times> disk" where
  "save_to h p d fullpath =
     (if \<not> dk_opens d fullpath then (Inr False, d)
      else
        let d1 = d\<lparr>dk_files := (dk_files d)(fullpath \<mapsto> []), dk_exists := (dk_exists d)(fullpath := True)\<rparr>
        in (case read_view h (pt_data p) of
              Inl e \<Rightarrow> (Inl e, d1)
            | Inr data \<Rightarrow>
                let (ok, written) = (case dk_fails d fullpath of None \<Rightarrow> (True, data) | Some n \<Rightarrow> (False, take n data))
                in (Inr ok, d1\<lparr>dk_files := (dk_files d1)(fullpath \<mapsto> written)\<rparr>)))"

definition saveFile :: "heap \<Rightarrow> part \<Rightarrow> string \<Rightarrow> disk \<Rightarrow> (bool result \<times> disk) option" where
  "saveFile h p dir d =
     (let filename = path_filename (pt_filename p) in
      if filename = [] then Some (Inr False, d)
      else case dk_realpath d dir of
             None \<Rightarrow> Some (Inr False, d)
           | Some dir_resolved \<Rightarrow>
               (case free_path (dk_exists d) dir_resolved filename 0 (dir_resolved @ ''/'' @ filename) of
                  None \<Rightarrow> None
                | Some (Inl e) \<Rightarrow> Some (Inl e, d)
                | Some (Inr fullpath) \<Rightarrow>
                    (case dk_realpath d fullpath of
                       Some file_resolved \<Rightarrow>
                         if \<not> prefix dir_resolved file_resolved then Some (Inr False, d)
                         else Some (save_to h p d fullpath)
                     | None \<Rightarrow> Some (save_to h p d fullpath))))"

subsection \<open>The search for a name\<close>

lemma free_path_result:
  assumes "free_path taken dir filename count fullpath = Some r"
  shows "\<forall>q. r = Inr q \<longrightarrow>
    \<not> taken q \<and> (q = fullpath \<or> (\<exists>n name. numbered filename n = Inr name \<and> q = dir @ ''/'' @ name))"
  using _ assms
proof (rule free_path.raw_induct)
  fix rec taken dir filename count fullpath r
  assume IH: "\<And>taken dir filename count fullpath r. rec taken dir filename count fullpath = Some r \<Longrightarrow>
      \<forall>q. r = Inr q \<longrightarrow>
        \<not> taken q \<and> (q = fullpath \<or> (\<exists>n name. numbered filename n = Inr name \<and> q = dir @ ''/'' @ name))"
    and body: "(if taken fullpath
      then (case numbered filename (count + 1) of
              Inl e \<Rightarrow> Some (Inl e)
            | Inr name \<Rightarrow> rec taken dir filename (count + 1) (dir @ ''/'' @ name))
      else Some (Inr fullpath)) = Some r"
  show "\<forall>q. r = Inr q \<longrightarrow>
    \<not> taken q \<and> (q = fullpath \<or> (\<exists>n name. numbered filename n = Inr name \<and> q = dir @ ''/'' @ name))"
  proof (cases "taken fullpath")
    case True
    show ?thesis
    proof (cases "numbered filename (count + 1)")
      case (Inr name)
      with True body have "rec taken dir filename (count + 1) (dir @ ''/'' @ name) = Some r" by simp
      from IH [OF this] Inr show ?thesis by blast
    qed (use True body in auto)
  qed (use body in auto)
qed

lemma free_path_free:
  "free_path taken dir filename count fullpath = Some (Inr q) \<Longrightarrow>
    \<not> taken q \<and> (q = fullpath \<or> (\<exists>n name. numbered filename n = Inr name \<and> q = dir @ ''/'' @ name))"
  using free_path_result by blast

lemma show_nat_inject: "show_nat a = show_nat b \<Longrightarrow> a = b"
  by (metis of_digits_show_nat)

lemma numbered_inject: "numbered f a = Inr name \<Longrightarrow> numbered f b = Inr name \<Longrightarrow> a = b"
  by (auto simp: numbered_def split: option.splits dest: show_nat_inject)

text \<open>The counters after \<open>count\<close> whose names are taken: one fewer after every turn.\<close>

definition taken_after :: "(string \<Rightarrow> bool) \<Rightarrow> string \<Rightarrow> string \<Rightarrow> nat \<Rightarrow> nat set" where
  "taken_after taken dir filename count =
     {n. count < n \<and> (\<exists>name. numbered filename n = Inr name \<and> taken (dir @ ''/'' @ name))}"

lemma finite_taken_after: "finite {q. taken q} \<Longrightarrow> finite (taken_after taken dir filename count)"
proof -
  assume fin: "finite {q. taken q}"
  have "inj_on (\<lambda>n. dir @ ''/'' @ (case numbered filename n of Inr name \<Rightarrow> name)) (taken_after taken dir filename count)"
    by (auto simp: inj_on_def taken_after_def dest: numbered_inject)
  moreover have "(\<lambda>n. dir @ ''/'' @ (case numbered filename n of Inr name \<Rightarrow> name)) ` taken_after taken dir filename count
      \<subseteq> {q. taken q}"
    by (auto simp: taken_after_def)
  ultimately show ?thesis using fin by (meson inj_on_finite)
qed

lemma free_path_terminates:
  assumes "finite {q. taken q}"
  shows "free_path taken dir filename count fullpath \<noteq> None"
proof (induction "card (taken_after taken dir filename count)" arbitrary: count fullpath rule: less_induct)
  case less
  have step: "free_path taken dir filename (count + 1) (dir @ ''/'' @ name) \<noteq> None"
    if name: "numbered filename (count + 1) = Inr name" for name
  proof (cases "taken (dir @ ''/'' @ name)")
    case True
    with name have "count + 1 \<in> taken_after taken dir filename count" by (simp add: taken_after_def)
    moreover have "taken_after taken dir filename (count + 1) \<subseteq> taken_after taken dir filename count - {count + 1}"
      by (auto simp: taken_after_def)
    ultimately have "card (taken_after taken dir filename (count + 1)) < card (taken_after taken dir filename count)"
      using finite_taken_after [OF assms] by (metis psubset_card_mono Diff_iff insertI1 psubsetI subset_Diff_insert subset_iff)
    then show ?thesis by (rule less)
  next
    case False
    then show ?thesis by (subst free_path.simps) simp
  qed
  show ?case
    by (subst free_path.simps) (use step in \<open>auto split: sum.split\<close>)
qed

text \<open>The names are components of a path: no slash comes in.\<close>

lemma path_filename_plain: "CHR ''/'' \<notin> set (path_filename p)"
proof -
  have "rfind_char p c = None \<or> (\<exists>i. rfind_char p c = Some i \<and> c \<notin> set (drop (i + 1) p))" for c
  proof (induction p)
    case (Cons x xs)
    then show ?case by (auto simp: rfind_char_None_iff rfind_char_None_iff [THEN iffD2])
  qed simp
  from this [of "CHR ''/''"] show ?thesis
    by (cases "rfind_char p (CHR ''/'')") (auto simp: path_filename_def rfind_char_None_iff rfind_char_None_iff [THEN iffD2])
qed

lemma numbered_plain: "numbered f n = Inr name \<Longrightarrow> CHR ''/'' \<notin> set f \<Longrightarrow> CHR ''/'' \<notin> set name \<and> name \<noteq> []"
  using show_nat_digits [of "CHR ''/''" n]
  by (auto simp: numbered_def is_digit_def split: option.splits dest: in_set_takeD in_set_dropD)

lemma numbered_Inl: "numbered filename n = Inl e \<Longrightarrow> e = Out_of_range \<and> CHR ''.'' \<notin> set filename"
  by (auto simp: numbered_def rfind_char_None_iff split: option.splits)

lemma numbered_Inr: "numbered filename n = Inr name \<Longrightarrow> CHR ''.'' \<in> set filename"
  by (cases "CHR ''.'' \<in> set filename") (simp_all add: numbered_def rfind_char_None_iff [THEN iffD2])

lemma free_path_Inl:
  assumes "free_path taken dir filename count fullpath = Some r"
  shows "\<forall>e. r = Inl e \<longrightarrow> e = Out_of_range \<and> CHR ''.'' \<notin> set filename \<and> taken fullpath"
  using _ assms
proof (rule free_path.raw_induct)
  fix rec taken dir filename count fullpath r
  assume IH: "\<And>taken dir filename count fullpath r. rec taken dir filename count fullpath = Some r \<Longrightarrow>
      \<forall>e. r = Inl e \<longrightarrow> e = Out_of_range \<and> CHR ''.'' \<notin> set filename \<and> taken fullpath"
    and body: "(if taken fullpath
      then (case numbered filename (count + 1) of
              Inl e \<Rightarrow> Some (Inl e)
            | Inr name \<Rightarrow> rec taken dir filename (count + 1) (dir @ ''/'' @ name))
      else Some (Inr fullpath)) = Some r"
  show "\<forall>e. r = Inl e \<longrightarrow> e = Out_of_range \<and> CHR ''.'' \<notin> set filename \<and> taken fullpath"
  proof (cases "taken fullpath")
    case True
    show ?thesis
    proof (cases "numbered filename (count + 1)")
      case (Inl e)
      with True body numbered_Inl [OF Inl] show ?thesis by auto
    next
      case (Inr name)
      with True body have "rec taken dir filename (count + 1) (dir @ ''/'' @ name) = Some r" by simp
      from IH [OF this] numbered_Inr [OF Inr] show ?thesis by blast
    qed
  qed (use body in auto)
qed

lemma free_path_throws:
  "free_path taken dir filename count fullpath = Some (Inl e) \<Longrightarrow>
    e = Out_of_range \<and> CHR ''.'' \<notin> set filename \<and> taken fullpath"
  using free_path_Inl by blast

text \<open>The path the loop settles for: in the resolved directory, and new.\<close>

definition free_target :: "disk \<Rightarrow> string \<Rightarrow> part \<Rightarrow> string \<Rightarrow> string \<Rightarrow> bool" where
  "free_target d dir p root path \<longleftrightarrow> dk_realpath d dir = Some root \<and> \<not> dk_exists d path \<and>
     (\<exists>name. path = root @ ''/'' @ name \<and> name \<noteq> [] \<and> CHR ''/'' \<notin> set name \<and>
        (name = path_filename (pt_filename p) \<or> (\<exists>n. numbered (path_filename (pt_filename p)) n = Inr name)))"

definition stays_inside :: "disk \<Rightarrow> string \<Rightarrow> string \<Rightarrow> bool" where
  "stays_inside d root path \<longleftrightarrow> (case dk_realpath d path of None \<Rightarrow> True | Some file_resolved \<Rightarrow> prefix root file_resolved)"

lemma saveFile_cases:
  assumes "saveFile h p dir d = Some (out, d')"
  obtains (name) "path_filename (pt_filename p) = []" "out = Inr False" "d' = d"
  | (dir) "dk_realpath d dir = None" "out = Inr False" "d' = d"
  | (taken) root where "dk_realpath d dir = Some root" "dk_exists d (root @ ''/'' @ path_filename (pt_filename p))"
      "CHR ''.'' \<notin> set (path_filename (pt_filename p))" "out = Inl Out_of_range" "d' = d"
  | (outside) root path where "free_target d dir p root path" "\<not> stays_inside d root path" "out = Inr False" "d' = d"
  | (save) root path where "free_target d dir p root path" "stays_inside d root path" "save_to h p d path = (out, d')"
proof -
  let ?f = "path_filename (pt_filename p)"
  show ?thesis
  proof (cases "?f = [] \<or> dk_realpath d dir = None")
    case True
    with assms show ?thesis by (auto simp: saveFile_def Let_def split: option.splits intro: name dir)
  next
    case False
    then obtain root where root: "dk_realpath d dir = Some root" and f: "?f \<noteq> []" by auto
    let ?search = "free_path (dk_exists d) root ?f 0 (root @ ''/'' @ ?f)"
    have "?search \<noteq> None" using assms root f by (auto simp: saveFile_def Let_def split: option.splits)
    then obtain r where r: "?search = Some r" by blast
    show ?thesis
    proof (cases r)
      case (Inl e)
      with r have "?search = Some (Inl e)" by simp
      from free_path_throws [OF this] assms root f r Inl show ?thesis
        by (intro taken [of root]) (simp_all add: saveFile_def Let_def)
    next
      case (Inr path)
      with r have "?search = Some (Inr path)" by simp
      from free_path_free [OF this] f path_filename_plain [of "pt_filename p"]
      have target: "free_target d dir p root path"
        using numbered_plain [OF _ path_filename_plain] by (auto simp: free_target_def root)
      show ?thesis
      proof (cases "stays_inside d root path")
        case True
        with assms root f r Inr show ?thesis
          by (intro save [OF target True]) (auto simp: saveFile_def Let_def stays_inside_def split: option.splits)
      next
        case False
        with assms root f r Inr show ?thesis
          by (intro outside [OF target False]) (auto simp: saveFile_def Let_def stays_inside_def split: option.splits)
      qed
    qed
  qed
qed

subsection \<open>Properties\<close>

text \<open>
  A file that was saved is a new one directly in the directory: its path is the resolved
  directory and one component, nothing existed there before, no other file was changed, and its
  contents are the data of the part, of which every byte was written.
\<close>

theorem saveFile_fresh:
  assumes "saveFile h p dir d = Some (Inr True, d')"
  shows "\<exists>root name data. dk_realpath d dir = Some root \<and> name \<noteq> [] \<and> CHR ''/'' \<notin> set name
    \<and> \<not> dk_exists d (root @ ''/'' @ name) \<and> read_view h (pt_data p) = Inr data
    \<and> dk_files d' = (dk_files d)(root @ ''/'' @ name \<mapsto> data)"
  using assms
proof (cases rule: saveFile_cases)
  case (save root path)
  then obtain data where "read_view h (pt_data p) = Inr data" "dk_files d' = (dk_files d)(path \<mapsto> data)"
    by (auto simp: save_to_def Let_def split: if_splits option.splits sum.splits)
  with save(1) show ?thesis by (auto simp: free_target_def)
qed simp_all

text \<open>
  Saving ends, with a result or an exception, on every disk with finitely many files. It ends
  with an exception that reports nothing to the caller when the name of the upload has no dot and
  is taken.
\<close>

theorem saveFile_terminates:
  assumes "finite {q. dk_exists d q}"
  shows "saveFile h p dir d \<noteq> None \<and>
    (\<forall>root. dk_realpath d dir = Some root \<and> path_filename (pt_filename p) \<noteq> [] \<and>
       CHR ''.'' \<notin> set (path_filename (pt_filename p)) \<and> dk_exists d (root @ ''/'' @ path_filename (pt_filename p)) \<longrightarrow>
       saveFile h p dir d = Some (Inl Out_of_range, d))"
proof (intro conjI allI impI, goal_cases)
  case 1
  have free: "free_path (dk_exists d) r name 0 q \<noteq> None" for r name q
    by (rule free_path_terminates [OF assms])
  then show ?case
    by (auto simp: saveFile_def Let_def free simp del: not_None_eq split: option.split sum.split)
next
  case (2 root)
  then show ?case
    by (simp add: saveFile_def) (subst free_path.simps, simp add: numbered_def rfind_char_None_iff [THEN iffD2])
qed

definition sample_disk :: disk where
  "sample_disk =
     \<lparr>dk_files = [''/up/a.txt'' \<mapsto> ''old'', ''/up/README'' \<mapsto> ''old''],
      dk_exists = (\<lambda>q. q \<in> {''/up/a.txt'', ''/up/README'', ''/up''}),
      dk_realpath = [''up'' \<mapsto> ''/up''], dk_opens = (\<lambda>q. True), dk_fails = (\<lambda>q. None)\<rparr>"

definition sample_part :: "string \<Rightarrow> part" where
  "sample_part filename = \<lparr>pt_name = ''f'', pt_filename = filename, pt_content_type = [], pt_data = \<lparr>vw_buf = 0, vw_off = 0, vw_len = 3\<rparr>\<rparr>"

theorem saveFile_fresh_witness:
  "\<exists>d'. saveFile [0 \<mapsto> ''new''] (sample_part ''../a.txt'') ''up'' sample_disk = Some (Inr True, d')
    \<and> dk_files d' ''/up/a.txt'' = Some ''old''"
proof -
  let ?save = "saveFile [0 \<mapsto> ''new''] (sample_part ''../a.txt'') ''up'' sample_disk"
  have f: "path_filename ''../a.txt'' = ''a.txt''" by code_simp
  have n: "numbered ''a.txt'' 1 = Inr ''a_1.txt''" by code_simp
  have "free_path (dk_exists sample_disk) ''/up'' ''a.txt'' 0 ''/up/a.txt'' = Some (Inr ''/up/a_1.txt'')"
    by (subst free_path.simps, simp add: sample_disk_def n [unfolded One_nat_def])
      (subst free_path.simps, simp)
  moreover have "dk_realpath sample_disk ''up'' = Some ''/up''" "dk_realpath sample_disk ''/up/a_1.txt'' = None"
    "\<And>q. dk_opens sample_disk q" "\<And>q. dk_fails sample_disk q = None" by (simp_all add: sample_disk_def)
  ultimately obtain d' where d': "?save = Some (Inr True, d')"
    by (simp add: saveFile_def Let_def f sample_part_def save_to_def read_view_def)
  from saveFile_fresh [OF d'] have "dk_files d' ''/up/a.txt'' = Some ''old''"
    by (auto simp: sample_disk_def split: if_splits)
  with d' show ?thesis by blast
qed

theorem saveFile_terminates_witness:
  "saveFile [0 \<mapsto> ''new''] (sample_part ''README'') ''up'' sample_disk = Some (Inl Out_of_range, sample_disk)"
proof -
  have "{q. dk_exists sample_disk q} = {''/up/a.txt'', ''/up/README'', ''/up''}" by (auto simp: sample_disk_def)
  then have fin: "finite {q. dk_exists sample_disk q}" by simp
  have "path_filename (pt_filename (sample_part ''README'')) = ''README''" by code_simp
  note imp = saveFile_terminates [OF fin, of "[0 \<mapsto> ''new'']" "sample_part ''README''" "''up''", THEN conjunct2,
      THEN spec, of "''/up''", unfolded this]
  show ?thesis by (rule mp [OF imp]) (simp add: sample_disk_def)
qed

end
