(* ===== verification/Thread_Pool.thy ===== *)
theory Thread_Pool
  imports Prelude "HOL-Library.Multiset"
begin

section \<open>The thread pool\<close>

text \<open>
  Models \<^verbatim>\<open>src/net/thread_pool.cpp\<close> as a step relation. The steps are the sections of
  the code under the lock and what happens between them: a worker is about to take the lock, is
  blocked in the condition variable, runs a task or has returned. A submission and the destructor
  notify after they have given up the lock, so a notification can still be on its way; the
  condition variable may also wake up by itself. A task whose exception leaves the thread ends the
  process; which tasks throw is an argument.
\<close>

datatype 't worker = Idle | Blocked | Busy 't | Exited

record 't pool =
  tp_tasks :: "'t list"
  tp_stop :: bool
  tp_workers :: "'t worker list"
  tp_notify :: nat
  tp_notify_all :: bool
  tp_dead :: bool

definition new_pool :: "nat \<Rightarrow> 't pool" where
  "new_pool num_threads =
     \<lparr>tp_tasks = [], tp_stop = False, tp_workers = replicate num_threads Idle, tp_notify = 0,
      tp_notify_all = False, tp_dead = False\<rparr>"

datatype 't event =
    Submit 't
  | Notify "nat option"
  | Block nat
  | Spurious nat
  | Take nat 't
  | Leave nat
  | Finish nat 't
  | Crash nat 't
  | Destroy
  | Notify_all

definition at :: "'t pool \<Rightarrow> nat \<Rightarrow> 't worker \<Rightarrow> bool" where
  "at p w s \<longleftrightarrow> w < length (tp_workers p) \<and> tp_workers p ! w = s"

definition goto :: "nat \<Rightarrow> 't worker \<Rightarrow> 't pool \<Rightarrow> 't pool" where
  "goto w s p = p\<lparr>tp_workers := (tp_workers p)[w := s]\<rparr>"

definition wake :: "'t worker \<Rightarrow> 't worker" where
  "wake s = (case s of Blocked \<Rightarrow> Idle | _ \<Rightarrow> s)"

inductive pool_step :: "('t \<Rightarrow> bool) \<Rightarrow> 't event \<Rightarrow> 't pool \<Rightarrow> 't pool \<Rightarrow> bool" for throws where
  Submit: "\<not> tp_dead p \<Longrightarrow>
    pool_step throws (Submit t) p (p\<lparr>tp_tasks := tp_tasks p @ [t], tp_notify := tp_notify p + 1\<rparr>)"
| Notify: "\<not> tp_dead p \<Longrightarrow> 0 < tp_notify p \<Longrightarrow> at p w Blocked \<Longrightarrow>
    pool_step throws (Notify (Some w)) p ((goto w Idle p)\<lparr>tp_notify := tp_notify p - 1\<rparr>)"
| Notify_none: "\<not> tp_dead p \<Longrightarrow> 0 < tp_notify p \<Longrightarrow> Blocked \<notin> set (tp_workers p) \<Longrightarrow>
    pool_step throws (Notify None) p (p\<lparr>tp_notify := tp_notify p - 1\<rparr>)"
| Block: "\<not> tp_dead p \<Longrightarrow> at p w Idle \<Longrightarrow> \<not> tp_stop p \<Longrightarrow> tp_tasks p = [] \<Longrightarrow>
    pool_step throws (Block w) p (goto w Blocked p)"
| Spurious: "\<not> tp_dead p \<Longrightarrow> at p w Blocked \<Longrightarrow> pool_step throws (Spurious w) p (goto w Idle p)"
| Take: "\<not> tp_dead p \<Longrightarrow> at p w Idle \<Longrightarrow> tp_tasks p = t # ts \<Longrightarrow>
    pool_step throws (Take w t) p ((goto w (Busy t) p)\<lparr>tp_tasks := ts\<rparr>)"
| Leave: "\<not> tp_dead p \<Longrightarrow> at p w Idle \<Longrightarrow> tp_stop p \<Longrightarrow> tp_tasks p = [] \<Longrightarrow>
    pool_step throws (Leave w) p (goto w Exited p)"
| Finish: "\<not> tp_dead p \<Longrightarrow> at p w (Busy t) \<Longrightarrow> \<not> throws t \<Longrightarrow>
    pool_step throws (Finish w t) p (goto w Idle p)"
| Crash: "\<not> tp_dead p \<Longrightarrow> at p w (Busy t) \<Longrightarrow> throws t \<Longrightarrow>
    pool_step throws (Crash w t) p (p\<lparr>tp_dead := True\<rparr>)"
| Destroy: "\<not> tp_dead p \<Longrightarrow> \<not> tp_stop p \<Longrightarrow>
    pool_step throws Destroy p (p\<lparr>tp_stop := True, tp_notify_all := True\<rparr>)"
| Notify_all: "\<not> tp_dead p \<Longrightarrow> tp_notify_all p \<Longrightarrow>
    pool_step throws Notify_all p (p\<lparr>tp_workers := map wake (tp_workers p), tp_notify_all := False\<rparr>)"

inductive_cases pool_stepE [consumes 1, case_names Submit Notify Notify_none Block Spurious Take Leave Finish Crash Destroy Notify_all]:
  "pool_step throws e p q"

inductive_simps pool_step_simps:
  "pool_step throws (Submit t) p q" "pool_step throws (Notify x) p q" "pool_step throws (Block w) p q"
  "pool_step throws (Spurious w) p q" "pool_step throws (Take w t) p q" "pool_step throws (Leave w) p q"
  "pool_step throws (Finish w t) p q" "pool_step throws (Crash w t) p q" "pool_step throws Destroy p q"
  "pool_step throws Notify_all p q"

abbreviation pool_run :: "('t \<Rightarrow> bool) \<Rightarrow> 't pool \<Rightarrow> 't event list \<Rightarrow> 't pool \<Rightarrow> bool" where
  "pool_run throws \<equiv> run_of (pool_step throws)"

definition submitted :: "'t event list \<Rightarrow> 't list" where
  "submitted es = concat (map (\<lambda>e. case e of Submit t \<Rightarrow> [t] | _ \<Rightarrow> []) es)"

definition started :: "'t event list \<Rightarrow> 't list" where
  "started es = concat (map (\<lambda>e. case e of Take w t \<Rightarrow> [t] | _ \<Rightarrow> []) es)"

definition finished :: "'t event list \<Rightarrow> 't list" where
  "finished es = concat (map (\<lambda>e. case e of Finish w t \<Rightarrow> [t] | _ \<Rightarrow> []) es)"

lemmas counted = submitted_def started_def finished_def

lemma counted_snoc [simp]:
  "submitted (es @ [e]) = submitted es @ submitted [e]"
  "started (es @ [e]) = started es @ started [e]"
  "finished (es @ [e]) = finished es @ finished [e]"
  by (simp_all add: counted)

subsection \<open>First in, first out\<close>

lemma run_fifo:
  assumes "pool_run throws (new_pool n) es p"
  shows "submitted es = started es @ tp_tasks p"
  using assms
proof (induction)
  case (Step es p e q)
  from Step.hyps(2) Step.IH show ?case
    by (cases rule: pool_stepE) (simp_all add: counted goto_def)
qed (simp add: counted new_pool_def)

subsection \<open>No lost wake-up\<close>

definition awake :: "'t pool \<Rightarrow> bool" where
  "awake p \<longleftrightarrow> (\<exists>s \<in> set (tp_workers p). s \<noteq> Blocked \<and> s \<noteq> Exited)"

definition pool_ok :: "'t pool \<Rightarrow> bool" where
  "pool_ok p \<longleftrightarrow>
     (tp_tasks p \<noteq> [] \<longrightarrow> Blocked \<in> set (tp_workers p) \<longrightarrow> 0 < tp_notify p \<or> awake p) \<and>
     (tp_stop p \<longrightarrow> Blocked \<in> set (tp_workers p) \<longrightarrow> tp_notify_all p) \<and>
     (Exited \<in> set (tp_workers p) \<longrightarrow> tp_stop p)"

lemma at_mem: "at p w s \<Longrightarrow> s \<in> set (tp_workers p)"
  by (auto simp: at_def)

lemma goto_mem: "at p w s \<Longrightarrow> set (tp_workers (goto w s' p)) \<subseteq> insert s' (set (tp_workers p))"
  by (simp add: goto_def set_update_subset_insert)

lemma goto_new: "at p w s \<Longrightarrow> s' \<in> set (tp_workers (goto w s' p))"
  by (simp add: goto_def at_def set_update_memI)

lemma goto_same [simp]:
  "tp_tasks (goto w s p) = tp_tasks p" "tp_stop (goto w s p) = tp_stop p" "tp_notify (goto w s p) = tp_notify p"
  "tp_notify_all (goto w s p) = tp_notify_all p" "tp_dead (goto w s p) = tp_dead p"
  by (simp_all add: goto_def)

lemma goto_awake: "at p w s \<Longrightarrow> s' \<noteq> Blocked \<Longrightarrow> s' \<noteq> Exited \<Longrightarrow> awake (goto w s' p)"
  using goto_new [of p w s s'] by (auto simp: awake_def)

lemma pool_ok_new: "pool_ok (new_pool n)"
  by (simp add: pool_ok_def new_pool_def)

lemma pool_ok_step:
  assumes "pool_step throws e p q" and "pool_ok p"
  shows "pool_ok q"
  using assms(1)
proof (cases rule: pool_stepE)
  case (Notify w)
  with assms(2) goto_mem [of p w Blocked Idle] goto_awake [of p w Blocked Idle] show ?thesis
    by (auto simp: pool_ok_def awake_def)
next
  case (Block w)
  with assms(2) goto_mem [of p w Idle Blocked] show ?thesis by (auto simp: pool_ok_def)
next
  case (Spurious w)
  with assms(2) goto_mem [of p w Blocked Idle] goto_awake [of p w Blocked Idle] show ?thesis
    by (auto simp: pool_ok_def awake_def)
next
  case (Take w t ts)
  with assms(2) goto_mem [of p w Idle "Busy t"] goto_awake [of p w Idle "Busy t"] show ?thesis
    by (auto simp: pool_ok_def awake_def)
next
  case (Leave w)
  with assms(2) goto_mem [of p w Idle Exited] show ?thesis by (auto simp: pool_ok_def)
next
  case (Finish w t)
  with assms(2) goto_mem [of p w "Busy t" Idle] goto_awake [of p w "Busy t" Idle] show ?thesis
    by (auto simp: pool_ok_def awake_def)
next
  case Notify_all
  with assms(2) show ?thesis by (auto simp: pool_ok_def wake_def split: worker.splits)
qed (use assms(2) in \<open>auto simp: pool_ok_def awake_def\<close>)

lemma pool_ok_run: "pool_run throws (new_pool n) es p \<Longrightarrow> pool_ok p"
  by (induction rule: run_of.induct) (auto simp: pool_ok_new intro: pool_ok_step)

text \<open>The steps of the pool itself, as opposed to what its users and the system do to it.\<close>

fun own_step :: "'t event \<Rightarrow> bool" where
  "own_step (Submit t) = False"
| "own_step Destroy = False"
| "own_step (Spurious w) = False"
| "own_step _ = True"

lemma pool_progress:
  assumes ok: "pool_ok p" and alive: "\<not> tp_dead p" and work: "tp_tasks p \<noteq> [] \<or> tp_stop p"
    and worker: "\<exists>s \<in> set (tp_workers p). s \<noteq> Exited"
  shows "\<exists>e q. own_step e \<and> pool_step throws e p q"
proof -
  have at: "\<exists>w. at p w s" if "s \<in> set (tp_workers p)" for s
    using that by (auto simp: at_def in_set_conv_nth)
  consider (busy) t where "Busy t \<in> set (tp_workers p)" | (idle) "Idle \<in> set (tp_workers p)"
    | (blocked) "Blocked \<in> set (tp_workers p)" "\<not> awake p"
    using worker by (auto simp: awake_def) (metis worker.exhaust)
  then show ?thesis
  proof cases
    case busy
    then obtain w where w: "at p w (Busy t)" using at by blast
    show ?thesis
      by (cases "throws t") (use alive w in \<open>meson own_step.simps pool_step.Finish pool_step.Crash\<close>)+
  next
    case idle
    then obtain w where w: "at p w Idle" using at by blast
    show ?thesis
    proof (cases "tp_tasks p")
      case Nil
      with work alive w show ?thesis by (meson own_step.simps pool_step.Leave)
    next
      case (Cons t ts)
      with alive w show ?thesis by (meson own_step.simps pool_step.Take)
    qed
  next
    case blocked
    then obtain w where w: "at p w Blocked" using at by blast
    show ?thesis
    proof (cases "tp_tasks p = []")
      case True
      with work ok blocked have "tp_notify_all p" by (auto simp: pool_ok_def)
      with alive show ?thesis by (meson own_step.simps pool_step.Notify_all)
    next
      case False
      with ok blocked have "0 < tp_notify p" by (auto simp: pool_ok_def)
      with alive w show ?thesis by (meson own_step.simps pool_step.Notify)
    qed
  qed
qed

subsection \<open>Shutting down\<close>

definition weight :: "'t worker \<Rightarrow> nat" where
  "weight s = (case s of Exited \<Rightarrow> 0 | Idle \<Rightarrow> 1 | _ \<Rightarrow> 2)"

text \<open>An upper bound on the steps that are left once the destructor has set the flag.\<close>

definition work_left :: "'t pool \<Rightarrow> nat" where
  "work_left p = 3 * length (tp_tasks p) + sum_list (map weight (tp_workers p)) + tp_notify p
     + of_bool (tp_notify_all p) + of_bool (\<not> tp_dead p)"

lemma weight_goto:
  "at p w s \<Longrightarrow> sum_list (map weight (tp_workers (goto w s' p))) + weight s = sum_list (map weight (tp_workers p)) + weight s'"
proof -
  assume "at p w s"
  then have w: "w < length (tp_workers p)" "tp_workers p ! w = s" by (auto simp: at_def)
  have "weight s \<le> sum_list (map weight (tp_workers p))"
    using w by (metis elem_le_sum_list length_map nth_map)
  with w show ?thesis by (simp add: goto_def map_update sum_list_update)
qed

lemma weight_wake: "sum_list (map weight (map wake ss)) \<le> sum_list (map weight ss)"
  by (induction ss) (auto simp: weight_def wake_def split: worker.split)

lemma work_decreases:
  assumes "pool_step throws e p q" and "\<forall>t. e \<noteq> Submit t" and "tp_stop p"
  shows "work_left q < work_left p \<and> tp_stop q"
  using assms(1)
proof (cases rule: pool_stepE)
  case (Notify w)
  with assms(3) weight_goto [of p w Blocked Idle] show ?thesis by (simp add: work_left_def weight_def)
next
  case (Spurious w)
  with assms(3) weight_goto [of p w Blocked Idle] show ?thesis by (simp add: work_left_def weight_def)
next
  case (Take w t ts)
  with assms(3) weight_goto [of p w Idle "Busy t"] show ?thesis by (simp add: work_left_def weight_def)
next
  case (Leave w)
  with assms(3) weight_goto [of p w Idle Exited] show ?thesis by (simp add: work_left_def weight_def)
next
  case (Finish w t)
  with assms(3) weight_goto [of p w "Busy t" Idle] show ?thesis by (simp add: work_left_def weight_def)
next
  case Notify_all
  with assms(3) weight_wake [of "tp_workers p"] show ?thesis by (simp add: work_left_def)
qed (use assms(2,3) in \<open>auto simp: work_left_def\<close>)

lemma work_bound:
  assumes "pool_run throws p es q" and "\<forall>t. Submit t \<notin> set es" and "tp_stop p"
  shows "length es + work_left q \<le> work_left p \<and> tp_stop q"
  using assms
proof (induction)
  case (Step es q e r)
  then have le: "length es + work_left q \<le> work_left p" and stop: "tp_stop q" by auto
  have "\<forall>t. e \<noteq> Submit t" using Step.prems(1) by auto
  from work_decreases [OF Step.hyps(2) this stop] le show ?case by simp
qed simp

definition busy :: "'t pool \<Rightarrow> 't multiset" where
  "busy p = (\<Sum>s\<in>#mset (tp_workers p). case s of Busy t \<Rightarrow> {#t#} | _ \<Rightarrow> {#})"

lemma busy_goto:
  "at p w s \<Longrightarrow> busy (goto w s' p) + (case s of Busy t \<Rightarrow> {#t#} | _ \<Rightarrow> {#})
    = busy p + (case s' of Busy t \<Rightarrow> {#t#} | _ \<Rightarrow> {#})"
proof -
  assume "at p w s"
  then have w: "w < length (tp_workers p)" "tp_workers p ! w = s" by (auto simp: at_def)
  then have "s \<in># mset (tp_workers p)" by auto
  then obtain A where A: "mset (tp_workers p) = add_mset s A" by (meson mset_add)
  then have "mset (tp_workers (goto w s' p)) = add_mset s' A" using w by (simp add: goto_def mset_update)
  with A show ?thesis by (simp add: busy_def)
qed

lemma busy_wake: "busy (p\<lparr>tp_workers := map wake (tp_workers p)\<rparr>) = busy p"
proof -
  have "(case wake s of Busy t \<Rightarrow> {#t#} | _ \<Rightarrow> {#}) = (case s of Busy t \<Rightarrow> {#t#} | _ \<Rightarrow> {#})" for s :: "'a worker"
    by (simp add: wake_def split: worker.split)
  then show ?thesis by (simp add: busy_def image_mset.compositionality o_def)
qed

lemma busy_upd [simp]:
  "busy (p\<lparr>tp_tasks := x1\<rparr>) = busy p" "busy (p\<lparr>tp_stop := x2\<rparr>) = busy p" "busy (p\<lparr>tp_notify := x3\<rparr>) = busy p"
  "busy (p\<lparr>tp_notify_all := x2\<rparr>) = busy p" "busy (p\<lparr>tp_dead := x2\<rparr>) = busy p"
  by (simp_all add: busy_def)

lemma run_finished:
  assumes "pool_run throws (new_pool n) es p"
  shows "mset (started es) = mset (finished es) + busy p"
  using assms
proof (induction)
  case Start
  have "busy (new_pool n) = {#}" by (simp add: busy_def new_pool_def)
  then show ?case by (simp add: counted)
next
  case (Step es p e q)
  from Step.hyps(2) show ?case
  proof (cases rule: pool_stepE)
    case (Notify w)
    with Step.IH busy_goto [of p w Blocked Idle] show ?thesis by (simp add: counted)
  next
    case (Block w)
    with Step.IH busy_goto [of p w Idle Blocked] show ?thesis by (simp add: counted)
  next
    case (Spurious w)
    with Step.IH busy_goto [of p w Blocked Idle] show ?thesis by (simp add: counted)
  next
    case (Take w t ts)
    with Step.IH busy_goto [of p w Idle "Busy t"] show ?thesis by (simp add: counted)
  next
    case (Leave w)
    with Step.IH busy_goto [of p w Idle Exited] show ?thesis by (simp add: counted)
  next
    case (Finish w t)
    with Step.IH busy_goto [of p w "Busy t" Idle] show ?thesis by (simp add: counted)
  next
    case Notify_all
    then have "busy q = busy p" using busy_wake [of p] by simp
    with Step.IH Notify_all(1) show ?thesis by (simp add: counted)
  qed (use Step.IH in \<open>simp_all add: counted\<close>)
qed

lemma busy_exited: "set (tp_workers p) \<subseteq> {Exited} \<Longrightarrow> busy p = {#}"
proof -
  assume "set (tp_workers p) \<subseteq> {Exited}"
  then have "image_mset (\<lambda>s. case s of Busy t \<Rightarrow> {#t#} | _ \<Rightarrow> {#}) (mset (tp_workers p))
      = image_mset (\<lambda>s. {#}) (mset (tp_workers p))"
    by (intro image_mset_cong) auto
  then show ?thesis by (simp add: busy_def)
qed

lemma run_started: "pool_run throws p es q \<Longrightarrow> Exited \<notin> set (tp_workers p) \<or> tp_tasks p = [] \<and> tp_stop p \<Longrightarrow>
    \<forall>t. Submit t \<notin> set es \<Longrightarrow> Exited \<notin> set (tp_workers q) \<or> tp_tasks q = [] \<and> tp_stop q"
proof (induction rule: run_of.induct)
  case (Step es p1 e q)
  then have IH: "Exited \<notin> set (tp_workers p1) \<or> tp_tasks p1 = [] \<and> tp_stop p1" by auto
  from Step.hyps(2) show ?case
  proof (cases rule: pool_stepE)
    case (Submit t)
    with Step.prems show ?thesis by auto
  next
    case (Notify w)
    with IH goto_mem [of p1 w Blocked Idle] show ?thesis by auto
  next
    case (Block w)
    with IH goto_mem [of p1 w Idle Blocked] show ?thesis by auto
  next
    case (Spurious w)
    with IH goto_mem [of p1 w Blocked Idle] show ?thesis by auto
  next
    case (Take w t ts)
    with IH goto_mem [of p1 w Idle "Busy t"] show ?thesis by auto
  next
    case (Finish w t)
    with IH goto_mem [of p1 w "Busy t" Idle] show ?thesis by auto
  next
    case Notify_all
    with IH show ?thesis by (auto simp: wake_def split: worker.splits)
  qed (use IH in auto)
qed simp

lemma run_workers: "pool_run throws p es q \<Longrightarrow> length (tp_workers q) = length (tp_workers p)"
proof (induction rule: run_of.induct)
  case (Step es p1 e q)
  from Step.hyps(2) Step.IH show ?case by (cases rule: pool_stepE) (simp_all add: goto_def)
qed simp

subsection \<open>Properties\<close>

text \<open>
  The pool starts tasks in the order in which they are submitted, each one once: at every moment
  what was submitted is what the workers have taken, in that order, followed by what is still in
  the queue; and of the tasks taken, every one is finished or being run by one worker.
\<close>

theorem pool_fifo:
  assumes "pool_run throws (new_pool n) es p"
  shows "submitted es = started es @ tp_tasks p \<and> mset (started es) = mset (finished es) + busy p"
  using run_fifo [OF assms] run_finished [OF assms] by blast

text \<open>
  No wake-up is lost: as long as a task waits in the queue, a worker has not returned and no task
  has crashed the process, the pool can make a step of its own, a notification that wakes a worker
  or a step of a worker that is awake.
\<close>

theorem pool_no_lost_wakeup:
  assumes "pool_run throws (new_pool n) es p" and "tp_tasks p \<noteq> []" and "\<not> tp_dead p"
    and "\<exists>s \<in> set (tp_workers p). s \<noteq> Exited"
  shows "\<exists>e q. own_step e \<and> pool_step throws e p q"
  using pool_progress [OF pool_ok_run [OF assms(1)] assms(3) _ assms(4)] assms(2) by blast

text \<open>
  C27. The destructor returns and loses no task: after it has set the flag, and if nothing is
  submitted any more, the steps of the pool are bounded by the work that was left; when no step of
  its own is left, all workers have returned, which is what the calls of \<open>join\<close> wait for; and then
  every task that was ever submitted has been finished.
\<close>

theorem pool_shutdown:
  assumes "pool_run throws (new_pool n) before p0" and "pool_step throws Destroy p0 p1"
    and "pool_run throws p1 es p" and "\<forall>t. Submit t \<notin> set es" and "0 < n" and "\<not> tp_dead p"
  shows "length es \<le> work_left p1
    \<and> ((\<forall>e q. own_step e \<longrightarrow> \<not> pool_step throws e p q) \<longleftrightarrow>
       (\<forall>s \<in> set (tp_workers p). s = Exited) \<and> tp_notify p = 0 \<and> \<not> tp_notify_all p)
    \<and> ((\<forall>s \<in> set (tp_workers p). s = Exited) \<longrightarrow>
       mset (finished (before @ [Destroy] @ es)) = mset (submitted (before @ [Destroy] @ es)))"
proof (intro conjI)
  have p1: "p1 = p0\<lparr>tp_stop := True, tp_notify_all := True\<rparr>" "\<not> tp_stop p0"
    using assms(2) by (auto simp: pool_step_simps)
  from work_bound [OF assms(3,4)] p1 show "length es \<le> work_left p1" by simp
  have run: "pool_run throws (new_pool n) (before @ [Destroy] @ es) p"
    using run_append [OF assms(3) run_of.Step [OF assms(1,2)]] by simp
  have stop: "tp_stop p" using work_bound [OF assms(3,4)] p1 by simp
  show "(\<forall>e q. own_step e \<longrightarrow> \<not> pool_step throws e p q) \<longleftrightarrow> (\<forall>s \<in> set (tp_workers p). s = Exited) \<and> tp_notify p = 0
      \<and> \<not> tp_notify_all p" (is "?stuck \<longleftrightarrow> ?done")
  proof
    assume stuck: ?stuck
    with pool_progress [OF pool_ok_run [OF run] assms(6), of throws] stop
    have exited: "\<forall>s \<in> set (tp_workers p). s = Exited" by blast
    then have "Blocked \<notin> set (tp_workers p)" by auto
    with stuck assms(6) have "tp_notify p = 0"
      by (meson own_step.simps(4) pool_step.Notify_none neq0_conv)
    moreover have "\<not> tp_notify_all p" using stuck assms(6) by (meson own_step.simps pool_step.Notify_all)
    ultimately show ?done using exited by blast
  next
    assume ?done
    then have "\<not> pool_step throws e p q" if "own_step e" for e q
    proof (intro notI)
      assume "pool_step throws e p q"
      then show False using that \<open>?done\<close>
        by (cases rule: pool_stepE) (auto dest!: at_mem)
    qed
    then show ?stuck by blast
  qed
  show "(\<forall>s \<in> set (tp_workers p). s = Exited) \<longrightarrow>
      mset (finished (before @ [Destroy] @ es)) = mset (submitted (before @ [Destroy] @ es))"
  proof
    assume exited: "\<forall>s \<in> set (tp_workers p). s = Exited"
    have "length (tp_workers p) = n" using run_workers [OF run] by (simp add: new_pool_def)
    with assms(5) have "tp_workers p \<noteq> []" by auto
    with exited have "Exited \<in> set (tp_workers p)" by (cases "tp_workers p") auto
    moreover have "Exited \<notin> set (tp_workers p0)" using pool_ok_run [OF assms(1)] p1(2) by (auto simp: pool_ok_def)
    ultimately have "tp_tasks p = []" using run_started [OF assms(3) _ assms(4)] p1(1) by auto
    moreover have "busy p = {#}" using exited by (intro busy_exited) auto
    ultimately show "mset (finished (before @ [Destroy] @ es)) = mset (submitted (before @ [Destroy] @ es))"
      using run_fifo [OF run] run_finished [OF run] by simp
  qed
qed

text \<open>Two runs of a pool with one worker, state by state.\<close>

definition one_worker :: "nat list \<Rightarrow> bool \<Rightarrow> nat worker \<Rightarrow> nat \<Rightarrow> bool \<Rightarrow> nat pool" where
  "one_worker ts stop s k all =
     \<lparr>tp_tasks = ts, tp_stop = stop, tp_workers = [s], tp_notify = k, tp_notify_all = all, tp_dead = False\<rparr>"

lemmas one_worker_step = pool_step_simps one_worker_def at_def goto_def wake_def

lemma sample_run:
  "pool_run (\<lambda>t. False) (new_pool 1) [Block 0, Submit 7] (one_worker [7] False Blocked 1 False)"
proof -
  have "pool_run (\<lambda>t. False) (new_pool 1) [] (one_worker [] False Idle 0 False)"
    using run_of.Start [of _ "new_pool 1"] by (simp add: new_pool_def one_worker_def)
  then have "pool_run (\<lambda>t. False) (new_pool 1) [Block 0] (one_worker [] False Blocked 0 False)"
    by (rule run_snoc) (simp_all add: one_worker_step)
  then show ?thesis by (rule run_snoc) (simp_all add: one_worker_step)
qed

theorem pool_fifo_witness:
  "submitted [Block 0, Submit 7] = started [Block 0, Submit (7 :: nat)] @ [7]"
  using pool_fifo [OF sample_run] by (simp add: one_worker_def)

theorem pool_no_lost_wakeup_witness:
  "\<exists>e q. own_step e \<and> pool_step (\<lambda>t. False) e (one_worker [7] False Blocked 1 False) q"
  using pool_no_lost_wakeup [OF sample_run] by (simp add: one_worker_def)

theorem pool_shutdown_witness:
  "length [Notify_all, Notify None, Take 0 (7 :: nat), Finish 0 7, Leave 0] \<le> work_left (one_worker [7] True Blocked 1 True)
   \<and> finished [Block 0, Submit 7, Destroy, Notify_all, Notify None, Take 0 (7 :: nat), Finish 0 7, Leave 0] = [7]"
proof -
  have destroy: "pool_step (\<lambda>t. False) Destroy (one_worker [7] False Blocked 1 False) (one_worker [7] True Blocked 1 True)"
    by (simp add: one_worker_step)
  have "pool_run (\<lambda>t. False) (one_worker [7] True Blocked 1 True) [] (one_worker [7] True Blocked 1 True)"
    by (rule run_of.Start)
  then have "pool_run (\<lambda>t. False) (one_worker [7] True Blocked 1 True) [Notify_all] (one_worker [7] True Idle 1 False)"
    by (rule run_snoc) (simp_all add: one_worker_step)
  then have "pool_run (\<lambda>t. False) (one_worker [7] True Blocked 1 True) [Notify_all, Notify None] (one_worker [7] True Idle 0 False)"
    by (rule run_snoc) (simp_all add: one_worker_step)
  then have "pool_run (\<lambda>t. False) (one_worker [7] True Blocked 1 True) [Notify_all, Notify None, Take 0 7]
      (one_worker [] True (Busy 7) 0 False)"
    by (rule run_snoc) (simp_all add: one_worker_step)
  then have "pool_run (\<lambda>t. False) (one_worker [7] True Blocked 1 True) [Notify_all, Notify None, Take 0 7, Finish 0 7]
      (one_worker [] True Idle 0 False)"
    by (rule run_snoc) (simp_all add: one_worker_step)
  then have run: "pool_run (\<lambda>t. False) (one_worker [7] True Blocked 1 True)
      [Notify_all, Notify None, Take 0 7, Finish 0 7, Leave 0] (one_worker [] True Exited 0 False)"
    by (rule run_snoc) (simp_all add: one_worker_step)
  have "\<forall>t. Submit t \<notin> set [Notify_all, Notify None, Take 0 (7 :: nat), Finish 0 7, Leave 0]"
    "\<not> tp_dead (one_worker [] True Exited 0 False)" by (simp_all add: one_worker_def)
  note shutdown = pool_shutdown [OF sample_run destroy run this(1) _ this(2)]
  then show ?thesis by (simp add: counted)
qed

end
