(* ===== verification/World.thy ===== *)
theory World
  imports Csrf Path_Guard Rate_Limiter Cache
begin

section \<open>The state behind the handlers\<close>

text \<open>
  What the middlewares and handlers of one server share: the sessions and their clean-up, the
  buckets of every rate limiter, the lists of the path guard, the file cache, the log, the live
  buffers, and the state \<open>wd_app\<close> of the application. The last four fields are what the
  clocks and the random generator will say to the next request. Every middleware owns one field,
  or one entry of it: the rate limiters are numbered, and each has buckets and readings of the
  clock of its own;
  the interpretations below show that the fields are components, so that what one middleware
  stores is not changed by the others.
\<close>

record 'u world =
  wd_sessions :: sessions
  wd_buckets :: "nat \<Rightarrow> buckets"
  wd_guard :: path_guard
  wd_cache :: cache
  wd_log :: "string list"
  wd_buffers :: heap
  wd_app :: 'u
  wd_clock :: "nat \<Rightarrow> int"
  wd_session_env :: session_env
  wd_random :: "nat \<Rightarrow> byte list"
  wd_time :: string

definition put_sessions :: "sessions \<Rightarrow> 'u world \<Rightarrow> 'u world" where
  "put_sessions s w = w\<lparr>wd_sessions := s\<rparr>"

definition get_buckets :: "nat \<Rightarrow> 'u world \<Rightarrow> buckets" where
  "get_buckets k w = wd_buckets w k"

definition put_buckets :: "nat \<Rightarrow> buckets \<Rightarrow> 'u world \<Rightarrow> 'u world" where
  "put_buckets k s w = w\<lparr>wd_buckets := (wd_buckets w)(k := s)\<rparr>"

definition put_guard :: "path_guard \<Rightarrow> 'u world \<Rightarrow> 'u world" where
  "put_guard s w = w\<lparr>wd_guard := s\<rparr>"

definition put_cache :: "cache \<Rightarrow> 'u world \<Rightarrow> 'u world" where
  "put_cache s w = w\<lparr>wd_cache := s\<rparr>"

definition put_log :: "string list \<Rightarrow> 'u world \<Rightarrow> 'u world" where
  "put_log s w = w\<lparr>wd_log := s\<rparr>"

lemmas put_defs = put_sessions_def get_buckets_def put_buckets_def put_guard_def put_cache_def put_log_def

interpretation sessions_part: component wd_sessions put_sessions
  by unfold_locales (simp_all add: put_defs)

interpretation buckets_part: component "get_buckets k" "put_buckets k" for k
  by unfold_locales (simp_all add: put_defs)

interpretation guard_part: component wd_guard put_guard
  by unfold_locales (simp_all add: put_defs)

interpretation cache_part: component wd_cache put_cache
  by unfold_locales (simp_all add: put_defs)

interpretation log_part: component wd_log put_log
  by unfold_locales (simp_all add: put_defs)

subsection \<open>Sessions with the CSRF check\<close>

text \<open>
  The two middlewares share the component of the sessions: what the first one finds or creates,
  the second one reads and writes through the request's pointer. The clocks, the random
  generator and the live buffers are read only, and storing sessions does not change them.
\<close>

locale session_component = component get put
  for get :: "'w \<Rightarrow> sessions" and put :: "sessions \<Rightarrow> 'w \<Rightarrow> 'w" +
  fixes env :: "'w \<Rightarrow> session_env" and rand :: "'w \<Rightarrow> nat \<Rightarrow> byte list" and buffers :: "'w \<Rightarrow> heap"
  assumes rand_put: "rand (put s w) = rand w" and buffers_put: "buffers (put s w) = buffers w"
begin

lemma session_runs:
  assumes "session_step ttl n flags (env w) (req, res, get w) = (req', res', s')"
  shows "run_chain (Session get put env ttl n flags # ms) final (req, res, w) = run_chain ms final (req', res', put s' w)"
  by (rule session_filter.continues) (simp add: session_decide_def assms)

lemma session_then_token:
  assumes "session_step ttl n flags (env w) (req, res, get w) = (req1, res1, s1)"
    and "csrf_issue (rand w) (req1, res1, s1) = Inr (req2, res2, s2)" and "rq_method req1 = ''GET''"
  shows "run_chain (Session get put env ttl n flags # Csrf get put buffers rand # ms) final (req, res, w)
    = run_chain ms final (req2, res2, put s2 w)"
proof -
  have "run_chain (Csrf get put buffers rand # ms) final (req1, res1, put s1 w)
      = run_chain ms final (req2, res2, put s2 (put s1 w))"
    by (rule csrf_filter.continues) (simp add: csrf_decide_def assms get_put rand_put)
  then show ?thesis by (simp only: session_runs [OF assms(1)] put_put)
qed

lemma session_then_check:
  assumes "session_step ttl n flags (env w) (req, res, get w) = (req1, res1, s1)"
    and "csrf_allows (buffers w) s1 req1 = Inr True" and "rq_method req1 \<in> {''POST'', ''PUT'', ''DELETE''}"
  shows "run_chain (Session get put env ttl n flags # Csrf get put buffers rand # ms) final (req, res, w)
    = run_chain ms final (req1, res1, put s1 w)"
proof -
  have "run_chain (Csrf get put buffers rand # ms) final (req1, res1, put s1 w) = run_chain ms final (req1, res1, put s1 w)"
    using assms(3) by (intro csrf_filter.continues) (auto simp: csrf_decide_def assms(2) get_put buffers_put)
  then show ?thesis by (simp only: session_runs [OF assms(1)])
qed

end

interpretation guarded_sessions: session_component wd_sessions put_sessions wd_session_env wd_random wd_buffers
  by unfold_locales (simp_all add: put_defs)

end
