(* ===== verification/Server.thy ===== *)
theory Server
  imports World Websocket Static_File Request_Roundtrip
begin

section \<open>Handling a request\<close>

text \<open>
  Models \<open>handleRequest\<close> and \<open>handleWebSocket\<close> of \<^verbatim>\<open>src/core/server.cpp\<close>: a
  request is read from a connection that has bytes to read, parsed, routed through the
  middlewares to a handler, a static file or an error page, and answered. The state of the
  connection is a \<open>wire\<close>, where an empty segment is a read that would block, as a
  socket that is not blocking reports it; a write that the socket takes nothing of fails. What
  becomes of the connection is a \<open>fate\<close>: erased from the map of connections, or watched again
  for the next request. An exception that leaves the function ends the worker that runs it.
\<close>

subsection \<open>What the server holds and relies on\<close>

type_synonym 'u ws_handler = "wire \<times> 'u world \<Rightarrow> (wire \<times> 'u world) result option"

record 'u server =
  sv_config :: config
  sv_router :: "'u world routes option"
  sv_middlewares :: "'u world middleware list"
  sv_ws_routes :: "string \<rightharpoonup> 'u ws_handler"
  sv_static_files :: "static_server list"
  sv_error_handlers :: "'u world error_handlers"

text \<open>
  The machine: the allocator, SHA-1 of the TLS library, the file system as seen by static files
  and by error pages, the order in which the hash maps of headers and routes are visited, and the
  attempts at a TLS handshake.
\<close>

record host =
  hs_new :: "heap \<Rightarrow> nat"
  hs_SHA1 :: "byte list \<Rightarrow> byte list"
  hs_files :: file_system
  hs_disk :: "string \<rightharpoonup> string"
  hs_header_order :: "(string \<rightharpoonup> string) \<Rightarrow> string list"
  hs_route_order :: "string list"
  hs_accept :: "nat \<Rightarrow> int"
  hs_ssl_error :: "nat \<Rightarrow> ssl_error"
  hs_poll :: "nat \<Rightarrow> int"

datatype fate = Erased | Rearmed

subsection \<open>Reading the request\<close>

text \<open>The loop that reads until the blank line has arrived, 4096 bytes at most at a time.\<close>

definition in_flight :: "wire \<Rightarrow> nat" where
  "in_flight w = length (concat (wi_in w)) + length (wi_in w)"

lemma wire_read_less: "wire_read n w = (got, w') \<Longrightarrow> got \<noteq> [] \<Longrightarrow> in_flight w' < in_flight w"
  by (auto simp: wire_read_def in_flight_def split: if_splits list.splits)

function read_head :: "wire \<Rightarrow> string \<Rightarrow> string \<times> wire" where
  "read_head w raw =
     (case wire_read 4096 w of (got, w1) \<Rightarrow>
        if got = [] then (raw, w1)
        else if find_from (raw @ got) (crlf @ crlf) 0 \<noteq> None then (raw @ got, w1)
        else read_head w1 (raw @ got))"
  by pat_completeness auto
termination
  by (relation "measure (\<lambda>(w, raw). in_flight w)") (auto dest!: wire_read_less [OF sym])

declare read_head.simps [simp del]

text \<open>
  The length of the body as the text after the first \<^verbatim>\<open>Content-Length: \<close> of the
  message tells it; the message need not have one.
\<close>

definition cl_text :: string where
  "cl_text = ''Content-Length: ''"

definition content_length_of :: "string \<Rightarrow> nat result" where
  "content_length_of raw =
     (case find_from raw cl_text 0 of
        None \<Rightarrow> Inr 0
      | Some cl_pos \<Rightarrow>
          let len = (case find_from raw crlf cl_pos of
                       None \<Rightarrow> None | Some cl_end \<Rightarrow> Some (size_sub (size_sub cl_end cl_pos) 16))
          in bind_result (substr_at raw (cl_pos + 16) len) (stoul 10))"

text \<open>The number of reads for the body, converted to \<^verbatim>\<open>int\<close>.\<close>

definition max_reads :: "nat \<Rightarrow> int" where
  "max_reads content_length = sint (of_nat (size_add (content_length div 4096) 10) :: 32 word)"

function read_body :: "int \<Rightarrow> int \<Rightarrow> nat \<Rightarrow> nat \<Rightarrow> wire \<Rightarrow> string \<Rightarrow> string \<times> wire" where
  "read_body limit reads content_length body_start w raw =
     (if length raw - body_start < content_length then
        (case wire_read 4096 w of (got, w1) \<Rightarrow>
           if got = [] then (raw, w1)
           else if reads + 1 > limit then (raw @ got, w1)
           else read_body limit (reads + 1) content_length body_start w1 (raw @ got))
      else (raw, w))"
  by pat_completeness auto
termination
  by (relation "measure (\<lambda>(limit, reads, n, s, w, raw). in_flight w)") (auto dest!: wire_read_less [OF sym])

declare read_body.simps [simp del]

text \<open>Everything before the parser: the message, or the response that refuses it.\<close>

definition receive :: "config \<Rightarrow> wire \<Rightarrow> (response + string) \<times> wire" where
  "receive cfg w =
     (case read_head w [] of (raw, w1) \<Rightarrow>
        (case find_from raw (crlf @ crlf) 0 of
          None \<Rightarrow> (Inr raw, w1)
        | Some header_end \<Rightarrow>
            (case content_length_of raw of
               Inl e \<Rightarrow> (Inl (res_error 400 []), w1)
             | Inr content_length \<Rightarrow>
                 if content_length > cfg_max_upload_size cfg
                 then (Inl (res_error 413 ''Upload size exceeds limit''), w1)
                 else
                   (case read_body (max_reads content_length) 0 content_length (header_end + 4) w1 raw of
                      (raw', w2) \<Rightarrow> (Inr raw', w2)))))"

subsection \<open>Writing the response\<close>

text \<open>
  The send loop on a wire: the writes take the numbers of bytes in the list, and the rest is
  taken at once when the list is used up. The number 0 stands for a write that fails, with -1,
  and ends the loop; a write that succeeds takes at least a byte. (A write that returned 0 would
  keep the loop going, as \<open>send_loop\<close> of the theory Response has it.)
\<close>

fun deliver :: "nat list \<Rightarrow> string \<Rightarrow> string \<times> nat list" where
  "deliver [] data = (data, [])"
| "deliver (n # ns) data =
     (if n = 0 then ([], ns)
      else if length data \<le> n then (data, ns)
      else (case deliver ns (drop n data) of (sent, rest) \<Rightarrow> (take n data @ sent, rest)))"

definition send_response :: "host \<Rightarrow> response \<Rightarrow> wire \<Rightarrow> wire" where
  "send_response hst res w =
     (if cn_fd (wi_conn w) = -1 then w
      else (case deliver (wi_accept w) (res_build (hs_header_order hst (rs_headers (with_length res))) res) of
              (sent, rest) \<Rightarrow> w\<lparr>wi_out := wi_out w @ sent, wi_accept := rest\<rparr>))"

subsection \<open>The handler of a request\<close>

text \<open>The page for an error: the program's own, which may throw, or the library's.\<close>

definition error_page ::
  "host \<Rightarrow> 'u server \<Rightarrow> int \<Rightarrow> request \<Rightarrow> 'u world \<Rightarrow> response result \<times> 'u world" where
  "error_page hst sv code req w =
     (case sv_error_handlers sv code of
        Some handler \<Rightarrow> handler req (hs_disk hst) w
      | None \<Rightarrow> (Inr (res_error code []), w))"

fun serve_static :: "file_system \<Rightarrow> static_server list \<Rightarrow> request \<Rightarrow> response \<Rightarrow> bool \<times> response" where
  "serve_static fs [] req res = (False, res)"
| "serve_static fs (sf # sfs) req res =
     (case tryServe fs sf req res of
        (True, res') \<Rightarrow> (True, res')
      | (False, res') \<Rightarrow> serve_static fs sfs req res')"

text \<open>What stands at the end of the chain of middlewares.\<close>

definition last_effect :: "host \<Rightarrow> 'u server \<Rightarrow> 'u world handler option \<Rightarrow> 'u world effect" where
  "last_effect hst sv handler c =
     (case handler of
        Some h \<Rightarrow> h c
      | None \<Rightarrow>
          (case c of (req, res, w) \<Rightarrow>
             (case serve_static (hs_files hst) (sv_static_files sv) req res of
                (True, res') \<Rightarrow> (None, req, res', w)
              | (False, res') \<Rightarrow>
                  (case error_page hst sv 404 req w of
                     (Inl e, w') \<Rightarrow> (Some e, req, res', w')
                   | (Inr page, w') \<Rightarrow> (None, req, page, w')))))"

text \<open>
  The call of the chain, and the page for an exception it throws. The page is made in the
  \<open>catch\<close> block, so what it throws itself is not caught, and neither is a thrown value that
  is not a \<open>std::exception\<close>.
\<close>

definition respond ::
  "host \<Rightarrow> 'u server \<Rightarrow> 'u world handler option \<Rightarrow> 'u world ctx \<Rightarrow> 'u world ctx result" where
  "respond hst sv handler c =
     (case run_chain (sv_middlewares sv) (last_effect hst sv handler) c of
        (None, c') \<Rightarrow> Inr c'
      | (Some e, (req', res', w')) \<Rightarrow>
          if \<not> caught e then Inl e
          else
            (case error_page hst sv 500 req' w' of
               (Inl e', w'') \<Rightarrow> Inl e'
             | (Inr page, w'') \<Rightarrow> Inr (req', page, w'')))"

definition handleWebSocket ::
  "host \<Rightarrow> 'u server \<Rightarrow> request \<Rightarrow> wire \<times> 'u world \<Rightarrow> (wire \<times> 'u world) result option" where
  "handleWebSocket hst sv req s =
     (case s of (wi, w) \<Rightarrow>
        (case sv_ws_routes sv (rq_path req) of
           Some handler \<Rightarrow> handler (wire_write (ws_handshake (hs_SHA1 hst) req) wi, w)
         | None \<Rightarrow>
             Some (Inr (wire_write (''HTTP/1.1 404 Not Found'' @ crlf @ ''Content-Length: 0'' @ crlf @ crlf) wi, w))))"

definition after_response :: "request \<Rightarrow> fate" where
  "after_response req = (if getHeader req ''Connection'' = Some ''close'' then Erased else Rearmed)"

text \<open>A request that was parsed.\<close>

definition answer ::
  "host \<Rightarrow> 'u server \<Rightarrow> request \<Rightarrow> wire \<times> 'u world \<Rightarrow> (fate \<times> wire \<times> 'u world) result option" where
  "answer hst sv req s =
     (case s of (wi, w) \<Rightarrow>
        if isUpgrade req then
          map_option (\<lambda>r. bind_result r (\<lambda>s'. Inr (Erased, s'))) (handleWebSocket hst sv req (wi, w))
        else
          (case sv_router sv of
             None \<Rightarrow> Some (Inr (Erased, send_response hst (res_error 404 []) wi, w))
           | Some routes \<Rightarrow>
               (case resolve (hs_route_order hst) routes (rq_method req) (rq_path req) req of
                  (handler, req1) \<Rightarrow>
                    Some (bind_result (respond hst sv handler (req1, setCache True new_response, w))
                      (\<lambda>(req2, res, w'). Inr (after_response req2, send_response hst res wi, w'))))))"

definition parse_and_answer ::
  "host \<Rightarrow> 'u server \<Rightarrow> string \<Rightarrow> wire \<times> 'u world \<Rightarrow> (fate \<times> wire \<times> 'u world) result option" where
  "parse_and_answer hst sv raw s =
     (case s of (wi, w) \<Rightarrow>
        if raw = [] then Some (Inr (Erased, wi, w))
        else
          (case parse_request (hs_new hst) (sv_config sv) (wd_buffers w) raw of
             (Inl e, h) \<Rightarrow> Some (Inl e)
           | (Inr req, h) \<Rightarrow>
               let req1 = req\<lparr>rq_client_ip := cn_ip (wi_conn wi)\<rparr>; w1 = w\<lparr>wd_buffers := h\<rparr>
               in if rq_parse_error req1
                  then Some (Inr (Erased, send_response hst (res_error 400 []) wi, w1))
                  else answer hst sv req1 (wi, w1)))"

definition handleRequest ::
  "host \<Rightarrow> 'u server \<Rightarrow> wire \<times> 'u world \<Rightarrow> (fate \<times> wire \<times> 'u world) result option" where
  "handleRequest hst sv s =
     (case s of (wi, w) \<Rightarrow>
        if cn_ssl (wi_conn wi) \<noteq> None \<and> \<not> handshake (wi_conn wi) (hs_accept hst) (hs_ssl_error hst) (hs_poll hst)
        then Some (Inr (Erased, wi, w))
        else
          (case receive (sv_config sv) wi of
             (Inl res, wi1) \<Rightarrow> Some (Inr (Erased, send_response hst res wi1, w))
           | (Inr raw, wi1) \<Rightarrow> parse_and_answer hst sv raw (wi1, w)))"

end
