(* ===== verification/Serving.thy ===== *)
theory Serving
  imports Server
begin

section \<open>Serving\<close>

subsection \<open>Reading what has arrived\<close>

text \<open>
  What is in flight begins with the segments that are there, none of them empty, and goes on with
  a segment that is not there yet, or with nothing. Every read takes at most 4096 bytes of a
  segment, so \<open>turns\<close> counts the reads that are needed.
\<close>

definition waiting :: "string list \<Rightarrow> string list \<Rightarrow> wire \<Rightarrow> bool" where
  "waiting segs tail w \<longleftrightarrow> open_wire w \<and> wi_in w = segs @ tail \<and> [] \<notin> set segs \<and> (tail = [] \<or> hd tail = [])"

fun turns :: "string list \<Rightarrow> nat" where
  "turns [] = 0"
| "turns (s # ss) = (length s + 4095) div 4096 + turns ss"

text \<open>What is left of the segments when the blank line has been read.\<close>

function after_head :: "string \<Rightarrow> string list \<Rightarrow> string list" where
  "after_head raw [] = []"
| "after_head raw (s # ss) =
     (let raw' = raw @ take 4096 s; rest = (if length s \<le> 4096 then ss else drop 4096 s # ss)
      in if find_sub (crlf @ crlf) raw' = None then after_head raw' rest else rest)"
  by pat_completeness auto
termination
  by (relation "measure (\<lambda>(raw, segs). length (concat segs) + length segs)") auto

declare after_head.simps [simp del]

lemma turns_read: "turns (if length s \<le> 4096 then ss else drop 4096 s # ss) \<le> turns (s # ss)"
  by (auto simp: div_if [of "length s + 4095"] le_div_geq)

lemma turns_after_head [simp]: "turns segs \<le> k \<Longrightarrow> turns (after_head raw segs) \<le> k"
proof (induction raw segs rule: after_head.induct)
  case (2 raw s ss)
  then show ?case
    using turns_read [of s ss] by (auto simp: after_head.simps Let_def)
qed (simp add: after_head.simps)

lemma read_waiting:
  assumes "waiting (s # ss) tail w"
  obtains got rest where "wire_read 4096 w = (got, w\<lparr>wi_in := rest @ tail\<rparr>)" and "got \<noteq> []"
    and "concat (s # ss) = got @ concat rest" and "waiting rest tail (w\<lparr>wi_in := rest @ tail\<rparr>)"
    and "turns (s # ss) = Suc (turns rest)"
    and "\<forall>raw. after_head raw (s # ss) = (if find_sub (crlf @ crlf) (raw @ got) = None then after_head (raw @ got) rest else rest)"
proof
  let ?rest = "if length s \<le> 4096 then ss else drop 4096 s # ss"
  have ne: "s \<noteq> []" "0 < length s" using assms by (auto simp: waiting_def)
  show "wire_read 4096 w = (take 4096 s, w\<lparr>wi_in := ?rest @ tail\<rparr>)"
    using assms by (simp add: wire_read_def waiting_def open_wire_def)
  show "take 4096 s \<noteq> []" using ne by simp
  show "concat (s # ss) = take 4096 s @ concat ?rest" by simp
  show "waiting ?rest tail (w\<lparr>wi_in := ?rest @ tail\<rparr>)" using assms by (auto simp: waiting_def open_wire_def)
  show "turns (s # ss) = Suc (turns ?rest)"
    using ne by (auto simp: div_if [of "length s + 4095"] le_div_geq)
  show "\<forall>raw. after_head raw (s # ss) =
      (if find_sub (crlf @ crlf) (raw @ take 4096 s) = None then after_head (raw @ take 4096 s) ?rest else ?rest)"
    by (simp add: after_head.simps Let_def)
qed

lemma read_blocked:
  assumes "waiting [] tail w"
  shows "wire_read n w = ([], w\<lparr>wi_in := tl tail\<rparr>)"
  using assms by (cases tail) (auto simp: wire_read_def waiting_def open_wire_def)

lemma find_sub_longer:
  assumes "find_sub pat xs = Some i"
  shows "find_sub pat (xs @ ys) = Some i"
proof -
  have len: "i + length pat \<le> length xs" by (rule find_sub_bound [OF assms])
  have "\<not> prefix pat (drop j (xs @ ys))" if "j < i" for j
  proof
    assume "prefix pat (drop j (xs @ ys))"
    then have "prefix pat (drop j xs)"
      by (rule prefix_length_prefix) (use len that in auto)
    with assms that show False by (simp add: find_sub_Some_iff)
  qed
  with assms len show ?thesis by (auto simp: find_sub_Some_iff prefix_def)
qed

lemma read_head_waiting:
  assumes "waiting segs tail w" and "find_sub (crlf @ crlf) raw = None"
    and "find_sub (crlf @ crlf) (raw @ concat segs) = Some he"
  obtains got rest where "read_head w raw = (raw @ got, w\<lparr>wi_in := rest @ tail\<rparr>)"
    and "concat segs = got @ concat rest" and "waiting rest tail (w\<lparr>wi_in := rest @ tail\<rparr>)"
    and "rest = after_head raw segs" and "find_sub (crlf @ crlf) (raw @ got) = Some he"
proof -
  have "\<exists>got rest. read_head w raw = (raw @ got, w\<lparr>wi_in := rest @ tail\<rparr>) \<and> concat segs = got @ concat rest
    \<and> waiting rest tail (w\<lparr>wi_in := rest @ tail\<rparr>) \<and> rest = after_head raw segs
    \<and> find_sub (crlf @ crlf) (raw @ got) = Some he"
    using assms
  proof (induction w raw arbitrary: segs rule: read_head.induct)
    case (1 w raw)
    show ?case
    proof (cases segs)
      case Nil
      with "1.prems" show ?thesis by simp
    next
      case (Cons s ss)
      obtain got rest where r: "wire_read 4096 w = (got, w\<lparr>wi_in := rest @ tail\<rparr>)" "got \<noteq> []"
        "concat segs = got @ concat rest" "waiting rest tail (w\<lparr>wi_in := rest @ tail\<rparr>)"
        "after_head raw segs = (if find_sub (crlf @ crlf) (raw @ got) = None then after_head (raw @ got) rest else rest)"
        using read_waiting "1.prems"(1) unfolding Cons by metis
      show ?thesis
      proof (cases "find_sub (crlf @ crlf) (raw @ got)")
        case None
        obtain got' rest' where "read_head (w\<lparr>wi_in := rest @ tail\<rparr>) (raw @ got) = ((raw @ got) @ got', w\<lparr>wi_in := rest' @ tail\<rparr>)"
          "concat rest = got' @ concat rest'" "waiting rest' tail (w\<lparr>wi_in := rest' @ tail\<rparr>)" "rest' = after_head (raw @ got) rest"
          "find_sub (crlf @ crlf) ((raw @ got) @ got') = Some he"
          using "1.IH" [OF r(1) [symmetric] r(2) _ r(4)] None "1.prems"(3) r(3) by auto
        with r None show ?thesis
          by (intro exI [of _ "got @ got'"] exI [of _ rest']) (simp add: read_head.simps [of w raw])
      next
        case (Some i)
        with find_sub_longer [OF Some, of "concat rest"] "1.prems"(3) r(3) have "i = he" by simp
        with Some r show ?thesis
          by (intro exI [of _ got] exI [of _ rest]) (simp add: read_head.simps [of w raw])
      qed
    qed
  qed
  then show thesis using that by blast
qed

lemma turns_0: "turns segs = 0 \<Longrightarrow> [] \<notin> set segs \<Longrightarrow> segs = []"
  by (cases segs) (auto simp: div_eq_0_iff)

text \<open>The body is read up to its end, or up to what is not there yet.\<close>

lemma read_body_waiting:
  assumes "waiting segs tail w" and "length (raw @ concat segs) \<le> bs + n" and "bs \<le> length raw"
    and "reads + int (turns segs) \<le> (if length (raw @ concat segs) < bs + n then limit else limit + 1)"
  shows "read_body limit reads n bs w raw =
    (raw @ concat segs, w\<lparr>wi_in := (if length (raw @ concat segs) < bs + n then tl tail else tail)\<rparr>)"
  using assms
proof (induction limit reads n bs w raw arbitrary: segs rule: read_body.induct)
  case (1 limit reads n bs w raw)
  show ?case
  proof (cases segs)
    case Nil
    with "1.prems"(1) have "w\<lparr>wi_in := tail\<rparr> = w" by (cases w) (simp add: waiting_def)
    then show ?thesis
      using "1.prems" read_blocked [of tail w 4096]
      by (auto simp: Nil read_body.simps [of limit reads n bs w raw])
  next
    case (Cons s ss)
    obtain got rest where r: "wire_read 4096 w = (got, w\<lparr>wi_in := rest @ tail\<rparr>)" "got \<noteq> []"
      "concat segs = got @ concat rest" "waiting rest tail (w\<lparr>wi_in := rest @ tail\<rparr>)"
      "turns segs = Suc (turns rest)"
      using read_waiting "1.prems"(1) unfolding Cons by metis
    have less: "length raw - bs < n" using "1.prems"(2,3) r(2,3) by (cases got) auto
    show ?thesis
    proof (cases "reads + 1 > limit")
      case True
      with "1.prems"(4) r(5) have whole: "turns rest = 0" "length (raw @ concat segs) \<ge> bs + n"
        by (auto split: if_splits)
      moreover have "rest = []"
        using turns_0 [OF whole(1)] r(4) by (simp add: waiting_def)
      ultimately show ?thesis
        using True less r by (simp add: read_body.simps [of limit reads n bs w raw])
    next
      case False
      have "read_body limit (reads + 1) n bs (w\<lparr>wi_in := rest @ tail\<rparr>) (raw @ got)
          = ((raw @ got) @ concat rest, w\<lparr>wi_in := (if length (raw @ concat segs) < bs + n then tl tail else tail)\<rparr>)"
        using "1.IH" [OF less r(1) [symmetric] r(2) False r(4)] "1.prems" r(3,5) by (simp split: if_splits)
      with less r False show ?thesis by (simp add: read_body.simps [of limit reads n bs w raw])
    qed
  qed
qed

text \<open>The reads for the body come to an end when there are too many of them.\<close>

lemma read_body_cut:
  assumes "waiting segs tail w" and "length (raw @ concat segs) = bs + n" and "bs \<le> length raw"
    and "reads \<le> limit" and "limit - reads + 1 < int (turns segs)"
  shows "\<exists>got rest. read_body limit reads n bs w raw = (raw @ got, w\<lparr>wi_in := rest @ tail\<rparr>)
    \<and> concat segs = got @ concat rest \<and> concat rest \<noteq> []"
  using assms
proof (induction limit reads n bs w raw arbitrary: segs rule: read_body.induct)
  case (1 limit reads n bs w raw)
  obtain s ss where segs: "segs = s # ss" using "1.prems"(4,5) by (cases segs) auto
  obtain got rest where r: "wire_read 4096 w = (got, w\<lparr>wi_in := rest @ tail\<rparr>)" "got \<noteq> []"
    "concat segs = got @ concat rest" "waiting rest tail (w\<lparr>wi_in := rest @ tail\<rparr>)"
    "turns segs = Suc (turns rest)"
    using read_waiting "1.prems"(1) unfolding segs by metis
  have less: "length raw - bs < n" using "1.prems"(2,3) r(2,3) by (cases got) auto
  show ?case
  proof (cases "reads + 1 > limit")
    case True
    then have "0 < turns rest" using "1.prems"(4,5) r(5) by simp
    then obtain t ts where "rest = t # ts" by (cases rest) auto
    then have "concat rest \<noteq> []" using r(4) by (auto simp: waiting_def)
    with True r less show ?thesis
      by (intro exI [of _ got] exI [of _ rest]) (simp add: read_body.simps [of limit reads n bs w raw])
  next
    case False
    have "\<exists>got' rest'. read_body limit (reads + 1) n bs (w\<lparr>wi_in := rest @ tail\<rparr>) (raw @ got)
        = ((raw @ got) @ got', (w\<lparr>wi_in := rest @ tail\<rparr>)\<lparr>wi_in := rest' @ tail\<rparr>)
      \<and> concat rest = got' @ concat rest' \<and> concat rest' \<noteq> []"
      using "1.prems" r(3,5) False by (intro "1.IH" [OF less r(1) [symmetric] r(2) False r(4)]) auto
    then obtain got' rest' where "read_body limit (reads + 1) n bs (w\<lparr>wi_in := rest @ tail\<rparr>) (raw @ got)
        = (raw @ got @ got', w\<lparr>wi_in := rest' @ tail\<rparr>)" "concat rest = got' @ concat rest'" "concat rest' \<noteq> []"
      by auto
    with False r less show ?thesis
      by (intro exI [of _ "got @ got'"] exI [of _ rest']) (simp add: read_body.simps [of limit reads n bs w raw])
  qed
qed

subsection \<open>The length the server expects\<close>

text \<open>
  A message that says how long its body is: in a header, before which the text
  \<^verbatim>\<open>Content-Length: \<close> does not occur; or a message without a body and without that text.
\<close>

definition head_text :: "message \<Rightarrow> string" where
  "head_text m = lines_text (request_line m # map header_line (ms_headers m)) @ crlf"

definition announced :: "message \<Rightarrow> bool" where
  "announced m \<longleftrightarrow>
     (\<exists>hs hs'. ms_headers m = hs @ (''Content-Length'', show_nat (length (ms_body m))) # hs'
        \<and> \<not> contains (lines_text (request_line m # map header_line hs)) cl_text)
     \<or> ms_body m = [] \<and> \<not> contains (head_text m) cl_text"

lemma message_text_head: "message_text m = head_text m @ ms_body m"
  by (simp add: message_text_def head_text_def)

lemma lines_text_append: "lines_text (ls @ ls') = lines_text ls @ lines_text ls'"
  by (simp add: lines_text_def)

lemma contains_prefix: "\<not> contains (xs @ ys) pat \<Longrightarrow> \<not> contains xs pat"
  using find_sub_longer by (fastforce simp: contains_def)

lemma find_after_lines:
  assumes "\<not> contains (lines_text (l # ls)) cl_text"
  shows "find_sub cl_text (lines_text (l # ls) @ cl_text @ t) = Some (length (lines_text (l # ls)))"
proof -
  have "\<exists>xs. lines_text (l # ls) = xs @ [CHR 0x0A]"
  proof (induction ls arbitrary: l)
    case (Cons l' ls)
    then obtain xs where "lines_text (l' # ls) = xs @ [CHR 0x0A]" by blast
    then show ?case by (intro exI [of _ "l @ crlf @ xs"]) simp
  qed simp
  then obtain xs where xs: "lines_text (l # ls) = xs @ [CHR 0x0A]" by blast
  have "find_sub cl_text (xs @ [CHR 0x0A]) = None"
    using assms unfolding xs contains_def by simp
  from find_sub_past [OF this, of "cl_text @ t"]
  have "find_sub cl_text (xs @ CHR 0x0A # cl_text @ t) = map_option ((+) (Suc (length xs))) (find_sub cl_text (cl_text @ t))"
    by (simp add: cl_text_def)
  also have "find_sub cl_text (cl_text @ t) = Some 0" by (rule find_sub_here) simp
  finally show ?thesis unfolding xs by simp
qed

lemma content_length_of_line:
  assumes "raw = pre @ cl_text @ show_nat n @ crlf @ t" and "find_sub cl_text raw = Some (length pre)"
    and "n < 2 ^ 64"
  shows "content_length_of raw = Inr n"
proof -
  have digits: "CHR 0x0D \<notin> set (show_nat n)" by (simp add: show_nat_no not_digits)
  have "find_sub crlf ((cl_text @ show_nat n) @ crlf @ t) = Some (length (cl_text @ show_nat n))"
    by (rule find_crlf_line) (use digits in \<open>simp add: line_text_ok_def cl_text_def\<close>)
  then have cl_end: "find_from raw crlf (length pre) = Some (length pre + 16 + length (show_nat n))"
    by (simp add: find_from_def assms(1)) (simp add: cl_text_def)
  have "drop (length pre + 16) raw = show_nat n @ crlf @ t" "length pre + 16 \<le> length raw"
    by (simp_all add: assms(1) cl_text_def)
  then have "substr_at raw (length pre + 16) (Some (length (show_nat n))) = Inr (show_nat n)"
    by (simp add: substr_at_def substr_def)
  then show ?thesis
    using assms(3) stoul_show_nat [of n "[]"] by (simp add: content_length_of_def assms(2) cl_end)
qed

lemma content_length_announced:
  assumes "announced m" and "length (ms_body m) < 2 ^ 64" and "prefix t (ms_body m)"
  shows "content_length_of (head_text m @ t) = Inr (length (ms_body m))"
  using assms(1) unfolding announced_def
proof (elim disjE exE conjE)
  fix hs hs'
  assume hs: "ms_headers m = hs @ (''Content-Length'', show_nat (length (ms_body m))) # hs'"
    and none: "\<not> contains (lines_text (request_line m # map header_line hs)) cl_text"
  let ?pre = "lines_text (request_line m # map header_line hs)"
  have "header_line (''Content-Length'', v) = cl_text @ v" for v
    by (simp add: header_line_def cl_text_def)
  then have raw: "head_text m @ t = ?pre @ cl_text @ show_nat (length (ms_body m)) @ crlf
      @ lines_text (map header_line hs') @ crlf @ t"
    by (simp add: head_text_def hs lines_text_append)
  show ?thesis
    using find_after_lines [OF none] by (intro content_length_of_line [OF raw _ assms(2)]) (simp add: raw)
next
  assume "ms_body m = []" "\<not> contains (head_text m) cl_text"
  with assms(3) show ?thesis by (simp add: content_length_of_def contains_def)
qed

subsection \<open>A message is received\<close>

lemma max_reads_small:
  assumes "n < 2 ^ 42"
  shows "max_reads n = int (n div 4096 + 10)"
proof -
  define k where "k = n div 4096 + 10"
  have k: "k < 2 ^ 31" using assms by (simp add: k_def div_less_iff_less_mult)
  then have "size_add (n div 4096) 10 = k" by (simp add: k_def)
  moreover have "sint (of_nat k :: 32 word) = int k"
    using k by (simp add: signed_of_nat signed_take_bit_int_eq_self)
  ultimately show ?thesis by (simp add: max_reads_def k_def)
qed

text \<open>
  What arrives is the head of the message and the first \<open>k\<close> bytes of its body, and then, for now,
  nothing. The server makes at most \<open>max_reads + 1\<close> reads for the body, so what is left of the
  segments when the blank line has arrived must not take more, with the one that finds nothing; the
  segments up to there are free.
\<close>

definition arrives_until :: "message \<Rightarrow> nat \<Rightarrow> string list \<Rightarrow> string list \<Rightarrow> wire \<Rightarrow> bool" where
  "arrives_until m k segs tail w \<longleftrightarrow> waiting segs tail w \<and> k \<le> length (ms_body m)
     \<and> concat segs = head_text m @ take k (ms_body m)
     \<and> turns (after_head [] segs) \<le> length (ms_body m) div 4096 + (if k < length (ms_body m) then 10 else 11)"

lemma receive_message:
  assumes ok: "message_ok m" and ann: "announced m" and arr: "arrives_until m k segs tail w"
    and size: "length (ms_body m) \<le> cfg_max_upload_size cfg" "length (ms_body m) < 2 ^ 42"
  shows "receive cfg w = (Inr (head_text m @ take k (ms_body m)),
    w\<lparr>wi_in := (if k < length (ms_body m) then tl tail else tail)\<rparr>)"
proof -
  define he where "he = length (lines_text (request_line m # map header_line (ms_headers m))) - 2"
  have find: "find_sub (crlf @ crlf) (head_text m @ t) = Some he" for t
    using find_blank_line [OF message_lines_ok [OF ok], of t] by (simp add: head_text_def he_def)
  have len: "length (head_text m) = he + 4" by (simp add: head_text_def he_def)
  have wait: "waiting segs tail w" and k: "k \<le> length (ms_body m)"
    and bytes: "concat segs = head_text m @ take k (ms_body m)" and few: "turns (after_head [] segs) \<le> length (ms_body m) div 4096 + (if k < length (ms_body m) then 10 else 11)"
    using arr by (auto simp: arrives_until_def)
  have start: "find_sub (crlf @ crlf) [] = None" "find_sub (crlf @ crlf) ([] @ concat segs) = Some he"
    using find unfolding bytes by simp_all
  obtain got rest where head: "read_head w [] = ([] @ got, w\<lparr>wi_in := rest @ tail\<rparr>)"
    and got: "concat segs = got @ concat rest" and wait': "waiting rest tail (w\<lparr>wi_in := rest @ tail\<rparr>)"
    and turns: "rest = after_head [] segs" and found: "find_sub (crlf @ crlf) ([] @ got) = Some he"
    by (rule read_head_waiting [OF wait start])
  have "length (head_text m) \<le> length got" using find_sub_bound [OF found] len by simp
  then obtain t where t: "got = head_text m @ t"
    using got bytes by (metis append_eq_append_conv_if append_eq_conv_conj)
  then have "take k (ms_body m) = t @ concat rest" using got bytes by simp
  then have pre: "prefix t (ms_body m)" by (metis append_assoc append_take_drop_id prefixI)
  have cl: "content_length_of got = Inr (length (ms_body m))"
    unfolding t using size(2) by (intro content_length_announced [OF ann _ pre]) simp
  have "read_body (max_reads (length (ms_body m))) 0 (length (ms_body m)) (he + 4) (w\<lparr>wi_in := rest @ tail\<rparr>) got
      = (got @ concat rest, (w\<lparr>wi_in := rest @ tail\<rparr>)\<lparr>wi_in :=
          (if length (got @ concat rest) < he + 4 + length (ms_body m) then tl tail else tail)\<rparr>)"
    using wait' turns few size(2) got [symmetric] bytes k len t
    by (intro read_body_waiting) (simp_all add: max_reads_small split: if_splits)
  moreover have "length (got @ concat rest) = he + 4 + k"
    unfolding got [symmetric] bytes using k len by simp
  ultimately show ?thesis
    using head found cl size(1) got bytes by (simp add: receive_def)
qed

text \<open>A connection without TLS, or whose handshake succeeds.\<close>

definition secured :: "host \<Rightarrow> conn \<Rightarrow> bool" where
  "secured hst c \<longleftrightarrow> cn_ssl c = None \<or> handshake c (hs_accept hst) (hs_ssl_error hst) (hs_poll hst)"

lemma secured_plain: "cn_ssl c = None \<Longrightarrow> secured hst c"
  by (simp add: secured_def)

lemma handleRequest_message:
  assumes "message_ok m" and "announced m" and "arrives_until m k segs tail wi"
    and "length (ms_body m) \<le> cfg_max_upload_size (sv_config sv)" and "length (ms_body m) < 2 ^ 42"
    and "secured hst (wi_conn wi)"
  shows "handleRequest hst sv (wi, w) = parse_and_answer hst sv (message_text (m\<lparr>ms_body := take k (ms_body m)\<rparr>))
    (wi\<lparr>wi_in := (if k < length (ms_body m) then tl tail else tail)\<rparr>, w)"
proof -
  have "head_text (m\<lparr>ms_body := b\<rparr>) = head_text m" for b
    by (simp add: head_text_def request_line_def message_target_def)
  then show ?thesis
    using receive_message [OF assms(1-5)] assms(6) by (auto simp: handleRequest_def message_text_head secured_def)
qed

lemma handleRequest_whole:
  assumes "message_ok m" and "announced m" and "arrives_until m (length (ms_body m)) segs tail wi"
    and "length (ms_body m) \<le> cfg_max_upload_size (sv_config sv)" and "length (ms_body m) < 2 ^ 42"
    and "secured hst (wi_conn wi)"
  shows "handleRequest hst sv (wi, w) = parse_and_answer hst sv (message_text m) (wi\<lparr>wi_in := tail\<rparr>, w)"
  using handleRequest_message [OF assms] by simp

lemma message_text_not_Nil [simp]: "message_text m \<noteq> []"
  by (simp add: message_text_def)

lemma send_response_all:
  assumes "open_wire wi" and "wi_accept wi = []"
  shows "send_response hst res wi =
    wi\<lparr>wi_out := wi_out wi @ res_build (hs_header_order hst (rs_headers (with_length res))) res\<rparr>"
  using assms by (cases wi) (simp add: send_response_def open_wire_def)

text \<open>The send loop of a wire is the one of \<open>Response::send\<close>.\<close>

definition wire_accepts :: "nat list \<Rightarrow> nat \<Rightarrow> nat \<Rightarrow> int" where
  "wire_accepts ns k n = (if k < length ns then (if ns ! k = 0 then -1 else int (min n (ns ! k))) else int n)"

lemma deliver_send_loop:
  assumes "length data < 2 ^ 64" and "offset < length data"
  shows "send_loop (wire_accepts ns) data k offset sent
    = Some (sent @ fst (deliver (drop k ns) (drop offset data)))"
  using assms
proof (induction "drop k ns" "drop offset data" arbitrary: k offset sent rule: deliver.induct)
  case 1
  then have k: "\<not> k < length ns" by simp
  have "nat ((int offset + int (length data - offset)) mod 2 ^ 64) = length data"
    using "1.prems" by (simp add: nat_mod_distrib)
  with k 1 show ?case
    by (subst send_loop.simps) (simp add: wire_accepts_def substr_def)
next
  case (2 n ns')
  then have k: "k < length ns" "ns ! k = n" "drop (Suc k) ns = ns'"
    by (metis drop_eq_Nil linorder_not_le list.distinct(1), metis Cons_nth_drop_Suc drop_eq_Nil linorder_not_le list.distinct(1) list.inject,
      metis Cons_nth_drop_Suc drop_eq_Nil linorder_not_le list.distinct(1) list.inject)
  show ?case
  proof (cases "n = 0")
    case True
    with k 2 show ?thesis by (subst send_loop.simps) (simp add: wire_accepts_def flip: 2(2))
  next
    case False
    let ?c = "min (length data - offset) n"
    have off: "nat ((int offset + int ?c) mod 2 ^ 64) = offset + ?c"
      using "2.prems" by (simp add: nat_mod_distrib nat_add_distrib)
    have accepts: "wire_accepts ns k (length data - offset) = int ?c"
      using k False by (simp add: wire_accepts_def)
    have minus: "(int ?c = -1) = False" by simp
    have step: "send_loop (wire_accepts ns) data k offset sent =
        (if offset + ?c = length data then Some (sent @ substr data offset ?c)
         else send_loop (wire_accepts ns) data (k + 1) (offset + ?c) (sent @ substr data offset ?c))"
      using minus by (subst send_loop.simps) (simp only: accepts off Let_def nat_int if_False)
    show ?thesis
    proof (cases "length (drop offset data) \<le> n")
      case True
      with step False "2.prems" show ?thesis
        by (simp add: substr_def flip: "2.hyps"(2))
    next
      case shorter: False
      have "send_loop (wire_accepts ns) data (k + 1) (offset + n) (sent @ take n (drop offset data))
          = Some ((sent @ take n (drop offset data)) @ fst (deliver (drop (k + 1) ns) (drop (offset + n) data)))"
        using shorter "2.prems" by (intro "2.hyps"(1) [OF False shorter]) (simp_all add: k add.commute)
      with step shorter False k show ?thesis
        by (simp add: substr_def add.commute split: prod.split flip: "2.hyps"(2))
    qed
  qed
qed

subsection \<open>Nothing is read twice or lost\<close>

lemma wire_read_stream: "wire_read n w = (got, w') \<Longrightarrow> concat (wi_in w) = got @ concat (wi_in w')"
  by (auto simp: wire_read_def split: if_splits list.splits)

definition takes :: "string \<Rightarrow> wire \<Rightarrow> string \<times> wire \<Rightarrow> bool" where
  "takes raw w r \<longleftrightarrow> (\<exists>p. fst r = raw @ p \<and> concat (wi_in w) = p @ concat (wi_in (snd r)))"

lemma takes_self: "takes raw w (raw, w)"
  by (simp add: takes_def)

lemma takes_read:
  assumes "wire_read n w = (got, w1)"
  shows "takes (raw @ got) w1 r \<Longrightarrow> takes raw w r" "takes raw w (raw @ got, w1)"
  using wire_read_stream [OF assms] by (auto simp: takes_def)

lemma takes_blocked: "wire_read n w = ([], w1) \<Longrightarrow> takes raw w (raw, w1)"
  using takes_read(2) [of n w "[]" w1 raw] by simp

lemma read_head_takes: "takes raw w (read_head w raw)"
proof (induction w raw rule: read_head.induct)
  case (1 w raw)
  obtain got w1 where r: "wire_read 4096 w = (got, w1)" by fastforce
  show ?case
    using "1.IH" [OF r [symmetric]] takes_read [OF r] takes_blocked [of 4096 w w1]
    by (auto simp: read_head.simps [of w raw] r)
qed

lemma read_body_takes: "takes raw w (read_body limit reads n bs w raw)"
proof (induction limit reads n bs w raw rule: read_body.induct)
  case (1 limit reads n bs w raw)
  obtain got w1 where r: "wire_read 4096 w = (got, w1)" by fastforce
  show ?case
    using "1.IH" [OF _ r [symmetric]] takes_read [OF r] takes_blocked [of 4096 w w1] takes_self [of raw w]
    by (auto simp: read_body.simps [of limit reads n bs w raw] r)
qed

lemma receive_prefix:
  assumes "receive cfg w = (Inr raw, w')"
  shows "prefix raw (concat (wi_in w))"
proof -
  obtain raw1 w1 where head: "read_head w [] = (raw1, w1)" by fastforce
  from read_head_takes [of "[]" w] have 1: "concat (wi_in w) = raw1 @ concat (wi_in w1)"
    by (auto simp: head takes_def)
  from assms consider "raw = raw1"
    | bs n where "read_body (max_reads n) 0 n bs w1 raw1 = (raw, w')"
    by (auto simp: receive_def head split: option.splits sum.splits prod.splits if_splits)
  then show ?thesis
  proof cases
    case 2
    with read_body_takes [of raw1 w1 "max_reads n" 0 n bs] 1 show ?thesis
      by (auto simp: takes_def prefix_def)
  qed (simp add: 1)
qed

subsection \<open>Properties\<close>

text \<open>A message that has arrived is answered by what the chain makes of its request.\<close>

lemma message_served:
  assumes "message_ok m" and "announced m" and "arrives_until m (length (ms_body m)) segs tail wi"
    and "length (ms_body m) \<le> cfg_max_upload_size (sv_config sv)" and "length (ms_body m) < 2 ^ 42"
    and "secured hst (wi_conn wi)"
    and "message_fits (sv_config sv) m" and "message_length_ok m"
    and "\<not> multipart m" and "\<not> isUpgrade (message_request m)"
    and "sv_router sv = Some routes"
    and "resolve (hs_route_order hst) routes (ms_method m) (normalizePath (ms_path m))
      ((parsed_request m)\<lparr>rq_client_ip := cn_ip (wi_conn wi)\<rparr>) = (handler, req1)"
    and "respond hst sv handler (req1, setCache True new_response, w) = Inr (req2, res, w')"
  shows "handleRequest hst sv (wi, w) = Some (Inr (after_response req2, send_response hst res (wi\<lparr>wi_in := tail\<rparr>), w'))"
proof -
  let ?req = "(parsed_request m)\<lparr>rq_client_ip := cn_ip (wi_conn wi)\<rparr>"
  have fields: "rq_method ?req = ms_method m" "rq_path ?req = normalizePath (ms_path m)"
    "\<not> rq_parse_error ?req" "rq_headers ?req = map_of (rev (ms_headers m))"
    by (simp_all add: parsed_request_def message_request_def message_head_def empty_request_def)
  have upgrade: "\<not> isUpgrade ?req" using assms(10) by (simp add: parsed_request_def isUpgrade_def getHeader_def)
  have "parse_request (hs_new hst) (sv_config sv) (wd_buffers w) (message_text m) = (Inr (parsed_request m), wd_buffers w)"
    by (rule parse_message_plain [OF assms(1,7-9)])
  then have "parse_and_answer hst sv (message_text m) (wi\<lparr>wi_in := tail\<rparr>, w) = answer hst sv ?req (wi\<lparr>wi_in := tail\<rparr>, w)"
    using fields(3) by (simp add: parse_and_answer_def Let_def)
  also have "\<dots> = Some (Inr (after_response req2, send_response hst res (wi\<lparr>wi_in := tail\<rparr>), w'))"
    using assms(11-13) upgrade fields by (simp add: answer_def)
  finally show ?thesis by (simp add: handleRequest_whole [OF assms(1-6)])
qed

text \<open>A request is served end to end: a well-formed message that arrives in segments of any
  size, but without a pause, on a connection without TLS or whose handshake succeeds, goes through the read loops, the parser and the router; the
  middlewares and the handler get exactly the request that was sent, with the address of the
  client and the parameters of the route; what they make of the response is written out, and the
  bytes that follow the message stay in flight for the next request.\<close>

theorem request_served:
  assumes "message_ok m" and "announced m" and "arrives_until m (length (ms_body m)) segs tail wi"
    and "length (ms_body m) \<le> cfg_max_upload_size (sv_config sv)" and "length (ms_body m) < 2 ^ 42"
    and "secured hst (wi_conn wi)" and "wi_accept wi = []"
    and "message_fits (sv_config sv) m" and "message_length_ok m"
    and "\<not> multipart m" and "\<not> isUpgrade (message_request m)"
    and "sv_router sv = Some routes"
    and "resolve (hs_route_order hst) routes (ms_method m) (normalizePath (ms_path m))
      ((parsed_request m)\<lparr>rq_client_ip := cn_ip (wi_conn wi)\<rparr>) = (handler, req1)"
    and "respond hst sv handler (req1, setCache True new_response, w) = Inr (req2, res, w')"
  shows "handleRequest hst sv (wi, w) = Some (Inr (after_response req2,
    wi\<lparr>wi_in := tail,
       wi_out := wi_out wi @ res_build (hs_header_order hst (rs_headers (with_length res))) res\<rparr>, w'))"
  using message_served [OF assms(1-6,8-14)] assms(3,7)
  by (simp add: send_response_all arrives_until_def waiting_def)

text \<open>C36. A request whose body pauses is refused: when the head of a well-formed message and a
  part of its body have arrived and the rest is still on its way, the server answers 400 and
  gives up the connection, whatever the handlers are, because the next read would block.\<close>

theorem paused_body_refused:
  assumes "message_ok m" and "announced m" and "arrives_until m k segs tail wi"
    and "length (ms_body m) \<le> cfg_max_upload_size (sv_config sv)" and "length (ms_body m) < 2 ^ 42"
    and "secured hst (wi_conn wi)" and "k < length (ms_body m)"
    and "message_fits (sv_config sv) m"
    and "map_of (rev (ms_headers m)) ''Content-Length'' = Some (show_nat (length (ms_body m)))"
  shows "handleRequest hst sv (wi, w) =
    Some (Inr (Erased, send_response hst (res_error 400 []) (wi\<lparr>wi_in := tl tail\<rparr>), w))"
proof -
  let ?m = "m\<lparr>ms_body := take k (ms_body m)\<rparr>"
  have ok: "message_ok ?m" using assms(1) by (simp add: message_ok_def)
  have fits: "message_fits (sv_config sv) ?m"
    using assms(8) by (auto simp: message_fits_def request_line_def message_target_def)
  have "\<not> content_length_ok (message_request ?m)"
    using assms(5,7,9) from_chars_show_nat [of "length (ms_body m)" "[]"]
    by (simp add: content_length_ok_def getHeader_def message_request_def)
  then have "parse_request (hs_new hst) (sv_config sv) (wd_buffers w) (message_text ?m) =
      (Inr (request_error (message_request ?m) 400), wd_buffers w)"
    by (simp add: parse_message_text [OF ok fits])
  then show ?thesis
    using assms(7) by (simp add: handleRequest_message [OF assms(1-6)] parse_and_answer_def request_error_def)
qed

text \<open>A request whose body comes in many small segments is refused although all of it is there: after
  \<open>n div 4096 + 11\<close> reads for a body of \<open>n\<close> bytes the server gives up, takes what it has for the
  request, and answers 400.\<close>

theorem small_segments_refused:
  assumes "message_ok m" and "announced m" and "waiting segs tail wi" and "concat segs = message_text m"
    and "length (ms_body m) div 4096 + 11 < turns (after_head [] segs)"
    and "length (ms_body m) \<le> cfg_max_upload_size (sv_config sv)" and "length (ms_body m) < 2 ^ 42"
    and "secured hst (wi_conn wi)" and "message_fits (sv_config sv) m"
    and "map_of (rev (ms_headers m)) ''Content-Length'' = Some (show_nat (length (ms_body m)))"
  shows "\<exists>left. left \<noteq> [] \<and> handleRequest hst sv (wi, w) =
    Some (Inr (Erased, send_response hst (res_error 400 []) (wi\<lparr>wi_in := left\<rparr>), w))"
proof -
  define he where "he = length (lines_text (request_line m # map header_line (ms_headers m))) - 2"
  have find: "find_sub (crlf @ crlf) (head_text m @ t) = Some he" for t
    using find_blank_line [OF message_lines_ok [OF assms(1)], of t] by (simp add: head_text_def he_def)
  have len: "length (head_text m) = he + 4" by (simp add: head_text_def he_def)
  have bytes: "concat segs = head_text m @ ms_body m" using assms(4) by (simp add: message_text_head)
  have start: "find_sub (crlf @ crlf) [] = None" "find_sub (crlf @ crlf) ([] @ concat segs) = Some he"
    using find unfolding bytes by simp_all
  obtain got rest where head: "read_head wi [] = ([] @ got, wi\<lparr>wi_in := rest @ tail\<rparr>)"
    and got: "concat segs = got @ concat rest" and wait: "waiting rest tail (wi\<lparr>wi_in := rest @ tail\<rparr>)"
    and rest: "rest = after_head [] segs" and found: "find_sub (crlf @ crlf) ([] @ got) = Some he"
    by (rule read_head_waiting [OF assms(3) start])
  have "length (head_text m) \<le> length got" using find_sub_bound [OF found] len by simp
  then obtain t where t: "got = head_text m @ t"
    using got bytes by (metis append_eq_append_conv_if append_eq_conv_conj)
  then have body: "ms_body m = t @ concat rest" using got bytes by simp
  have cl: "content_length_of got = Inr (length (ms_body m))"
    unfolding t using assms(7) body by (intro content_length_announced [OF assms(2)]) simp_all
  have "\<exists>more left. read_body (max_reads (length (ms_body m))) 0 (length (ms_body m)) (he + 4) (wi\<lparr>wi_in := rest @ tail\<rparr>) got
      = (got @ more, (wi\<lparr>wi_in := rest @ tail\<rparr>)\<lparr>wi_in := left @ tail\<rparr>) \<and> concat rest = more @ concat left \<and> concat left \<noteq> []"
    using assms(5,7) rest len t body
    by (intro read_body_cut [OF wait]) (simp_all add: max_reads_small)
  then obtain more left where cut: "read_body (max_reads (length (ms_body m))) 0 (length (ms_body m)) (he + 4)
      (wi\<lparr>wi_in := rest @ tail\<rparr>) got = (got @ more, wi\<lparr>wi_in := left @ tail\<rparr>)"
    "concat rest = more @ concat left" "concat left \<noteq> []"
    by auto
  let ?k = "length (t @ more)" and ?m = "m\<lparr>ms_body := t @ more\<rparr>"
  have short: "?k < length (ms_body m)" using cut(2,3) body by simp
  have whole: "got @ more = message_text ?m"
    by (simp add: t message_text_head head_text_def request_line_def message_target_def)
  have "receive (sv_config sv) wi = (Inr (message_text ?m), wi\<lparr>wi_in := left @ tail\<rparr>)"
    using head found cl assms(6) cut(1) by (simp add: receive_def whole)
  then have "handleRequest hst sv (wi, w) = parse_and_answer hst sv (message_text ?m) (wi\<lparr>wi_in := left @ tail\<rparr>, w)"
    using assms(8) by (auto simp: handleRequest_def secured_def)
  moreover have ok: "message_ok ?m" using assms(1) by (simp add: message_ok_def)
  have fits: "message_fits (sv_config sv) ?m"
    using assms(9) short by (auto simp: message_fits_def request_line_def message_target_def)
  have "\<not> content_length_ok (message_request ?m)"
    using assms(7,10) short from_chars_show_nat [of "length (ms_body m)" "[]"]
    by (simp add: content_length_ok_def getHeader_def message_request_def)
  then have "parse_request (hs_new hst) (sv_config sv) (wd_buffers w) (message_text ?m) =
      (Inr (request_error (message_request ?m) 400), wd_buffers w)"
    by (simp add: parse_message_text [OF ok fits])
  ultimately have "handleRequest hst sv (wi, w) =
      Some (Inr (Erased, send_response hst (res_error 400 []) (wi\<lparr>wi_in := left @ tail\<rparr>), w))"
    by (simp add: parse_and_answer_def request_error_def)
  moreover have "left @ tail \<noteq> []" using cut(3) by auto
  ultimately show ?thesis by blast
qed

text \<open>C35. One request can end the server: a multipart message with a part whose header ends in
  \<^verbatim>\<open>Content-Type:\<close> leaves \<open>handleRequest\<close>, and so the worker thread that runs
  it, with an exception, on every server with room for the message, whatever its middlewares,
  routes and error handlers are.\<close>

theorem empty_content_type_kills_worker:
  assumes "message_ok m" and "announced m" and "arrives_until m (length (ms_body m)) segs tail wi"
    and "length (ms_body m) \<le> cfg_max_upload_size (sv_config sv)" and "length (ms_body m) < 2 ^ 42"
    and "secured hst (wi_conn wi)" and "message_fits (sv_config sv) m" and "message_length_ok m"
    and "map_of (rev (ms_headers m)) ''Content-Type'' = Some (multipart_header b)"
    and "ms_body m = encode_multipart b [untyped_chunk n data]" and "upload_ok b []" and "quotable n"
    and "chunk_ok (''--'' @ b) (untyped_chunk n data)"
  shows "handleRequest hst sv (wi, w) = Some (Inl Out_of_range)"
proof -
  have "fst (parse_body (hs_new hst) (wd_buffers w) (message_request m)) = Inl Out_of_range"
    by (rule parse_body_untyped [OF assms(11-13)]) (use assms in \<open>simp_all add: message_request_def\<close>)
  then obtain h where "parse_request (hs_new hst) (sv_config sv) (wd_buffers w) (message_text m) = (Inl Out_of_range, h)"
    by (metis parse_message [OF assms(1,7,8)] prod.collapse)
  then show ?thesis by (simp add: handleRequest_whole [OF assms(1-6)] parse_and_answer_def)
qed

text \<open>How a request that was parsed can end the function: the WebSocket handler of its path throws,
  or the chain throws what is not a \<open>std::exception\<close> (or is undefined), or it throws a
  \<open>std::exception\<close> and the program's own page for the error 500 throws in turn.\<close>

definition chain_escapes :: "host \<Rightarrow> 'u server \<Rightarrow> 'u world handler option \<Rightarrow> 'u world ctx \<Rightarrow> exn \<Rightarrow> bool" where
  "chain_escapes hst sv handler c e \<longleftrightarrow>
     (case run_chain (sv_middlewares sv) (last_effect hst sv handler) c of
        (None, c') \<Rightarrow> False
      | (Some e', (req, res, w)) \<Rightarrow>
          (if caught e' then \<exists>page. sv_error_handlers sv 500 = Some page \<and> fst (page req (hs_disk hst) w) = Inl e
           else e = e'))"

lemma respond_escapes: "respond hst sv handler c = Inl e \<longleftrightarrow> chain_escapes hst sv handler c e"
  by (auto simp: respond_def chain_escapes_def error_page_def split: option.split prod.split sum.split)

text \<open>C3. An exception leaves \<open>handleRequest\<close>, and ends the worker, exactly when a message
  that was received whole or in part meets one of these: the parser throws, which is always
  \<open>std::out_of_range\<close> on bytes that contain \<^verbatim>\<open>multipart/form-data\<close>; the request is an
  upgrade and the WebSocket handler of its path throws (nothing catches that); a middleware, the
  handler or the program's 404 page throws a value that is not a \<open>std::exception\<close>, or is
  undefined; or one of them throws a \<open>std::exception\<close> and the program's own 500 page, which
  runs in the \<open>catch\<close> block, throws. Everything else that middlewares and handlers throw is
  caught and answered.\<close>

theorem handleRequest_exceptions:
  "handleRequest hst sv (wi, w) = Some (Inl e) \<longleftrightarrow>
    (cn_ssl (wi_conn wi) = None \<or> handshake (wi_conn wi) (hs_accept hst) (hs_ssl_error hst) (hs_poll hst)) \<and>
    (\<exists>raw wi1. receive (sv_config sv) wi = (Inr raw, wi1) \<and> prefix raw (concat (wi_in wi)) \<and> raw \<noteq> [] \<and>
      (case parse_request (hs_new hst) (sv_config sv) (wd_buffers w) raw of
         (Inl e', h) \<Rightarrow> e = e' \<and> e = Out_of_range \<and> contains raw ''multipart/form-data''
       | (Inr req, h) \<Rightarrow> \<not> rq_parse_error req \<and>
           (if isUpgrade req
            then \<exists>handler. sv_ws_routes sv (rq_path req) = Some handler \<and>
              handler (wire_write (ws_handshake (hs_SHA1 hst) (req\<lparr>rq_client_ip := cn_ip (wi_conn wi1)\<rparr>)) wi1,
                w\<lparr>wd_buffers := h\<rparr>) = Some (Inl e)
            else \<exists>routes handler req1. sv_router sv = Some routes \<and>
              resolve (hs_route_order hst) routes (rq_method req) (rq_path req)
                (req\<lparr>rq_client_ip := cn_ip (wi_conn wi1)\<rparr>) = (handler, req1) \<and>
              chain_escapes hst sv handler (req1, setCache True new_response, w\<lparr>wd_buffers := h\<rparr>) e)))"
proof -
  have upgrade: "isUpgrade (req\<lparr>rq_client_ip := ip\<rparr>) = isUpgrade req" for req ip
    by (simp add: isUpgrade_def getHeader_def)
  have served: "answer hst sv (req\<lparr>rq_client_ip := ip\<rparr>) (wi1, w1) = Some (Inl e) \<longleftrightarrow>
     (if isUpgrade req
      then \<exists>handler. sv_ws_routes sv (rq_path req) = Some handler \<and>
        handler (wire_write (ws_handshake (hs_SHA1 hst) (req\<lparr>rq_client_ip := ip\<rparr>)) wi1, w1) = Some (Inl e)
      else \<exists>routes handler req1. sv_router sv = Some routes \<and>
        resolve (hs_route_order hst) routes (rq_method req) (rq_path req) (req\<lparr>rq_client_ip := ip\<rparr>) = (handler, req1) \<and>
        chain_escapes hst sv handler (req1, setCache True new_response, w1) e)" for req ip wi1 w1
    by (auto simp: answer_def upgrade handleWebSocket_def bind_result_eq_Inl respond_escapes
      split: option.split prod.split)
  have parsed: "parse_and_answer hst sv raw (wi1, w) = Some (Inl e) \<longleftrightarrow> raw \<noteq> [] \<and>
     (case parse_request (hs_new hst) (sv_config sv) (wd_buffers w) raw of
        (Inl e', h) \<Rightarrow> e = e' \<and> e = Out_of_range \<and> contains raw ''multipart/form-data''
      | (Inr req, h) \<Rightarrow> \<not> rq_parse_error req \<and>
          answer hst sv (req\<lparr>rq_client_ip := cn_ip (wi_conn wi1)\<rparr>) (wi1, w\<lparr>wd_buffers := h\<rparr>) = Some (Inl e))" for raw wi1
    using parse_request_Inl [of "hs_new hst" "sv_config sv" "wd_buffers w" raw]
    by (auto simp: parse_and_answer_def Let_def split: prod.split sum.split)
  have "handleRequest hst sv (wi, w) = Some (Inl e) \<longleftrightarrow>
    (cn_ssl (wi_conn wi) = None \<or> handshake (wi_conn wi) (hs_accept hst) (hs_ssl_error hst) (hs_poll hst)) \<and>
    (\<exists>raw wi1. receive (sv_config sv) wi = (Inr raw, wi1) \<and> prefix raw (concat (wi_in wi)) \<and>
      parse_and_answer hst sv raw (wi1, w) = Some (Inl e))"
    using receive_prefix [of "sv_config sv" wi]
    by (auto simp: handleRequest_def split: prod.split sum.split)
  then show ?thesis unfolding parsed served .
qed

subsection \<open>Witnesses\<close>

definition plain_host :: host where
  "plain_host =
     \<lparr>hs_new = (\<lambda>h. 0), hs_SHA1 = (\<lambda>b. []), hs_files = \<lparr>fy_realpath = Map.empty, fy_open = Map.empty\<rparr>,
      hs_disk = Map.empty,
      hs_header_order = (\<lambda>m. filter (\<lambda>k. m k \<noteq> None) [''Content-Type'', ''Content-Length'', ''Connection'']),
      hs_route_order = [], hs_accept = (\<lambda>i. 0), hs_ssl_error = (\<lambda>i. Other_error), hs_poll = (\<lambda>i. 0)\<rparr>"

definition echo :: "'u world handler" where
  "echo c = (case c of (req, res, w) \<Rightarrow> (None, req, res_html (rq_body req) res, w))"

definition plain_server :: "unit server" where
  "plain_server =
     \<lparr>sv_config = default_config, sv_router = Some (Route_handle (route_get ''/b c'') echo Map.empty),
      sv_middlewares = [], sv_ws_routes = Map.empty, sv_static_files = [], sv_error_handlers = Map.empty\<rparr>"

definition plain_world :: "unit world" where
  "plain_world =
     \<lparr>wd_sessions = no_sessions, wd_buckets = (\<lambda>k. Map.empty), wd_guard = new_path_guard, wd_cache = new_cache 8,
      wd_log = [], wd_buffers = Map.empty, wd_app = (), wd_clock = (\<lambda>k. 0), wd_session_env = sample_env,
      wd_random = (\<lambda>n. replicate n 5), wd_time = ''now''\<rparr>"

text \<open>The sample message, in two segments of which the first ends inside the head.\<close>

definition halves :: "nat \<Rightarrow> string \<Rightarrow> string list" where
  "halves n t = [take n t, drop n t]"

lemma sample_get_announced: "announced sample_get"
proof -
  have "\<not> contains (lines_text (request_line sample_get # map header_line [(''Host'', ''x'')])) cl_text"
    by code_simp
  moreover have "ms_headers sample_get = [(''Host'', ''x'')] @ (''Content-Length'', show_nat (length (ms_body sample_get))) # []"
    by code_simp
  ultimately show ?thesis unfolding announced_def by blast
qed

lemma secured_sample [simp]: "secured hst (wi_conn (sample_wire segs))"
  by (simp add: secured_def sample_wire_def new_conn_def)

lemma waiting_sample: "[] \<notin> set segs \<Longrightarrow> waiting segs [] (sample_wire segs)"
  by (simp add: waiting_def sample_wire_def open_wire_def new_conn_def)

lemma turns_short: "\<forall>s \<in> set segs. length s \<le> 4096 \<Longrightarrow> turns segs \<le> length segs"
  by (induction segs) (auto simp: div_le_mono less_Suc_eq_le intro!: add_mono)

lemma sample_get_arrives:
  "arrives_until sample_get (length (ms_body sample_get)) (halves 40 (message_text sample_get)) []
     (sample_wire (halves 40 (message_text sample_get)))"
proof -
  have "length (message_text sample_get) = 76" by code_simp
  then have "turns (halves 40 (message_text sample_get)) \<le> 2"
    using turns_short [of "halves 40 (message_text sample_get)"] by (simp add: halves_def)
  moreover have "[] \<notin> set (halves 40 (message_text sample_get))"
    using \<open>length (message_text sample_get) = 76\<close> by (auto simp: halves_def simp flip: length_greater_0_conv)
  ultimately show ?thesis
    by (simp add: arrives_until_def waiting_sample halves_def message_text_head [symmetric])
qed

theorem request_served_witness:
  "\<exists>wi. handleRequest plain_host plain_server (sample_wire (halves 40 (message_text sample_get)), plain_world)
      = Some (Inr (Rearmed, wi, plain_world))
     \<and> wi_out wi = res_build [''Content-Type'', ''Content-Length''] (res_html ''ok'' (setCache True new_response))"
proof -
  let ?wi = "sample_wire (halves 40 (message_text sample_get))"
  let ?req = "(parsed_request sample_get)\<lparr>rq_client_ip := cn_ip (wi_conn ?wi)\<rparr>"
  let ?res = "res_html ''ok'' (setCache True new_response)"
  have wire: "secured plain_host (wi_conn ?wi)" "wi_accept ?wi = []" "wi_out ?wi = []"
    by (simp, simp_all add: sample_wire_def)
  have size: "length (ms_body sample_get) \<le> cfg_max_upload_size (sv_config plain_server)"
    "length (ms_body sample_get) < 2 ^ 42" "message_fits (sv_config plain_server) sample_get"
    using sample_get_fits by (simp_all add: plain_server_def default_config_def sample_get_def)
  have plain: "\<not> multipart sample_get" by code_simp
  have upgrade: "\<not> isUpgrade (message_request sample_get)" by code_simp
  have path: "normalizePath (ms_path sample_get) = ''/b c''" "ms_method sample_get = ''GET''" by code_simp+
  have routes: "sv_router plain_server = Some (Route_handle (route_get ''/b c'') echo Map.empty)"
    by (simp add: plain_server_def)
  have resolve: "resolve (hs_route_order plain_host) (Route_handle (route_get ''/b c'') echo Map.empty)
      (ms_method sample_get) (normalizePath (ms_path sample_get)) ?req = (Some echo, ?req)"
    unfolding path by (simp add: resolve_def Route_handle_def addRoute_def route_get_def)
  have body: "rq_body ?req = ''ok''" by code_simp
  have respond: "respond plain_host plain_server (Some echo) (?req, setCache True new_response, plain_world)
      = Inr (?req, ?res, plain_world)"
    using body by (simp add: respond_def last_effect_def plain_server_def echo_def)
  have close: "after_response ?req = Rearmed" by code_simp
  have order: "hs_header_order plain_host (rs_headers (with_length ?res)) = [''Content-Type'', ''Content-Length'']"
    by code_simp
  show ?thesis
    using request_served [OF sample_get_ok(1) sample_get_announced sample_get_arrives size(1,2) wire(1,2)
      size(3) sample_get_ok(2) plain upgrade routes resolve respond]
    unfolding close order by (simp add: wire(3))
qed

text \<open>The same message, of which the last byte is late.\<close>

theorem paused_body_refused_witness:
  "\<exists>wi. handleRequest plain_host plain_server (sample_wire [butlast (message_text sample_get), [], ''k''], plain_world)
      = Some (Inr (Erased, wi, plain_world)) \<and> wi_in wi = [''k'']
     \<and> prefix ''HTTP/1.1 400 Bad Request'' (wi_out wi)"
proof -
  let ?seg = "butlast (message_text sample_get)"
  let ?wi = "sample_wire [?seg, [], ''k'']"
  have seg: "?seg = head_text sample_get @ take 1 (ms_body sample_get)" "length ?seg = 75" by code_simp+
  then have "?seg \<noteq> []" by auto
  then have arrive: "arrives_until sample_get 1 [?seg] [[], ''k''] ?wi"
    using seg by (simp add: arrives_until_def waiting_def sample_wire_def open_wire_def new_conn_def)
      (simp add: sample_get_def)
  have size: "length (ms_body sample_get) \<le> cfg_max_upload_size (sv_config plain_server)"
    "length (ms_body sample_get) < 2 ^ 42" "message_fits (sv_config plain_server) sample_get"
    "1 < length (ms_body sample_get)" "secured plain_host (wi_conn ?wi)"
    using sample_get_fits by (simp_all add: plain_server_def default_config_def sample_get_def)
  have cl: "map_of (rev (ms_headers sample_get)) ''Content-Length'' = Some (show_nat (length (ms_body sample_get)))"
    by code_simp
  have res: "prefix ''HTTP/1.1 400 Bad Request'' (res_build ks (res_error 400 []))" for ks
  proof -
    have "status_line (rs_status (res_error 400 [])) = ''HTTP/1.1 400 Bad Request''" by code_simp
    then show ?thesis by (simp add: res_build_def Let_def)
  qed
  have send: "wi_out (send_response plain_host (res_error 400 []) (?wi\<lparr>wi_in := [''k'']\<rparr>)) =
      res_build (hs_header_order plain_host (rs_headers (with_length (res_error 400 [])))) (res_error 400 [])"
    "wi_in (send_response plain_host (res_error 400 []) (?wi\<lparr>wi_in := [''k'']\<rparr>)) = [''k'']"
    by (simp_all add: send_response_def sample_wire_def new_conn_def)
  show ?thesis
    using paused_body_refused [OF sample_get_ok(1) sample_get_announced arrive size(1,2,5,4,3) cl, of plain_world]
      send res by simp
qed

text \<open>A message whose only part has the header that ends too early.\<close>

definition fatal_message :: message where
  "fatal_message = (sample_post [untyped_chunk ''a'' ''1''])\<lparr>ms_headers :=
     [(''Content-Length'', show_nat (length (encode_multipart ''B'' [untyped_chunk ''a'' ''1'']))),
      (''Content-Type'', multipart_header ''B'')]\<rparr>"

lemma fatal_message_ok:
  "message_ok fatal_message" "message_length_ok fatal_message"
  "map_of (rev (ms_headers fatal_message)) ''Content-Type'' = Some (multipart_header ''B'')"
  "ms_body fatal_message = encode_multipart ''B'' [untyped_chunk ''a'' ''1'']"
  by code_simp+

lemma fatal_message_announced: "announced fatal_message"
proof -
  have "\<not> contains (lines_text (request_line fatal_message # map header_line [])) cl_text"
    by code_simp
  moreover have "ms_headers fatal_message = [] @ (''Content-Length'', show_nat (length (ms_body fatal_message)))
      # [(''Content-Type'', multipart_header ''B'')]"
    by (simp add: fatal_message_def sample_post_def)
  ultimately show ?thesis unfolding announced_def by blast
qed

lemma fatal_message_fits: "message_fits default_config fatal_message"
proof -
  have "length (lines_text (request_line fatal_message # map header_line (ms_headers fatal_message))) = 86"
    "length (ms_body fatal_message) = 74" "length (ms_headers fatal_message) = 2"
    by code_simp+
  then show ?thesis by (simp add: message_fits_def default_config_def)
qed

lemma fatal_message_arrives:
  "arrives_until fatal_message (length (ms_body fatal_message)) [message_text fatal_message] []
     (sample_wire [message_text fatal_message])"
proof -
  have "length (message_text fatal_message) = 162" by code_simp
  then have "turns [message_text fatal_message] \<le> 1"
    using turns_short [of "[message_text fatal_message]"] by simp
  moreover have "waiting [message_text fatal_message] [] (sample_wire [message_text fatal_message])"
    by (rule waiting_sample) (auto dest: sym)
  ultimately show ?thesis by (simp add: arrives_until_def message_text_head [symmetric])
qed

lemma fatal_message_size:
  "length (ms_body fatal_message) \<le> cfg_max_upload_size (sv_config plain_server)"
  "length (ms_body fatal_message) < 2 ^ 42" "message_fits (sv_config plain_server) fatal_message"
proof -
  have "length (ms_body fatal_message) = 74" by code_simp
  then show "length (ms_body fatal_message) \<le> cfg_max_upload_size (sv_config plain_server)"
    "length (ms_body fatal_message) < 2 ^ 42"
    by (simp_all add: plain_server_def default_config_def)
qed (use fatal_message_fits in \<open>simp add: plain_server_def\<close>)

lemmas fatal_message_facts = fatal_message_ok(1) fatal_message_announced fatal_message_arrives
  fatal_message_size(1,2) secured_sample [of _ "[message_text fatal_message]"]

theorem empty_content_type_kills_worker_witness:
  "handleRequest plain_host plain_server (sample_wire [message_text fatal_message], plain_world) = Some (Inl Out_of_range)"
  by (rule empty_content_type_kills_worker [OF fatal_message_facts fatal_message_size(3)
    fatal_message_ok(2-4) sample_fields_ok(2) sample_untyped_ok(1)]) (simp add: sample_untyped_ok(2))

theorem handleRequest_exceptions_witness:
  "handleRequest plain_host plain_server (sample_wire [message_text fatal_message], plain_world) = Some (Inl Out_of_range)
   \<and> contains (concat (wi_in (sample_wire [message_text fatal_message]))) ''multipart/form-data''"
proof -
  let ?wi = "sample_wire [message_text fatal_message]"
  have "fst (parse_body (hs_new plain_host) (wd_buffers plain_world) (message_request fatal_message)) = Inl Out_of_range"
    by (rule parse_body_untyped [OF sample_fields_ok(2) sample_untyped_ok(1)])
      (simp_all add: sample_untyped_ok(2) message_request_def fatal_message_ok)
  then obtain h where "parse_request (hs_new plain_host) (sv_config plain_server) (wd_buffers plain_world)
      (message_text fatal_message) = (Inl Out_of_range, h)"
    by (metis parse_message [OF fatal_message_ok(1) fatal_message_size(3) fatal_message_ok(2)] prod.collapse)
  then have crash: "handleRequest plain_host plain_server (?wi, plain_world) = Some (Inl Out_of_range)"
    by (simp add: handleRequest_whole [OF fatal_message_facts] parse_and_answer_def)
  have "\<not> chain_escapes plain_host plain_server (Some echo) c Out_of_range" "\<not> chain_escapes plain_host plain_server None c Out_of_range" for c
    by (auto simp: chain_escapes_def last_effect_def plain_server_def echo_def error_page_def split: prod.splits)
  then obtain raw where "prefix raw (concat (wi_in ?wi))" "contains raw ''multipart/form-data''"
    using crash [unfolded handleRequest_exceptions]
    by (fastforce simp: plain_server_def resolve_def plain_host_def Route_handle_def addRoute_def split: prod.splits sum.splits if_splits option.splits)
  with crash show ?thesis using sublist_find prefix_imp_sublist by blast
qed

end
