(* ===== verification/Pipelines.thy ===== *)
theory Pipelines
  imports Serving File_Saver
begin

section \<open>Middlewares together\<close>

text \<open>
  What the parts of the server do to each other: the sanitizer on paths the parser has
  normalised, the CSRF check and the saving of uploads on the parts the parser leaves behind, the
  session and the CSRF middleware in one chain, and the error pages behind the middlewares that
  set headers.
\<close>

subsection \<open>The sanitizer behind the parser\<close>

lemma path_segments_of_normal:
  assumes "normalizePath p = p"
  shows "p = ''/'' \<or> p = join_with (CHR ''/'') (path_segments p)"
  using assms by (auto simp: normalizePath_split split: if_splits)

lemma sublist_of_join:
  assumes "t \<in> set ts"
  shows "sublist t (join_with c ts)"
proof -
  obtain us vs where "ts = us @ t # vs" using assms by (meson split_list)
  then have "join_with c ts = (join_with c us @ [c]) @ t @ join_with c vs" by (simp add: join_with_def)
  then show ?thesis unfolding sublist_def by blast
qed

text \<open>The sanitizer never finds what it looks for: the paths of accepted requests have no
  parent segments and no escapes left, so the only ones it refuses are those that have two dots
  inside a longer name, such as \<^verbatim>\<open>/v1..v2\<close>, which are no traversal.\<close>

theorem sanitizer_refuses_only_names:
  assumes "parse_request new config h data = (Inr r, h')" and "\<not> rq_parse_error r"
  shows "(\<exists>c. sanitizer_decide (r, res, w) = Stop c) \<longleftrightarrow>
    (\<exists>seg \<in> set (path_segments (rq_path r)). seg \<noteq> ''..'' \<and> contains seg ''..'')"
proof -
  let ?p = "rq_path r"
  have line: "normalizePath ?p = ?p" "\<not> isDoubleEncoded ?p"
    using accepted_line_ok [OF assms] by (simp_all add: line_ok_def)
  have "\<not> contains ?p [CHR ''%'', a, b]" if "is_xdigit a" "is_xdigit b" for a b
    using line(2) that by (auto simp: contains_sublist isDoubleEncoded_has_escape has_escape_sublist)
  moreover have "sublist [CHR ''%'', CHR ''2'', CHR ''e''] ?p" if "sublist ''%2e%2e'' ?p"
    by (rule sublist_order.order_trans [OF _ that]) (auto simp: sublist_def intro: exI [of _ "[]"])
  ultimately have esc: "\<not> contains ?p ''%2e%2e''" "\<not> contains ?p ''%00''"
    by (auto simp: contains_sublist is_xdigit_def digit_val_def char_class)
  have "contains ?p ''..'' \<longleftrightarrow> (\<exists>seg \<in> set (path_segments ?p). contains seg ''..'')"
  proof
    assume dots: "contains ?p ''..''"
    from path_segments_of_normal [OF line(1)] consider "?p = ''/''" | "?p = join_with (CHR ''/'') (path_segments ?p)" by blast
    then show "\<exists>seg \<in> set (path_segments ?p). contains seg ''..''"
    proof cases
      case 1
      have "\<not> contains ''/'' ''..''" by code_simp
      with 1 dots show ?thesis by simp
    next
      case 2
      with dots have "sublist ''..'' (join_with (CHR ''/'') (path_segments ?p))"
        by (simp only: contains_sublist)
      then show ?thesis
        using sublist_join_with [of "CHR ''/''" "''..''" "path_segments ?p"] by (auto simp: contains_sublist)
    qed
  next
    assume "\<exists>seg \<in> set (path_segments ?p). contains seg ''..''"
    then obtain seg where seg: "seg \<in> set (path_segments ?p)" "sublist ''..'' seg" by (auto simp: contains_sublist)
    then have "path_segments ?p \<noteq> []" by auto
    with line(1) have "?p = join_with (CHR ''/'') (path_segments ?p)" by (simp add: normalizePath_split)
    with sublist_of_join [OF seg(1), of "CHR ''/''"] seg(2) show "contains ?p ''..''"
      unfolding contains_sublist by (metis sublist_order.order_trans)
  qed
  moreover have "seg \<noteq> ''..''" if "seg \<in> set (path_segments ?p)" for seg
    using path_segments_clean [OF that] by (simp add: clean_segment_def)
  ultimately show ?thesis
    using esc by (auto simp: sanitizer_decide_def sanitizer_blocked_def)
qed

subsection \<open>The parts of an upload\<close>

lemma accepted_parts_dead:
  assumes "parse_request new config h data = (Inr r, h')" and "\<not> rq_parse_error r" and "p \<in> set (rq_parts r)"
  shows "read_view h' (pt_data p) = Inl Undefined_behaviour"
  using accepted_parts_in_buffer [OF assms(1,2)] assms(3) by (auto simp: read_view_def in_buffer_def)

lemma csrf_part_dead:
  assumes "\<forall>p \<in> set ps. read_view h (pt_data p) = Inl e" and "\<exists>p \<in> set ps. pt_name p = csrf_key"
  shows "csrf_part h ps = Inl e"
  using assms by (induction ps) auto

text \<open>A form that is sent as \<^verbatim>\<open>multipart/form-data\<close> cannot carry its CSRF token:
  when the request has no token header, the check reads the part \<open>_csrf\<close> in the buffer that the
  parser has released, so the request is undefined, whatever the token, the session and the rest
  of the server are.\<close>

theorem csrf_multipart_undefined:
  assumes "parse_request new config h data = (Inr r, h')" and "\<not> rq_parse_error r"
    and "rq_method r \<in> {''POST'', ''PUT'', ''DELETE''}" and "getHeader r ''X-CSRF-Token'' = None"
    and "p \<in> set (rq_parts r)" and "pt_name p = csrf_key" and "wd_buffers w = h'"
    and "sv_middlewares sv = Csrf wd_sessions put_sessions wd_buffers wd_random # ms"
  shows "respond hst sv handler (r\<lparr>rq_client_ip := ip, rq_session := s\<rparr>, res, w) = Inl Undefined_behaviour"
proof -
  let ?r = "r\<lparr>rq_client_ip := ip, rq_session := s\<rparr>"
  have "csrf_part h' (rq_parts r) = Inl Undefined_behaviour"
    using assms(5,6) accepted_parts_dead [OF assms(1,2)] by (intro csrf_part_dead) auto
  then have "csrf_allows (wd_buffers w) (wd_sessions w) ?r = Inl Undefined_behaviour"
    using assms(4,7) by (simp add: csrf_allows_def csrf_token_of_def getHeader_def)
  then have "csrf_decide wd_sessions put_sessions wd_buffers wd_random (?r, res, w) = Throw Undefined_behaviour (?r, res, w)"
    using assms(3) by (auto simp: csrf_decide_def)
  then show ?thesis
    by (simp add: respond_def assms(8) csrf_filter.decides)
qed


subsection \<open>The two limits\<close>

text \<open>The two size limits of the configuration contradict each other: a well-formed message that
  arrives whole, with a body within the limit for uploads but over the limit for bodies (by
  default anything between 1 and 10 megabytes), passes the check of the server and is then
  refused by the parser, and the client is told 400, not 413; no handler ever sees it.\<close>

theorem upload_over_body_limit_refused:
  assumes "message_ok m" and "announced m" and "arrives_until m (length (ms_body m)) segs tail wi"
    and "length (ms_body m) \<le> cfg_max_upload_size (sv_config sv)" and "length (ms_body m) < 2 ^ 42"
    and "secured hst (wi_conn wi)" and "cfg_max_body_size (sv_config sv) < length (ms_body m)"
  shows "handleRequest hst sv (wi, w) =
    Some (Inr (Erased, send_response hst (res_error 400 []) (wi\<lparr>wi_in := tail\<rparr>), w))"
proof -
  let ?head = "lines_text (request_line m # map header_line (ms_headers m))"
  have "2 \<le> length ?head" "length (message_text m) = length ?head + 2 + length (ms_body m)"
    by (simp_all add: message_text_def)
  moreover have "find_sub (crlf @ crlf) (message_text m) = Some (length ?head - 2)"
    unfolding message_text_def by (rule find_blank_line [OF message_lines_ok [OF assms(1)]])
  ultimately have "parse_limits (sv_config sv) (message_text m) = Inl 413"
    using assms(7) by (simp add: parse_limits_def find_from_0)
  then show ?thesis
    by (simp add: handleRequest_whole [OF assms(1-6)] parse_and_answer_def parse_request_def request_error_def)
qed

subsection \<open>Error pages\<close>

text \<open>The page for a missing path is not the response the middlewares prepared: with the
  security headers switched on, the 404 page has none of them, and although it announces
  \<^verbatim>\<open>Connection: close\<close>, the connection stays open for the next request.\<close>

theorem error_page_drops_headers:
  assumes "sv_middlewares sv = [SecureHeaders csp]" and "sv_error_handlers sv 404 = None"
    and "\<not> fst (serve_static (hs_files hst) (sv_static_files sv) req (secure_headers csp res))"
    and "getHeader req ''Connection'' = None"
  shows "\<exists>page. respond hst sv None (req, res, w) = Inr (req, page, w)
    \<and> rs_status page = 404 \<and> res_getHeader page ''Connection'' = Some ''close'' \<and> after_response req = Rearmed
    \<and> (\<forall>k. k \<noteq> ''Connection'' \<longrightarrow> k \<noteq> ''Content-Type'' \<longrightarrow> res_getHeader page k = None)"
proof (intro exI conjI)
  have "run_chain [SecureHeaders csp] (last_effect hst sv None) (req, res, w)
      = run_chain [] (last_effect hst sv None) (req, secure_headers csp res, w)"
    by (rule secure_filter.continues) (simp add: secure_decide_def)
  then show "respond hst sv None (req, res, w) = Inr (req, res_error 404 [], w)"
    using assms(1-3) by (auto simp: respond_def last_effect_def error_page_def split: prod.splits)
qed (use assms(4) in \<open>auto simp: res_error_def res_getHeader_def res_header_def res_body_def res_status_def
  new_response_def after_response_def Let_def\<close>)

subsection \<open>A form and its token\<close>













subsection \<open>Witnesses\<close>

theorem upload_over_body_limit_refused_witness:
  "\<exists>wi. handleRequest plain_host (plain_server\<lparr>sv_config := default_config\<lparr>cfg_max_body_size := 1\<rparr>\<rparr>)
      (sample_wire (halves 40 (message_text sample_get)), plain_world) = Some (Inr (Erased, wi, plain_world))"
proof -
  let ?sv = "plain_server\<lparr>sv_config := default_config\<lparr>cfg_max_body_size := 1\<rparr>\<rparr>"
  let ?wi = "sample_wire (halves 40 (message_text sample_get))"
  have "secured plain_host (wi_conn ?wi)" by simp
  moreover have "length (ms_body sample_get) \<le> cfg_max_upload_size (sv_config ?sv)" "length (ms_body sample_get) < 2 ^ 42"
    "cfg_max_body_size (sv_config ?sv) < length (ms_body sample_get)"
    by (simp_all add: default_config_def sample_get_def)
  ultimately show ?thesis
    using upload_over_body_limit_refused [OF sample_get_ok(1) sample_get_announced sample_get_arrives] by blast
qed

theorem sanitizer_refuses_only_names_witness:
  "\<not> (\<exists>c. sanitizer_decide (message_request sample_get, new_response, ()) = Stop c)"
proof -
  have "path_segments (rq_path (message_request sample_get)) = [''b c'']" "\<not> contains ''b c'' ''..''" by code_simp+
  then show ?thesis
    using sanitizer_refuses_only_names [OF sample_get_accepted, of new_response "()"] by simp
qed

text \<open>A form with a hidden field for the token and a file.\<close>

definition form_fields :: "field list" where
  "form_fields =
     [\<lparr>fd_name = ''_csrf'', fd_filename = [], fd_content_type = [], fd_data = ''t''\<rparr>,
      \<lparr>fd_name = ''f'', fd_filename = ''x.y'', fd_content_type = ''t/p'', fd_data = ''D''\<rparr>]"

lemma form_accepted:
  obtains r h' p q where "parse_request (\<lambda>h. 0) default_config Map.empty
      (message_text (sample_post (map field_chunk form_fields))) = (Inr r, h')"
    and "\<not> rq_parse_error r" and "rq_method r = ''POST''" and "getHeader r ''X-CSRF-Token'' = None"
    and "rq_parts r = [p, q]" and "pt_name p = ''_csrf''" and "pt_filename q = ''x.y''"
proof -
  let ?m = "sample_post (map field_chunk form_fields)"
  have fits: "message_fits default_config ?m"
    by (simp add: sample_size sample_post_def form_fields_def field_chunk_def field_header_def
      disposition_def name_intro_def type_key_def)
  have ok: "upload_ok ''B'' form_fields" by code_simp
  obtain ps where ps: "map (part_field (rq_body (message_request ?m))) ps = form_fields"
    and parse: "parse_body (\<lambda>h. 0) Map.empty (message_request ?m) =
      (Inr ((message_request ?m)\<lparr>rq_parts := ps, rq_form_data := rq_form_data (message_request ?m)
        ++ map_of (rev (plain_fields form_fields))\<rparr>), Map.empty(0 := None))"
    by (rule parse_body_upload [OF ok sample_post_ok(5,6)])
  from ps obtain p q where "ps = [p, q]" "pt_name p = ''_csrf''" "pt_filename q = ''x.y''"
    by (auto simp: form_fields_def part_field_def)
  then show ?thesis
    by (intro that [OF parse [folded parse_message [OF sample_post_ok(1) fits sample_post_ok(2)]], of p q])
      (simp_all add: message_request_def message_head_def empty_request_def sample_post_def getHeader_def)
qed

theorem csrf_multipart_undefined_witness:
  "\<exists>r w sv. rq_method r = ''POST'' \<and> rq_parts r \<noteq> [] \<and>
     respond plain_host (sv :: unit server) None (r\<lparr>rq_client_ip := ''c'', rq_session := Some 0\<rparr>, new_response, w)
       = Inl Undefined_behaviour"
proof -
  let ?sv = "plain_server\<lparr>sv_middlewares := [Csrf wd_sessions put_sessions wd_buffers wd_random]\<rparr>"
  obtain r h' p q where r: "parse_request (\<lambda>h. 0) default_config Map.empty
      (message_text (sample_post (map field_chunk form_fields))) = (Inr r, h')" "\<not> rq_parse_error r"
    "rq_method r = ''POST''" "getHeader r ''X-CSRF-Token'' = None" "rq_parts r = [p, q]" "pt_name p = ''_csrf''"
    by (rule form_accepted)
  have "respond plain_host ?sv None (r\<lparr>rq_client_ip := ''c'', rq_session := Some 0\<rparr>, new_response,
      plain_world\<lparr>wd_buffers := h'\<rparr>) = Inl Undefined_behaviour"
    using r by (intro csrf_multipart_undefined [OF r(1,2) _ r(4), of p]) (simp_all add: csrf_key_def)
  with r(3,5) show ?thesis by (intro exI [of _ r] exI) auto
qed



theorem error_page_drops_headers_witness:
  "\<exists>page. respond plain_host (plain_server\<lparr>sv_middlewares := [SecureHeaders default_csp]\<rparr>) None
     (empty_request, new_response, plain_world) = Inr (empty_request, page, plain_world)
   \<and> res_getHeader page ''X-Frame-Options'' = None"
proof -
  let ?sv = "plain_server\<lparr>sv_middlewares := [SecureHeaders default_csp]\<rparr>"
  have "sv_middlewares ?sv = [SecureHeaders default_csp]" "sv_error_handlers ?sv 404 = None"
    "\<not> fst (serve_static (hs_files plain_host) (sv_static_files ?sv) empty_request (secure_headers default_csp new_response))"
    "getHeader empty_request ''Connection'' = None"
    by (simp_all add: plain_server_def getHeader_def empty_request_def)
  from error_page_drops_headers [OF this, of plain_world] show ?thesis by fastforce
qed


end
