(* ===== verification/Server_Loop.thy ===== *)
theory Server_Loop
  imports Server
begin

section \<open>The event loop of the server\<close>

text \<open>
  Models \<open>Server::start\<close> and \<open>Server::stop\<close> of \<^verbatim>\<open>src/core/server.cpp\<close>, with
  what the loop, the workers and the thread that calls \<open>stop\<close> share: the map of connections, the
  set of watched descriptors, and the connection objects, which are shared pointers. The loop is
  a transition system whose steps are the critical sections and system calls of the three, in any
  order. An object is named by a number and owns a descriptor; it is alive as long as
  the map, a task that is queued or running, a task that has finished its work but not yet
  dropped its pointer, or the loop that has just accepted it refers to it; then it closes its
  descriptor, which also ends watching it. A WebSocket that reads a closing frame, or one that is
  too long, closes its connection while the entry of the map is still there
  (\<^verbatim>\<open>src/net/websocket.cpp\<close>): this is the event \<open>Peer_close\<close>.
\<close>

datatype position = Asleep | Batch "int list" | Accepted int nat "int list" | Returned | Thrown

record server_loop =
  sl_pos :: position
  sl_running :: bool
  sl_listener :: int
  sl_conns :: "int \<rightharpoonup> nat option"
  sl_watched :: "int set"
  sl_open :: "int set"
  sl_objs :: "nat \<rightharpoonup> int"
  sl_next :: nat
  sl_active :: "(int \<times> nat) list"
  sl_ending :: "nat list"
  sl_stop :: nat

text \<open>The state in front of the loop, when binding and listening have succeeded.\<close>

definition started :: "int \<Rightarrow> server_loop" where
  "started l =
     \<lparr>sl_pos = Batch [], sl_running = True, sl_listener = l, sl_conns = Map.empty, sl_watched = {l},
      sl_open = {l}, sl_objs = Map.empty, sl_next = 0, sl_active = [], sl_ending = [], sl_stop = 0\<rparr>"

fun held :: "position \<Rightarrow> nat set" where
  "held (Accepted fd a rest) = {a}"
| "held _ = {}"

definition live :: "server_loop \<Rightarrow> nat set" where
  "live s = {a. \<exists>fd. sl_conns s fd = Some (Some a)} \<union> snd ` set (sl_active s) \<union> set (sl_ending s) \<union> held (sl_pos s)"

text \<open>Objects that nothing refers to are destroyed.\<close>

definition collect :: "server_loop \<Rightarrow> server_loop" where
  "collect s =
     (let fds = {fd. \<exists>a. sl_objs s a = Some fd \<and> a \<notin> live s}
      in s\<lparr>sl_objs := sl_objs s |` live s, sl_open := sl_open s - fds, sl_watched := sl_watched s - fds\<rparr>)"

datatype loop_event =
    Loop_sleep | Loop_return | Interrupt | Ready "int list"
  | Accept int | Accept_none | Accept_throws | Insert | Dispatch | Dispatch_null
  | Served int nat fate | Ended nat | Peer_close int nat
  | Stop_flag | Stop_listener | Stop_clear

inductive loop_step :: "loop_event \<Rightarrow> server_loop \<Rightarrow> server_loop \<Rightarrow> bool" where
  sleep: "sl_pos s = Batch [] \<Longrightarrow> sl_running s \<Longrightarrow> loop_step Loop_sleep s (s\<lparr>sl_pos := Asleep\<rparr>)"
| return: "sl_pos s = Batch [] \<Longrightarrow> \<not> sl_running s \<Longrightarrow> loop_step Loop_return s (s\<lparr>sl_pos := Returned\<rparr>)"
| interrupt: "sl_pos s = Asleep \<Longrightarrow> loop_step Interrupt s (s\<lparr>sl_pos := Batch []\<rparr>)"
| ready: "sl_pos s = Asleep \<Longrightarrow> evs \<noteq> [] \<Longrightarrow> distinct evs \<Longrightarrow> set evs \<subseteq> sl_watched s \<Longrightarrow>
    loop_step (Ready evs) s (s\<lparr>sl_pos := Batch evs\<rparr>)"
| accept_none: "sl_pos s = Batch (sl_listener s # rest) \<Longrightarrow> loop_step Accept_none s (s\<lparr>sl_pos := Batch rest\<rparr>)"
| accept: "sl_pos s = Batch (sl_listener s # rest) \<Longrightarrow> sl_listener s \<noteq> -1 \<Longrightarrow> fd \<ge> 0 \<Longrightarrow> fd \<notin> sl_open s \<Longrightarrow>
    loop_step (Accept fd) s (s\<lparr>sl_pos := Accepted fd (sl_next s) rest, sl_open := insert fd (sl_open s),
      sl_watched := insert fd (sl_watched s), sl_objs := (sl_objs s)(sl_next s \<mapsto> fd), sl_next := sl_next s + 1\<rparr>)"
| accept_throws: "sl_pos s = Accepted fd a rest \<Longrightarrow> loop_step Accept_throws s (collect (s\<lparr>sl_pos := Thrown\<rparr>))"
| insert: "sl_pos s = Accepted fd a rest \<Longrightarrow>
    loop_step Insert s (collect (s\<lparr>sl_pos := Batch rest, sl_conns := (sl_conns s)(fd \<mapsto> Some a)\<rparr>))"
| dispatch: "sl_pos s = Batch (fd # rest) \<Longrightarrow> fd \<noteq> sl_listener s \<Longrightarrow> sl_conns s fd = Some (Some a) \<Longrightarrow>
    loop_step Dispatch s (s\<lparr>sl_pos := Batch rest, sl_watched := sl_watched s - {fd}, sl_active := sl_active s @ [(fd, a)]\<rparr>)"
| dispatch_null: "sl_pos s = Batch (fd # rest) \<Longrightarrow> fd \<noteq> sl_listener s \<Longrightarrow> sl_conns s fd \<in> {None, Some None} \<Longrightarrow>
    loop_step Dispatch_null s (s\<lparr>sl_pos := Batch rest, sl_watched := sl_watched s - {fd}, sl_conns := (sl_conns s)(fd \<mapsto> None)\<rparr>)"
| erased: "(fd, a) \<in> set (sl_active s) \<Longrightarrow>
    loop_step (Served fd a Erased) s (collect (s\<lparr>sl_active := remove1 (fd, a) (sl_active s),
      sl_ending := a # sl_ending s, sl_conns := (sl_conns s)(fd := None)\<rparr>))"
| rearmed: "(fd, a) \<in> set (sl_active s) \<Longrightarrow>
    loop_step (Served fd a Rearmed) s (s\<lparr>sl_active := remove1 (fd, a) (sl_active s),
      sl_ending := a # sl_ending s,
      sl_watched := (if fd \<in> sl_open s then insert fd (sl_watched s) else sl_watched s)\<rparr>)"
| ended: "a \<in> set (sl_ending s) \<Longrightarrow> loop_step (Ended a) s (collect (s\<lparr>sl_ending := remove1 a (sl_ending s)\<rparr>))"
| peer_close: "(fd, a) \<in> set (sl_active s) \<Longrightarrow> sl_objs s a = Some fd \<Longrightarrow>
    loop_step (Peer_close fd a) s (s\<lparr>sl_objs := (sl_objs s)(a \<mapsto> -1), sl_open := sl_open s - {fd},
      sl_watched := sl_watched s - {fd}\<rparr>)"
| stop_flag: "sl_stop s = 0 \<Longrightarrow> loop_step Stop_flag s (s\<lparr>sl_stop := 1, sl_running := False\<rparr>)"
| stop_listener: "sl_stop s = 1 \<Longrightarrow>
    loop_step Stop_listener s (s\<lparr>sl_stop := 2, sl_listener := -1, sl_open := sl_open s - {sl_listener s},
      sl_watched := sl_watched s - {sl_listener s}\<rparr>)"
| stop_clear: "sl_stop s = 2 \<Longrightarrow> loop_step Stop_clear s (collect (s\<lparr>sl_stop := 3, sl_conns := Map.empty\<rparr>))"

inductive_simps loop_step_simps:
  "loop_step Loop_sleep s s'" "loop_step Loop_return s s'" "loop_step Interrupt s s'" "loop_step (Ready evs) s s'"
  "loop_step (Accept fd) s s'" "loop_step Accept_none s s'" "loop_step Accept_throws s s'" "loop_step Insert s s'"
  "loop_step Dispatch s s'"
  "loop_step Dispatch_null s s'" "loop_step (Served fd a Erased) s s'" "loop_step (Served fd a Rearmed) s s'"
  "loop_step (Ended a) s s'" "loop_step (Peer_close fd a) s s'"
  "loop_step Stop_flag s s'" "loop_step Stop_listener s s'" "loop_step Stop_clear s s'"

abbreviation loop_run :: "server_loop \<Rightarrow> loop_event list \<Rightarrow> server_loop \<Rightarrow> bool" where
  "loop_run \<equiv> run_of loop_step"

subsection \<open>The invariant\<close>

text \<open>
  Objects and descriptors: every reference leads to an object, every object is referred to and
  owns an open descriptor of its own, and nothing else than these and the listener is open.
\<close>

definition objects_weak :: "server_loop \<Rightarrow> bool" where
  "objects_weak s \<longleftrightarrow>
     live s \<subseteq> dom (sl_objs s)
     \<and> (\<forall>fd a. sl_conns s fd = Some (Some a) \<longrightarrow> sl_objs s a = Some fd)
     \<and> (\<forall>fd a. (fd, a) \<in> set (sl_active s) \<longrightarrow> sl_objs s a = Some fd)
     \<and> (\<forall>fd a rest. sl_pos s = Accepted fd a rest \<longrightarrow> sl_objs s a = Some fd)
     \<and> (\<forall>a b fd. sl_objs s a = Some fd \<longrightarrow> sl_objs s b = Some fd \<longrightarrow> a = b)
     \<and> (\<forall>a fd. sl_objs s a = Some fd \<longrightarrow> a < sl_next s \<and> fd \<noteq> -1 \<and> fd \<noteq> sl_listener s)
     \<and> (\<forall>fd. fd \<in> sl_open s \<longleftrightarrow> (\<exists>a. sl_objs s a = Some fd) \<or> fd = sl_listener s \<and> fd \<noteq> -1)
     \<and> sl_watched s \<subseteq> sl_open s"

definition objects_ok :: "server_loop \<Rightarrow> bool" where
  "objects_ok s \<longleftrightarrow> objects_weak s \<and> dom (sl_objs s) \<subseteq> live s"

text \<open>
  Service: no connection has two tasks at work, a connection at work is not watched and has no
  event left in the batch, and every connection of the map is at work or watched.
\<close>

definition pending :: "server_loop \<Rightarrow> int list" where
  "pending s = (case sl_pos s of Batch evs \<Rightarrow> evs | Accepted fd a evs \<Rightarrow> evs | _ \<Rightarrow> [])"

definition service_ok :: "server_loop \<Rightarrow> bool" where
  "service_ok s \<longleftrightarrow>
     distinct (sl_active s)
     \<and> (\<forall>fd a. (fd, a) \<in> set (sl_active s) \<longrightarrow> fd \<notin> sl_watched s \<and> fd \<notin> set (pending s))
     \<and> (\<forall>fd a. sl_conns s fd = Some (Some a) \<longrightarrow> fd \<in> sl_watched s \<or> (fd, a) \<in> set (sl_active s))
     \<and> (\<forall>fd a rest. sl_pos s = Accepted fd a rest \<longrightarrow> fd \<in> sl_watched s)
     \<and> distinct (pending s)"

lemma collect_simps [simp]:
  "sl_pos (collect s) = sl_pos s" "sl_conns (collect s) = sl_conns s" "sl_active (collect s) = sl_active s"
  "sl_listener (collect s) = sl_listener s" "sl_next (collect s) = sl_next s" "sl_stop (collect s) = sl_stop s"
  "sl_running (collect s) = sl_running s" "sl_ending (collect s) = sl_ending s"
  "sl_objs (collect s) = sl_objs s |` live s" "live (collect s) = live s" "pending (collect s) = pending s"
  by (simp_all add: collect_def Let_def live_def pending_def)

lemma objects_weakD:
  assumes "objects_weak s"
  shows "live s \<subseteq> dom (sl_objs s)"
    and "sl_conns s fd = Some (Some a) \<Longrightarrow> sl_objs s a = Some fd"
    and "(fd, a) \<in> set (sl_active s) \<Longrightarrow> sl_objs s a = Some fd"
    and "sl_pos s = Accepted fd a rest \<Longrightarrow> sl_objs s a = Some fd"
    and "sl_objs s a = Some fd \<Longrightarrow> sl_objs s b = Some fd \<Longrightarrow> a = b"
    and "sl_objs s a = Some fd \<Longrightarrow> a < sl_next s"
    and "sl_objs s a = Some fd \<Longrightarrow> fd \<noteq> -1"
    and "sl_objs s a = Some fd \<Longrightarrow> fd \<noteq> sl_listener s"
    and "sl_objs s a = Some fd \<Longrightarrow> fd \<in> sl_open s"
    and "fd \<in> sl_open s \<Longrightarrow> (\<exists>a. sl_objs s a = Some fd) \<or> fd = sl_listener s \<and> fd \<noteq> -1"
    and "sl_listener s \<noteq> -1 \<Longrightarrow> sl_listener s \<in> sl_open s"
    and "sl_watched s \<subseteq> sl_open s"
proof -
  from assms have inv: "live s \<subseteq> dom (sl_objs s)"
    "\<forall>fd a. sl_conns s fd = Some (Some a) \<longrightarrow> sl_objs s a = Some fd"
    "\<forall>fd a. (fd, a) \<in> set (sl_active s) \<longrightarrow> sl_objs s a = Some fd"
    "\<forall>fd a rest. sl_pos s = Accepted fd a rest \<longrightarrow> sl_objs s a = Some fd"
    "\<forall>a b fd. sl_objs s a = Some fd \<longrightarrow> sl_objs s b = Some fd \<longrightarrow> a = b"
    "\<forall>a fd. sl_objs s a = Some fd \<longrightarrow> a < sl_next s \<and> fd \<noteq> -1 \<and> fd \<noteq> sl_listener s"
    "\<forall>fd. fd \<in> sl_open s \<longleftrightarrow> (\<exists>a. sl_objs s a = Some fd) \<or> fd = sl_listener s \<and> fd \<noteq> -1"
    "sl_watched s \<subseteq> sl_open s"
    unfolding objects_weak_def by - (elim conjE, assumption)+
  show "live s \<subseteq> dom (sl_objs s)" "sl_watched s \<subseteq> sl_open s" by (rule inv)+
  show "sl_conns s fd = Some (Some a) \<Longrightarrow> sl_objs s a = Some fd"
    "(fd, a) \<in> set (sl_active s) \<Longrightarrow> sl_objs s a = Some fd"
    "sl_pos s = Accepted fd a rest \<Longrightarrow> sl_objs s a = Some fd"
    "sl_objs s a = Some fd \<Longrightarrow> sl_objs s b = Some fd \<Longrightarrow> a = b"
    by (simp_all only: inv(2-4)) (rule inv(5) [rule_format])
  show "sl_objs s a = Some fd \<Longrightarrow> a < sl_next s" "sl_objs s a = Some fd \<Longrightarrow> fd \<noteq> -1"
    "sl_objs s a = Some fd \<Longrightarrow> fd \<noteq> sl_listener s"
    using inv(6) by simp_all
  show "sl_objs s a = Some fd \<Longrightarrow> fd \<in> sl_open s"
    "fd \<in> sl_open s \<Longrightarrow> (\<exists>a. sl_objs s a = Some fd) \<or> fd = sl_listener s \<and> fd \<noteq> -1"
    "sl_listener s \<noteq> -1 \<Longrightarrow> sl_listener s \<in> sl_open s"
    unfolding inv(7) [rule_format] by (blast, assumption, blast)
qed

lemma objects_weakI:
  assumes "live s \<subseteq> dom (sl_objs s)"
    and "\<And>fd a. sl_conns s fd = Some (Some a) \<Longrightarrow> sl_objs s a = Some fd"
    and "\<And>fd a. (fd, a) \<in> set (sl_active s) \<Longrightarrow> sl_objs s a = Some fd"
    and "\<And>fd a rest. sl_pos s = Accepted fd a rest \<Longrightarrow> sl_objs s a = Some fd"
    and "\<And>a b fd. sl_objs s a = Some fd \<Longrightarrow> sl_objs s b = Some fd \<Longrightarrow> a = b"
    and "\<And>a fd. sl_objs s a = Some fd \<Longrightarrow> a < sl_next s" and "\<And>a fd. sl_objs s a = Some fd \<Longrightarrow> fd \<noteq> -1"
    and "\<And>a fd. sl_objs s a = Some fd \<Longrightarrow> fd \<noteq> sl_listener s"
    and "\<And>fd. fd \<in> sl_open s \<longleftrightarrow> (\<exists>a. sl_objs s a = Some fd) \<or> fd = sl_listener s \<and> fd \<noteq> -1"
    and "sl_watched s \<subseteq> sl_open s"
  shows "objects_weak s"
  using assms unfolding objects_weak_def by (intro conjI allI impI)

lemma live_refs:
  "sl_conns s fd = Some (Some a) \<Longrightarrow> a \<in> live s" "(fd, a) \<in> set (sl_active s) \<Longrightarrow> a \<in> live s"
  "sl_pos s = Accepted fd a rest \<Longrightarrow> a \<in> live s"
  by (auto simp: live_def intro: image_eqI [of _ snd "(fd, a)"])

lemma objects_ok_collect:
  assumes "objects_weak s"
  shows "objects_ok (collect s)"
proof -
  note inv = objects_weakD [OF assms]
  have opened: "fd \<in> sl_open (collect s) \<longleftrightarrow> fd \<in> sl_open s \<and> \<not> (\<exists>b. sl_objs s b = Some fd \<and> b \<notin> live s)" for fd
    by (simp add: collect_def Let_def)
  have "objects_weak (collect s)"
  proof (rule objects_weakI, goal_cases)
    case 1
    show ?case using inv(1) by auto
  next
    case (2 fd a)
    then show ?case using inv(2) live_refs(1) by simp
  next
    case (3 fd a)
    then show ?case using inv(3) live_refs(2) by simp
  next
    case (4 fd a rest)
    then show ?case using inv(4) live_refs(3) by simp
  next
    case (5 a b fd)
    then show ?case using inv(5) by (simp add: restrict_map_def split: if_splits)
  next
    case (9 fd)
    show ?case
      unfolding opened using inv(5,8-11) by (auto simp: restrict_map_def) metis+
  next
    case 10
    show ?case using inv(12) by (auto simp: collect_def Let_def)
  qed (use inv(6-8) in \<open>simp_all add: restrict_map_def split: if_splits\<close>)
  then show ?thesis using inv(1) by (auto simp: objects_ok_def)
qed

subsection \<open>Every step keeps it\<close>

text \<open>Steps that only move references around.\<close>

lemma objects_weak_refs:
  assumes "objects_weak s" and "sl_objs s' = sl_objs s" "sl_next s' = sl_next s"
    "sl_listener s' = sl_listener s" "sl_open s' = sl_open s" "sl_watched s' \<subseteq> sl_open s"
    and "\<And>fd a. sl_conns s' fd = Some (Some a) \<Longrightarrow> sl_objs s a = Some fd"
    and "\<And>fd a. (fd, a) \<in> set (sl_active s') \<Longrightarrow> sl_objs s a = Some fd"
    and "\<And>fd a rest. sl_pos s' = Accepted fd a rest \<Longrightarrow> sl_objs s a = Some fd"
    and "set (sl_ending s') \<subseteq> dom (sl_objs s)"
  shows "objects_weak s'"
proof (rule objects_weakI, unfold assms(2-5))
  note inv = objects_weakD [OF assms(1)]
  have "held (sl_pos s') \<subseteq> dom (sl_objs s)" using assms(9) by (cases "sl_pos s'") auto
  then show "live s' \<subseteq> dom (sl_objs s)"
    using assms(7,8,10) by (auto simp: live_def)
  show "sl_objs s a = Some fd \<Longrightarrow> sl_objs s b = Some fd \<Longrightarrow> a = b" for a b fd by (rule inv(5))
  show "fd \<in> sl_open s \<longleftrightarrow> (\<exists>a. sl_objs s a = Some fd) \<or> fd = sl_listener s \<and> fd \<noteq> -1" for fd
    using inv(9-11) by blast
qed (use assms objects_weakD(6-8) [OF assms(1)] in auto)

lemma live_move:
  assumes "sl_conns s' = sl_conns s" and "held (sl_pos s') = held (sl_pos s)"
    and "snd ` set (sl_active s') \<union> set (sl_ending s') = snd ` set (sl_active s) \<union> set (sl_ending s)"
  shows "live s' = live s"
  using assms(3) by (simp add: live_def assms(1,2) Un_assoc [symmetric]) (simp add: Un_assoc)

lemma in_removed: "x \<in> set (remove1 y xs) \<Longrightarrow> x \<in> set xs"
  using set_remove1_subset by fast

lemma live_remove:
  assumes "x \<in> set xs"
  shows "f ` set (remove1 x xs) \<union> set (f x # ys) = f ` set xs \<union> set ys"
proof -
  have "y \<in> set xs \<longleftrightarrow> y = x \<or> y \<in> set (remove1 x xs)" for y
    using assms in_removed [of y x xs] in_set_remove1 [of y x xs] by blast
  then have "set xs = insert x (set (remove1 x xs))" by auto
  then show ?thesis by auto
qed

lemma objects_ok_move:
  assumes "objects_ok s" and "objects_weak s'" and "sl_objs s' = sl_objs s" and "live s' = live s"
  shows "objects_ok s'"
  using assms by (simp add: objects_ok_def)

lemma objects_ok_accept:
  assumes "loop_step ev s s'" and ok: "objects_ok s" and ev: "ev = (Accept n)"
  shows "objects_ok s'"
proof -
  have weak: "objects_weak s" and dom: "dom (sl_objs s) \<subseteq> live s" using ok by (simp_all add: objects_ok_def)
  note inv = objects_weakD [OF weak] and refs = objects_weak_refs [OF weak]
  have ending: "set (sl_ending s) \<subseteq> dom (sl_objs s)" using inv(1) by (auto simp: live_def)
  show ?thesis
    using assms(1)
  proof (cases rule: loop_step.cases)
    case (accept rest fd)
    have new: "sl_objs s (sl_next s) = None" using inv(6) by fastforce
    have fresh: "sl_objs s a \<noteq> Some fd" for a using inv(9) accept by blast
    have live: "live s' = insert (sl_next s) (live s)" using accept by (auto simp: live_def)
    note s' = accept(2)
    have objs: "sl_objs s' a = Some fd' \<longleftrightarrow> a = sl_next s \<and> fd' = fd \<or> a \<noteq> sl_next s \<and> sl_objs s a = Some fd'" for a fd'
      by (auto simp: s')
    have "objects_weak s'"
    proof (rule objects_weakI, goal_cases)
      case 1
      show ?case using inv(1) live by (auto simp: s')
    next
      case (2 fd' a)
      then show ?case using inv(2) [of fd' a] new by (auto simp: s')
    next
      case (3 fd' a)
      then show ?case using inv(3) [of fd' a] new by (auto simp: s')
    next
      case (4 fd' a rest')
      then show ?case by (auto simp: s')
    next
      case (5 a b fd')
      then show ?case unfolding objs using inv(5) fresh by blast
    next
      case (6 a fd')
      then show ?case unfolding objs using inv(6) [of a fd'] by (auto simp: s')
    next
      case (7 a fd')
      then show ?case unfolding objs using inv(7) [of a fd'] accept(5) by auto
    next
      case (8 a fd')
      then show ?case unfolding objs using inv(8) [of a fd'] inv(11) accept(4,6) by (auto simp: s')
    next
      case (9 fd')
      have "(\<exists>a. sl_objs s' a = Some fd') \<longleftrightarrow> fd' = fd \<or> (\<exists>a. sl_objs s a = Some fd')"
        unfolding objs using new by (metis option.distinct(1))
      moreover have "fd' \<in> sl_open s \<longleftrightarrow> (\<exists>a. sl_objs s a = Some fd') \<or> fd' = sl_listener s \<and> fd' \<noteq> -1"
        using inv(9-11) by blast
      ultimately show ?case by (auto simp: s')
    next
      case 10
      show ?case using inv(12) by (auto simp: s')
    qed
    then show ?thesis using live dom accept by (auto simp: objects_ok_def)
  qed (use ev in simp_all)
qed

lemma objects_ok_stop_listener:
  assumes "loop_step ev s s'" and ok: "objects_ok s" and ev: "ev = Stop_listener"
  shows "objects_ok s'"
proof -
  have weak: "objects_weak s" and dom: "dom (sl_objs s) \<subseteq> live s" using ok by (simp_all add: objects_ok_def)
  note inv = objects_weakD [OF weak] and refs = objects_weak_refs [OF weak]
  have ending: "set (sl_ending s) \<subseteq> dom (sl_objs s)" using inv(1) by (auto simp: live_def)
  show ?thesis
    using assms(1)
  proof (cases rule: loop_step.cases)
    case stop_listener
    have "objects_weak s'"
    proof (rule objects_weakI, goal_cases)
      case (9 fd)
      show ?case using inv(8,9,10) [where fd = fd] stop_listener by auto
    next
      case 10
      show ?case using inv(12) stop_listener by auto
    next
      case (5 a b fd)
      then show ?case using inv(5) by (simp add: stop_listener(2))
    qed (use stop_listener inv(1-4,6-8) in \<open>auto simp: live_def\<close>)
    then show ?thesis
      using stop_listener by (intro objects_ok_move [OF ok] live_move) simp_all
  qed (use ev in simp_all)
qed

lemma objects_ok_dispatch:
  assumes "loop_step ev s s'" and ok: "objects_ok s" and ev: "ev = Dispatch"
  shows "objects_ok s'"
proof -
  have weak: "objects_weak s" and dom: "dom (sl_objs s) \<subseteq> live s" using ok by (simp_all add: objects_ok_def)
  note inv = objects_weakD [OF weak] and refs = objects_weak_refs [OF weak]
  have ending: "set (sl_ending s) \<subseteq> dom (sl_objs s)" using inv(1) by (auto simp: live_def)
  show ?thesis
    using assms(1)
  proof (cases rule: loop_step.cases)
    case (dispatch fd rest a)
    have "live s' = live s"
      using dispatch live_refs(1) [of s fd a] by (auto simp: live_def)
    moreover have "objects_weak s'"
      using dispatch inv(2,3,12) ending by (intro refs) auto
    ultimately show ?thesis using dispatch by (intro objects_ok_move [OF ok]) simp_all
  qed (use ev in simp_all)
qed

lemma objects_ok_dispatch_null:
  assumes "loop_step ev s s'" and ok: "objects_ok s" and ev: "ev = Dispatch_null"
  shows "objects_ok s'"
proof -
  have weak: "objects_weak s" and dom: "dom (sl_objs s) \<subseteq> live s" using ok by (simp_all add: objects_ok_def)
  note inv = objects_weakD [OF weak] and refs = objects_weak_refs [OF weak]
  have ending: "set (sl_ending s) \<subseteq> dom (sl_objs s)" using inv(1) by (auto simp: live_def)
  show ?thesis
    using assms(1)
  proof (cases rule: loop_step.cases)
    case (dispatch_null fd rest)
    have "sl_conns s' g = Some (Some a) \<longleftrightarrow> sl_conns s g = Some (Some a)" for g a
      using dispatch_null by auto
    then have "live s' = live s" using dispatch_null by (simp add: live_def)
    moreover have "objects_weak s'"
      using dispatch_null inv(2,3,12) ending by (intro refs) (auto split: if_splits)
    ultimately show ?thesis using dispatch_null by (intro objects_ok_move [OF ok]) simp_all
  qed (use ev in simp_all)
qed

lemma objects_ok_rearmed:
  assumes "loop_step ev s s'" and ok: "objects_ok s" and ev: "ev = (Served n x Rearmed)"
  shows "objects_ok s'"
proof -
  have weak: "objects_weak s" and dom: "dom (sl_objs s) \<subseteq> live s" using ok by (simp_all add: objects_ok_def)
  note inv = objects_weakD [OF weak] and refs = objects_weak_refs [OF weak]
  have ending: "set (sl_ending s) \<subseteq> dom (sl_objs s)" using inv(1) by (auto simp: live_def)
  show ?thesis
    using assms(1)
  proof (cases rule: loop_step.cases)
    case (rearmed fd a)
    have "live s' = live s"
      unfolding rearmed using live_remove [OF rearmed(3), of snd "sl_ending s"] by (intro live_move) simp_all
    moreover have "objects_weak s'"
      using rearmed inv(2-4,12) ending by (intro refs) (auto dest: in_removed split: if_splits)
    ultimately show ?thesis using rearmed by (intro objects_ok_move [OF ok]) simp_all
  qed (use ev in simp_all)
qed

lemma objects_ok_step:
  assumes "loop_step ev s s'" and ok: "objects_ok s" and "\<forall>fd a. ev \<noteq> Peer_close fd a"
  shows "objects_ok s'"
proof -
  have weak: "objects_weak s" and dom: "dom (sl_objs s) \<subseteq> live s" using ok by (simp_all add: objects_ok_def)
  note inv = objects_weakD [OF weak]
  have ending: "set (sl_ending s) \<subseteq> dom (sl_objs s)" using inv(1) by (auto simp: live_def)
  note refs = objects_weak_refs [OF weak]
  show ?thesis
    using assms(1)
  proof (cases rule: loop_step.cases)
    case (accept rest fd)
    show ?thesis by (rule objects_ok_accept [OF assms(1) ok accept(1)])
  next
    case (dispatch fd rest a)
    show ?thesis by (rule objects_ok_dispatch [OF assms(1) ok dispatch(1)])
  next
    case (rearmed fd a)
    show ?thesis by (rule objects_ok_rearmed [OF assms(1) ok rearmed(1)])
  next
    case (accept_throws fd a rest)
    show ?thesis
      unfolding accept_throws using inv(2,3,12) ending by (intro objects_ok_collect refs) simp_all
  next
    case (insert fd a rest)
    show ?thesis
      unfolding insert using inv(2-4,12) ending insert(3) by (intro objects_ok_collect refs) (auto split: if_splits)
  next
    case (erased fd a)
    show ?thesis
      unfolding erased using inv(2-4,12) ending erased(3)
      by (intro objects_ok_collect refs) (auto dest: in_removed split: if_splits)
  next
    case (ended a)
    show ?thesis
      unfolding ended using inv(2-4,12) ending by (intro objects_ok_collect refs) (auto dest: in_removed)
  next
    case stop_clear
    show ?thesis
      unfolding stop_clear using inv(2-4,12) ending by (intro objects_ok_collect refs) auto
  next
    case stop_listener
    show ?thesis by (rule objects_ok_stop_listener [OF assms(1) ok stop_listener(1)])
  next
    case (dispatch_null fd rest)
    show ?thesis by (rule objects_ok_dispatch_null [OF assms(1) ok dispatch_null(1)])
  next
    case peer_close
    with assms(3) show ?thesis by simp
  qed (use inv(2-4,12) ending in \<open>auto intro!: objects_ok_move [OF ok] refs simp: live_def\<close>)
qed

text \<open>An object that is alive keeps its descriptor watched when the others are destroyed.\<close>

lemma collect_watched:
  assumes "objects_weak s" and "sl_objs s a = Some fd" and "a \<in> live s"
  shows "fd \<in> sl_watched (collect s) \<longleftrightarrow> fd \<in> sl_watched s"
proof -
  have "\<not> (\<exists>b. sl_objs s b = Some fd \<and> b \<notin> live s)"
    using objects_weakD(5) [OF assms(1,2)] assms(3) by blast
  then show ?thesis by (simp add: collect_def Let_def)
qed

lemma collect_watched_subset: "sl_watched (collect s) \<subseteq> sl_watched s"
  by (auto simp: collect_def Let_def)

lemma service_okI:
  assumes "distinct (sl_active s)"
    and "\<And>fd a. (fd, a) \<in> set (sl_active s) \<Longrightarrow> fd \<notin> sl_watched s"
    and "\<And>fd a. (fd, a) \<in> set (sl_active s) \<Longrightarrow> fd \<notin> set (pending s)"
    and "\<And>fd a. sl_conns s fd = Some (Some a) \<Longrightarrow> fd \<in> sl_watched s \<or> (fd, a) \<in> set (sl_active s)"
    and "\<And>fd a rest. sl_pos s = Accepted fd a rest \<Longrightarrow> fd \<in> sl_watched s"
    and "distinct (pending s)"
  shows "service_ok s"
  using assms unfolding service_ok_def by (intro conjI allI impI)

lemma service_okD:
  assumes "service_ok s"
  shows "distinct (sl_active s)"
    and "(fd, a) \<in> set (sl_active s) \<Longrightarrow> fd \<notin> sl_watched s"
    and "(fd, a) \<in> set (sl_active s) \<Longrightarrow> fd \<notin> set (pending s)"
    and "sl_conns s fd = Some (Some a) \<Longrightarrow> fd \<in> sl_watched s \<or> (fd, a) \<in> set (sl_active s)"
    and "sl_pos s = Accepted fd a rest \<Longrightarrow> fd \<in> sl_watched s"
    and "distinct (pending s)"
  using assms unfolding service_ok_def by - (elim conjE, blast)+

lemma service_ok_collect:
  assumes "objects_weak s" and "service_ok s"
  shows "service_ok (collect s)"
proof (rule service_okI)
  note inv = service_okD [OF assms(2)]
  show "fd \<notin> sl_watched (collect s)" if "(fd, a) \<in> set (sl_active (collect s))" for fd a
    using inv(2) that collect_watched_subset by auto
  show "fd \<in> sl_watched (collect s) \<or> (fd, a) \<in> set (sl_active (collect s))"
    if "sl_conns (collect s) fd = Some (Some a)" for fd a
    using inv(4) [of fd a] that collect_watched [OF assms(1) objects_weakD(2) [OF assms(1)] live_refs(1), of fd a]
    by simp
  show "fd \<in> sl_watched (collect s)" if "sl_pos (collect s) = Accepted fd a rest" for fd a rest
    using inv(5) [of fd a rest] that
      collect_watched [OF assms(1) objects_weakD(4) [OF assms(1)] live_refs(3), of fd a rest] by simp
qed (use service_okD [OF assms(2)] in auto)

lemma service_ok_accept:
  assumes "loop_step ev s s'" and "objects_ok s" and srv: "service_ok s" and ev: "ev = (Accept n)"
  shows "service_ok s'"
proof -
  have weak: "objects_weak s" using assms(2) by (simp add: objects_ok_def)
  note obj = objects_weakD [OF weak] and inv = service_okD [OF srv] and refs = objects_weak_refs [OF weak]
  have ending: "set (sl_ending s) \<subseteq> dom (sl_objs s)" using obj(1) by (auto simp: live_def)
  have open_fd: "fd \<in> sl_open s" if "(fd, a) \<in> set (sl_active s)" for fd a
    using obj(3) [OF that] obj(9) by blast
  show ?thesis
    using assms(1)
  proof (cases rule: loop_step.cases)
    case (accept rest fd)
    show ?thesis
    proof (rule service_okI, goal_cases)
      case (2 fd' a)
      then show ?case using inv(2) [of fd' a] open_fd [of fd' a] accept by auto
    next
      case (3 fd' a)
      then show ?case using inv(3) [of fd' a] accept by (simp add: pending_def)
    next
      case (4 fd' a)
      then show ?case using inv(4) [of fd' a] accept by auto
    qed (use inv(1,6) accept in \<open>auto simp: pending_def\<close>)
  qed (use ev in simp_all)
qed

lemma service_ok_dispatch:
  assumes "loop_step ev s s'" and "objects_ok s" and srv: "service_ok s" and ev: "ev = Dispatch"
  shows "service_ok s'"
proof -
  have weak: "objects_weak s" using assms(2) by (simp add: objects_ok_def)
  note obj = objects_weakD [OF weak] and inv = service_okD [OF srv] and refs = objects_weak_refs [OF weak]
  have ending: "set (sl_ending s) \<subseteq> dom (sl_objs s)" using obj(1) by (auto simp: live_def)
  have open_fd: "fd \<in> sl_open s" if "(fd, a) \<in> set (sl_active s)" for fd a
    using obj(3) [OF that] obj(9) by blast
  show ?thesis
    using assms(1)
  proof (cases rule: loop_step.cases)
    case (dispatch fd rest a)
    have "(fd, b) \<notin> set (sl_active s)" for b
      using inv(3) [of fd b] dispatch(3) by (auto simp: pending_def)
    moreover have "b = a" if "sl_conns s fd = Some (Some b)" for b using that dispatch(5) by simp
    moreover have "g \<in> sl_watched s - {fd} \<or> (g, b) \<in> set (sl_active s @ [(fd, a)])"
      if "sl_conns s g = Some (Some b)" for g b
      using inv(4) [OF that] that dispatch(5) by auto
    ultimately show ?thesis
      using inv(1-3,6) dispatch by (intro service_okI) (auto simp: pending_def)
  qed (use ev in simp_all)
qed

lemma service_ok_rearmed:
  assumes "loop_step ev s s'" and "objects_ok s" and srv: "service_ok s" and ev: "ev = (Served n x Rearmed)"
  shows "service_ok s'"
proof -
  have weak: "objects_weak s" using assms(2) by (simp add: objects_ok_def)
  note obj = objects_weakD [OF weak] and inv = service_okD [OF srv] and refs = objects_weak_refs [OF weak]
  have ending: "set (sl_ending s) \<subseteq> dom (sl_objs s)" using obj(1) by (auto simp: live_def)
  have open_fd: "fd \<in> sl_open s" if "(fd, a) \<in> set (sl_active s)" for fd a
    using obj(3) [OF that] obj(9) by blast
  show ?thesis
    using assms(1)
  proof (cases rule: loop_step.cases)
    case (rearmed fd a)
    have other: "(fd, b) \<notin> set (remove1 (fd, a) (sl_active s))" for b
      using obj(3,5) rearmed(3) inv(1) by (metis in_removed option.inject set_remove1_eq Diff_iff singletonI)
    show ?thesis
    proof (rule service_okI, goal_cases)
      case (2 g b)
      then show ?case using rearmed inv(2) [of g b] other [of b] by (auto dest: in_removed)
    next
      case (3 g b)
      then show ?case using rearmed inv(3) [of g b] by (auto simp: pending_def dest: in_removed)
    next
      case (4 g b)
      then show ?case using rearmed inv(4) [of g b] open_fd [of fd a] by (cases "(g, b) = (fd, a)") auto
    qed (use inv(1,5,6) rearmed in \<open>auto simp: pending_def\<close>)
  qed (use ev in simp_all)
qed

lemma service_ok_erased:
  assumes "loop_step ev s s'" and "objects_ok s" and srv: "service_ok s" and ev: "ev = (Served n x Erased)"
  shows "service_ok s'"
proof -
  have weak: "objects_weak s" using assms(2) by (simp add: objects_ok_def)
  note obj = objects_weakD [OF weak] and inv = service_okD [OF srv] and refs = objects_weak_refs [OF weak]
  have ending: "set (sl_ending s) \<subseteq> dom (sl_objs s)" using obj(1) by (auto simp: live_def)
  have open_fd: "fd \<in> sl_open s" if "(fd, a) \<in> set (sl_active s)" for fd a
    using obj(3) [OF that] obj(9) by blast
  show ?thesis
    using assms(1)
  proof (cases rule: loop_step.cases)
    case (erased fd a)
    let ?s = "s\<lparr>sl_active := remove1 (fd, a) (sl_active s), sl_ending := a # sl_ending s,
      sl_conns := (sl_conns s)(fd := None)\<rparr>"
    have "objects_weak ?s"
      using obj(2-4,12) ending erased(3) by (intro refs) (auto dest: in_removed split: if_splits)
    moreover have "service_ok ?s"
    proof (rule service_okI, goal_cases)
      case (4 g b)
      then show ?case using inv(4) [of g b] by (auto split: if_splits)
    qed (use inv(1-3,5,6) in \<open>auto simp: pending_def dest: in_removed\<close>)
    ultimately show ?thesis unfolding erased by (rule service_ok_collect)
  qed (use ev in simp_all)
qed

lemma service_ok_insert:
  assumes "loop_step ev s s'" and "objects_ok s" and srv: "service_ok s" and ev: "ev = Insert"
  shows "service_ok s'"
proof -
  have weak: "objects_weak s" using assms(2) by (simp add: objects_ok_def)
  note obj = objects_weakD [OF weak] and inv = service_okD [OF srv] and refs = objects_weak_refs [OF weak]
  have ending: "set (sl_ending s) \<subseteq> dom (sl_objs s)" using obj(1) by (auto simp: live_def)
  have open_fd: "fd \<in> sl_open s" if "(fd, a) \<in> set (sl_active s)" for fd a
    using obj(3) [OF that] obj(9) by blast
  show ?thesis
    using assms(1)
  proof (cases rule: loop_step.cases)
    case (insert fd a rest)
    let ?s = "s\<lparr>sl_pos := Batch rest, sl_conns := (sl_conns s)(fd \<mapsto> Some a)\<rparr>"
    have "objects_weak ?s"
      using obj(2-4,12) ending insert(3) by (intro refs) (auto split: if_splits)
    moreover have "service_ok ?s"
    proof (rule service_okI, goal_cases)
      case (4 g b)
      then show ?case using inv(4) [of g b] inv(5) [OF insert(3)] by (auto split: if_splits)
    qed (use inv(1-3,6) insert(3) in \<open>auto simp: pending_def\<close>)
    ultimately show ?thesis unfolding insert by (rule service_ok_collect)
  qed (use ev in simp_all)
qed

lemma service_ok_stop_listener:
  assumes "loop_step ev s s'" and "objects_ok s" and srv: "service_ok s" and ev: "ev = Stop_listener"
  shows "service_ok s'"
proof -
  have weak: "objects_weak s" using assms(2) by (simp add: objects_ok_def)
  note obj = objects_weakD [OF weak] and inv = service_okD [OF srv] and refs = objects_weak_refs [OF weak]
  have ending: "set (sl_ending s) \<subseteq> dom (sl_objs s)" using obj(1) by (auto simp: live_def)
  have open_fd: "fd \<in> sl_open s" if "(fd, a) \<in> set (sl_active s)" for fd a
    using obj(3) [OF that] obj(9) by blast
  show ?thesis
    using assms(1)
  proof (cases rule: loop_step.cases)
    case stop_listener
    show ?thesis
    proof (rule service_okI, goal_cases)
      case (4 g b)
      then show ?case using inv(4) [of g b] obj(2) [of g b] obj(8) [of b g] stop_listener by auto
    next
      case (5 g b rest)
      then show ?case using inv(5) [of g b rest] obj(4) [of g b rest] obj(8) [of b g] stop_listener by auto
    qed (use inv(1-3,6) stop_listener in \<open>auto simp: pending_def\<close>)
  qed (use ev in simp_all)
qed

lemma service_ok_step:
  assumes "loop_step ev s s'" and "objects_ok s" and srv: "service_ok s" and "\<forall>fd a. ev \<noteq> Peer_close fd a"
  shows "service_ok s'"
proof -
  have weak: "objects_weak s" using assms(2) by (simp add: objects_ok_def)
  note obj = objects_weakD [OF weak] and inv = service_okD [OF srv]
  have ending: "set (sl_ending s) \<subseteq> dom (sl_objs s)" using obj(1) by (auto simp: live_def)
  note refs = objects_weak_refs [OF weak]
  have open_fd: "fd \<in> sl_open s" if "(fd, a) \<in> set (sl_active s)" for fd a
    using obj(3) [OF that] obj(9) by blast
  show ?thesis
    using assms(1)
  proof (cases rule: loop_step.cases)
    case (accept rest fd)
    show ?thesis by (rule service_ok_accept [OF assms(1) assms(2) srv accept(1)])
  next
    case (dispatch fd rest a)
    show ?thesis by (rule service_ok_dispatch [OF assms(1) assms(2) srv dispatch(1)])
  next
    case (rearmed fd a)
    show ?thesis by (rule service_ok_rearmed [OF assms(1) assms(2) srv rearmed(1)])
  next
    case (erased fd a)
    show ?thesis by (rule service_ok_erased [OF assms(1) assms(2) srv erased(1)])
  next
    case (accept_throws fd a rest)
    have "objects_weak (s\<lparr>sl_pos := Thrown\<rparr>)"
      using obj(2-4,12) ending by (intro refs) auto
    moreover have "service_ok (s\<lparr>sl_pos := Thrown\<rparr>)"
      using srv by (simp add: service_ok_def pending_def)
    ultimately show ?thesis unfolding accept_throws by (rule service_ok_collect)
  next
    case (insert fd a rest)
    show ?thesis by (rule service_ok_insert [OF assms(1) assms(2) srv insert(1)])
  next
    case (ended a)
    have "objects_weak (s\<lparr>sl_ending := remove1 a (sl_ending s)\<rparr>)"
      using obj(2-4,12) ending by (intro refs) (auto dest: in_removed)
    moreover have "service_ok (s\<lparr>sl_ending := remove1 a (sl_ending s)\<rparr>)"
      using srv by (simp add: service_ok_def pending_def)
    ultimately show ?thesis unfolding ended by (rule service_ok_collect)
  next
    case stop_clear
    have "objects_weak (s\<lparr>sl_stop := 3, sl_conns := Map.empty\<rparr>)"
      using obj(2-4,12) ending by (intro refs) auto
    moreover have "service_ok (s\<lparr>sl_stop := 3, sl_conns := Map.empty\<rparr>)"
      using srv by (simp add: service_ok_def pending_def)
    ultimately show ?thesis unfolding stop_clear by (rule service_ok_collect)
  next
    case stop_listener
    show ?thesis by (rule service_ok_stop_listener [OF assms(1) assms(2) srv stop_listener(1)])
  next
    case peer_close
    with assms(4) show ?thesis by simp
  qed (use srv in \<open>auto simp: service_ok_def pending_def\<close>)
qed

lemma started_ok: "l \<noteq> -1 \<Longrightarrow> objects_ok (started l) \<and> service_ok (started l)"
  by (auto simp: objects_ok_def service_ok_def objects_weak_def started_def live_def pending_def)

definition no_early_close :: "loop_event list \<Rightarrow> bool" where
  "no_early_close evs \<longleftrightarrow> (\<forall>fd a. Peer_close fd a \<notin> set evs)"

lemma run_ok:
  assumes "loop_run (started l) evs s" and "l \<noteq> -1" and "no_early_close evs"
  shows "objects_ok s \<and> service_ok s"
proof (rule run_invariant [OF assms(1), where allowed = "\<lambda>ev. \<forall>fd a. ev \<noteq> Peer_close fd a"])
  show "list_all (\<lambda>ev. \<forall>fd a. ev \<noteq> Peer_close fd a) evs"
    using assms(3) by (auto simp: no_early_close_def list_all_iff)
qed (use assms(2) started_ok objects_ok_step service_ok_step in blast)+

lemma filter_single: "distinct xs \<Longrightarrow> x \<in> set xs \<Longrightarrow> filter (\<lambda>y. y = x) xs = [x]"
proof (induction xs)
  case (Cons z zs)
  then show ?case by (cases "z = x") (auto simp: filter_empty_conv)
qed simp

subsection \<open>Sample runs\<close>

text \<open>One client is accepted as descriptor 5 and sends a request.\<close>

definition sample_loop :: "position \<Rightarrow> (int \<rightharpoonup> nat option) \<Rightarrow> int set \<Rightarrow> int set \<Rightarrow> (nat \<rightharpoonup> int) \<Rightarrow> nat \<Rightarrow> (int \<times> nat) list \<Rightarrow> server_loop" where
  "sample_loop pos conns watched opened objs nxt active =
     \<lparr>sl_pos = pos, sl_running = True, sl_listener = 3, sl_conns = conns, sl_watched = watched, sl_open = opened,
      sl_objs = objs, sl_next = nxt, sl_active = active, sl_ending = [], sl_stop = 0\<rparr>"

lemmas sample_loop_step = loop_step_simps sample_loop_def started_def collect_def live_def Let_def

definition first_request :: "loop_event list" where
  "first_request = [Loop_sleep, Ready [3], Accept 5, Insert, Loop_sleep, Ready [5], Dispatch]"

lemma first_request_run:
  "loop_run (started 3) first_request (sample_loop (Batch []) [5 \<mapsto> Some 0] {3} {3, 5} [0 \<mapsto> 5] 1 [(5, 0)])"
proof -
  let ?s = "\<lambda>pos. sample_loop pos Map.empty {3} {3} Map.empty 0 []"
  let ?t = "\<lambda>pos. sample_loop pos [5 \<mapsto> Some 0] {3, 5} {3, 5} [0 \<mapsto> 5] 1 []"
  have "loop_run (started 3) [] (?s (Batch []))"
    using run_of.Start [of loop_step "started 3"] by (simp add: started_def sample_loop_def)
  then have "loop_run (started 3) [Loop_sleep] (?s Asleep)"
    by (rule run_snoc) (simp_all add: sample_loop_step)
  then have "loop_run (started 3) [Loop_sleep, Ready [3]] (?s (Batch [3]))"
    by (rule run_snoc) (simp_all add: sample_loop_step)
  then have "loop_run (started 3) [Loop_sleep, Ready [3], Accept 5]
      (sample_loop (Accepted 5 0 []) Map.empty {3, 5} {3, 5} [0 \<mapsto> 5] 1 [])"
    by (rule run_snoc) (auto simp: sample_loop_step)
  then have "loop_run (started 3) [Loop_sleep, Ready [3], Accept 5, Insert] (?t (Batch []))"
    by (rule run_snoc) (auto simp: sample_loop_step restrict_map_def)
  then have "loop_run (started 3) [Loop_sleep, Ready [3], Accept 5, Insert, Loop_sleep] (?t Asleep)"
    by (rule run_snoc) (simp_all add: sample_loop_step)
  then have "loop_run (started 3) [Loop_sleep, Ready [3], Accept 5, Insert, Loop_sleep, Ready [5]] (?t (Batch [5]))"
    by (rule run_snoc) (simp_all add: sample_loop_step)
  then show ?thesis
    unfolding first_request_def by (rule run_snoc) (auto simp: sample_loop_step)
qed

text \<open>The handler closes the connection before it returns, and a second client is accepted.\<close>

definition reused :: "loop_event list" where
  "reused = first_request @ [Peer_close 5 0, Loop_sleep, Ready [3], Accept 5, Insert]"

lemma reused_run:
  "loop_run (started 3) reused
     (sample_loop (Batch []) [5 \<mapsto> Some 1] {3, 5} {3, 5} [0 \<mapsto> -1, 1 \<mapsto> 5] 2 [(5, 0)])"
proof -
  let ?s = "\<lambda>pos. sample_loop pos [5 \<mapsto> Some 0] {3} {3} [0 \<mapsto> -1] 1 [(5, 0)]"
  have "loop_run (started 3) (first_request @ [Peer_close 5 0]) (?s (Batch []))"
    by (rule run_snoc [OF first_request_run]) (auto simp: sample_loop_step)
  then have "loop_run (started 3) (first_request @ [Peer_close 5 0, Loop_sleep]) (?s Asleep)"
    by (rule run_snoc) (simp_all add: sample_loop_step)
  then have "loop_run (started 3) (first_request @ [Peer_close 5 0, Loop_sleep, Ready [3]]) (?s (Batch [3]))"
    by (rule run_snoc) (simp_all add: sample_loop_step)
  then have "loop_run (started 3) (first_request @ [Peer_close 5 0, Loop_sleep, Ready [3], Accept 5])
      (sample_loop (Accepted 5 1 []) [5 \<mapsto> Some 0] {3, 5} {3, 5} [0 \<mapsto> -1, 1 \<mapsto> 5] 2 [(5, 0)])"
    by (rule run_snoc) (auto simp: sample_loop_step)
  then show ?thesis
    unfolding reused_def by (rule run_snoc) (auto simp: sample_loop_step restrict_map_def fun_eq_iff)
qed

subsection \<open>Properties\<close>

text \<open>C39. Closing a connection early can cost another client its connection: when the handler of
  a WebSocket closes descriptor 5 and the number is given to a new client before the handler
  returns, the worker then erases the entry of descriptor 5, which is the new client's, and with
  it closes a connection that nobody has served.\<close>

theorem early_close_drops_next_client:
  "\<exists>evs s s'. loop_run (started 3) evs s \<and> sl_conns s 5 = Some (Some 1) \<and> 5 \<in> sl_watched s
     \<and> sl_active s = [(5, 0)] \<and> loop_step (Served 5 0 Erased) s s'
     \<and> sl_conns s' 5 = None \<and> 5 \<notin> sl_open s' \<and> 1 \<notin> dom (sl_objs s')"
proof -
  let ?s = "sample_loop (Batch []) [5 \<mapsto> Some 1] {3, 5} {3, 5} [0 \<mapsto> -1, 1 \<mapsto> 5] 2 [(5, 0)]"
  let ?s' = "collect (?s\<lparr>sl_active := remove1 (5, 0) (sl_active ?s), sl_ending := 0 # sl_ending ?s,
      sl_conns := (sl_conns ?s)(5 := None)\<rparr>)"
  have "loop_step (Served 5 0 Erased) ?s ?s'"
    by (rule loop_step.erased) (simp add: sample_loop_def)
  moreover have "live ?s' = {0}" by (auto simp: live_def sample_loop_def)
  then have "5 \<notin> sl_open ?s'" "1 \<notin> dom (sl_objs ?s')"
    by (auto simp: sample_loop_def collect_def Let_def live_def)
  ultimately show ?thesis
    using reused_run by (intro exI [of _ reused] exI [of _ ?s] exI [of _ ?s'] conjI)
      (simp_all add: sample_loop_def)
qed

text \<open>C10. Every connection is served by one worker at a time: unless a handler closes a
  connection before its request is done, no descriptor ever has two tasks at work, and while one
  is at work the descriptor is neither watched nor among the events still to be handled, so that
  the requests of a connection are handled one after the other.\<close>

theorem one_worker_per_connection:
  assumes "loop_run (started l) evs s" and "l \<noteq> -1" and "no_early_close evs"
    and "(fd, a) \<in> set (sl_active s)"
  shows "filter (\<lambda>t. fst t = fd) (sl_active s) = [(fd, a)] \<and> fd \<notin> sl_watched s \<and> fd \<notin> set (pending s)"
proof -
  have ok: "objects_weak s" "service_ok s" using run_ok [OF assms(1-3)] by (simp_all add: objects_ok_def)
  have uniq: "b = a" if "(fd, b) \<in> set (sl_active s)" for b
    by (rule objects_weakD(5) [OF ok(1) objects_weakD(3) [OF ok(1) that] objects_weakD(3) [OF ok(1) assms(4)]])
  have "fst t = fd \<longleftrightarrow> t = (fd, a)" if "t \<in> set (sl_active s)" for t
    using uniq [of "snd t"] that by (cases t) auto
  then have "filter (\<lambda>t. fst t = fd) (sl_active s) = filter (\<lambda>t. t = (fd, a)) (sl_active s)"
    by (rule filter_cong [OF refl])
  then show ?thesis
    using filter_single [OF service_okD(1) [OF ok(2)] assms(4)] service_okD(2,3) [OF ok(2) assms(4)] by simp
qed

text \<open>C11. The server loses no connection and leaks no descriptor: unless a handler closes a
  connection early, every connection in the map is watched for its next request or being served,
  the open descriptors are those of the listener and of the connection objects, each with its
  own, and every object is still referred to.\<close>

theorem connections_accounted:
  assumes "loop_run (started l) evs s" and "l \<noteq> -1" and "no_early_close evs"
  shows "(\<forall>fd a. sl_conns s fd = Some (Some a) \<longrightarrow>
      sl_objs s a = Some fd \<and> (fd \<in> sl_watched s \<or> (fd, a) \<in> set (sl_active s)))
    \<and> (\<forall>fd. fd \<in> sl_open s \<longleftrightarrow> fd \<noteq> -1 \<and> (fd = sl_listener s \<or> (\<exists>!a. sl_objs s a = Some fd)))
    \<and> dom (sl_objs s) = live s"
proof (intro conjI allI impI)
  have ok: "objects_weak s" "dom (sl_objs s) \<subseteq> live s" "service_ok s"
    using run_ok [OF assms] by (simp_all add: objects_ok_def)
  note inv = objects_weakD [OF ok(1)]
  show "sl_objs s a = Some fd" "fd \<in> sl_watched s \<or> (fd, a) \<in> set (sl_active s)"
    if "sl_conns s fd = Some (Some a)" for fd a
    using inv(2) service_okD(4) [OF ok(3)] that by blast+
  show "fd \<in> sl_open s \<longleftrightarrow> fd \<noteq> -1 \<and> (fd = sl_listener s \<or> (\<exists>!a. sl_objs s a = Some fd))" for fd
  proof -
    have "(\<exists>!a. sl_objs s a = Some fd) \<longleftrightarrow> (\<exists>a. sl_objs s a = Some fd)" using inv(5) by blast
    moreover have "fd \<in> sl_open s \<longleftrightarrow> (\<exists>a. sl_objs s a = Some fd) \<or> fd = sl_listener s \<and> fd \<noteq> -1"
      using inv(9-11) by blast
    ultimately show ?thesis using inv(7) by blast
  qed
  show "dom (sl_objs s) = live s" using ok(2) inv(1) by blast
qed

text \<open>Stopping does not end the loop: when \<open>stop\<close> has run while the loop waits, and all tasks
  are done and all connections gone, nothing is watched any more, so that no step is left but a
  signal, and \<open>start\<close> does not return on its own.\<close>

theorem stop_leaves_loop_asleep:
  assumes "loop_run (started l) evs s" and "l \<noteq> -1" and "no_early_close evs"
    and "sl_stop s = 3" and "sl_pos s = Asleep" and "sl_active s = []" and "sl_ending s = []"
    and "\<forall>fd a. sl_conns s fd \<noteq> Some (Some a)"
  shows "loop_step ev s s' \<longleftrightarrow> ev = Interrupt \<and> s' = s\<lparr>sl_pos := Batch []\<rparr>"
proof -
  have weak: "objects_weak s" "dom (sl_objs s) \<subseteq> live s" using run_ok [OF assms(1-3)] by (simp_all add: objects_ok_def)
  have listener: "2 \<le> sl_stop s \<longrightarrow> sl_listener s = -1"
    using assms(1)
    by (induction rule: run_of.induct)
      (auto simp: started_def elim!: loop_step.cases)
  have "live s = {}" using assms(5-8) by (simp add: live_def)
  with weak(2) have "sl_objs s = Map.empty" by auto
  then have "sl_open s = {}" using objects_weakD(10) [OF weak(1)] listener assms(4) by fastforce
  then have "sl_watched s = {}" using objects_weakD(12) [OF weak(1)] by simp
  then show ?thesis
    using assms(4-7) by (auto elim!: loop_step.cases intro: loop_step.interrupt)
qed

subsection \<open>Witnesses\<close>

lemma first_request_ok: "no_early_close first_request"
  by (simp add: no_early_close_def first_request_def)

theorem one_worker_per_connection_witness:
  "\<exists>s. loop_run (started 3) first_request s \<and> filter (\<lambda>t. fst t = 5) (sl_active s) = [(5, 0)] \<and> 5 \<notin> sl_watched s"
proof -
  have "(5, 0) \<in> set (sl_active (sample_loop (Batch []) [5 \<mapsto> Some 0] {3} {3, 5} [0 \<mapsto> 5] 1 [(5, 0)]))"
    by (simp add: sample_loop_def)
  from one_worker_per_connection [OF first_request_run _ first_request_ok this] first_request_run show ?thesis
    by (intro exI conjI) auto
qed

theorem connections_accounted_witness:
  "\<exists>s. loop_run (started 3) first_request s \<and> sl_conns s 5 = Some (Some 0)
     \<and> dom (sl_objs s) = live s \<and> 5 \<in> sl_open s"
proof -
  let ?s = "sample_loop (Batch []) [5 \<mapsto> Some 0] {3} {3, 5} [0 \<mapsto> 5] 1 [(5, 0)]"
  have "sl_conns ?s 5 = Some (Some 0)" "5 \<in> sl_open ?s" by (simp_all add: sample_loop_def)
  with connections_accounted [OF first_request_run _ first_request_ok] first_request_run show ?thesis
    by (intro exI [of _ ?s] conjI) auto
qed

text \<open>Stopping a server that has no connection and waits for one.\<close>

theorem stop_leaves_loop_asleep_witness:
  "\<exists>evs s. loop_run (started 3) evs s \<and> sl_stop s = 3 \<and> \<not> sl_running s \<and> sl_pos s = Asleep
     \<and> (\<forall>ev s'. loop_step ev s s' \<longrightarrow> ev = Interrupt)"
proof -
  let ?t = "\<lambda>l n. \<lparr>sl_pos = Asleep, sl_running = False, sl_listener = l, sl_conns = Map.empty,
      sl_watched = {l} - {-1}, sl_open = {l} - {-1}, sl_objs = Map.empty, sl_next = 0, sl_active = [],
      sl_ending = [], sl_stop = n\<rparr>"
  have "loop_run (started 3) [Loop_sleep] (sample_loop Asleep Map.empty {3} {3} Map.empty 0 [])"
    by (rule run_snoc [OF run_of.Start]) (simp_all add: sample_loop_step)
  then have "loop_run (started 3) [Loop_sleep, Stop_flag] (?t 3 1)"
    by (rule run_snoc) (simp_all add: sample_loop_step)
  then have "loop_run (started 3) [Loop_sleep, Stop_flag, Stop_listener] (?t (-1) 2)"
    by (rule run_snoc) (simp_all add: sample_loop_step)
  then have run: "loop_run (started 3) [Loop_sleep, Stop_flag, Stop_listener, Stop_clear] (?t (-1) 3)"
    by (rule run_snoc) (auto simp: sample_loop_step)
  have "no_early_close [Loop_sleep, Stop_flag, Stop_listener, Stop_clear]" by (simp add: no_early_close_def)
  from stop_leaves_loop_asleep [OF run _ this] run show ?thesis
    by (intro exI [of _ "[Loop_sleep, Stop_flag, Stop_listener, Stop_clear]"] exI [of _ "?t (-1) 3"]) auto
qed

end
