(* ===== verification/Sockets.thy ===== *)
theory Sockets
  imports Connection Config
begin

section \<open>Sockets and the event loop\<close>

text \<open>
  Models \<^verbatim>\<open>src/net/event_loop.cpp\<close>, \<^verbatim>\<open>src/net/tcp_listener.cpp\<close> and
  \<^verbatim>\<open>src/net/tcp_client.cpp\<close> with their headers, and the choice of the address in
  \<^verbatim>\<open>src/util/net_util.cpp\<close>. The state of the operating system is the set of open
  descriptors (see \<^verbatim>\<open>Connection\<close>), their status flags and what every epoll instance
  watches. What a system call answers is an argument: a call that opens a descriptor is given the
  number, and fails when the number is negative or in use.
\<close>

subsection \<open>The operating system\<close>

record os =
  os_net :: net
  os_flags :: "int \<Rightarrow> 32 word"
  os_epoll :: "int \<Rightarrow> int \<rightharpoonup> 32 word"

abbreviation os_open :: "os \<Rightarrow> int set" where
  "os_open s \<equiv> nt_open (os_net s)"

definition O_RDWR :: "32 word" where
  "O_RDWR = 2"

definition O_NONBLOCK :: "32 word" where
  "O_NONBLOCK = 0x800"

definition sys_open :: "int \<Rightarrow> os \<Rightarrow> int \<times> os" where
  "sys_open fd s =
     (if fd < 0 \<or> fd \<in> os_open s then (-1, s)
      else (fd, s\<lparr>os_net := (os_net s)\<lparr>nt_open := insert fd (os_open s)\<rparr>,
                  os_flags := (os_flags s)(fd := O_RDWR)\<rparr>))"

text \<open>Closing a descriptor also ends watching it, and ends an epoll instance.\<close>

definition os_close :: "int \<Rightarrow> os \<Rightarrow> os" where
  "os_close fd s =
     s\<lparr>os_net := sys_close fd (os_net s),
       os_epoll := (\<lambda>e. if e = fd then Map.empty else (os_epoll s e)(fd := None))\<rparr>"

lemma os_open_close [simp]: "os_open (os_close fd s) = os_open s - {fd}"
  by (simp add: os_close_def sys_close_def)

lemma sys_open_cases:
  assumes "sys_open n s = (fd, s')"
  obtains (failed) "fd = -1" "s' = s"
  | (opened) "fd = n" "0 \<le> fd" "fd \<notin> os_open s" "os_open s' = insert fd (os_open s)"
proof (cases "n < 0 \<or> n \<in> os_open s")
  case True
  with assms that(1) show ?thesis by (simp add: sys_open_def)
next
  case False
  then have "fd = n" and "os_open s' = insert fd (os_open s)"
    using assms by (auto simp: sys_open_def)
  with False that(2) show ?thesis by simp
qed

subsection \<open>The event loop\<close>

definition setNonBlocking :: "int \<Rightarrow> os \<Rightarrow> int \<times> os" where
  "setNonBlocking fd s =
     (if fd \<notin> os_open s then (-1, s)
      else
        let flags = os_flags s fd
        in if flags = -1 then (-1, s)
           else (0, s\<lparr>os_flags := (os_flags s)(fd := Bit_Operations.or flags O_NONBLOCK)\<rparr>))"

record event_loop =
  el_epfd :: int
  el_max_events :: int

definition EventLoop_new :: "int \<Rightarrow> int \<Rightarrow> os \<Rightarrow> event_loop result \<times> os" where
  "EventLoop_new answer max_events s =
     (case sys_open answer s of
        (epfd, s1) \<Rightarrow>
          if epfd = -1 then (Inl (Runtime_error ''epoll_create1 failed''), s1)
          else (Inr \<lparr>el_epfd = epfd, el_max_events = max_events\<rparr>, s1\<lparr>os_epoll := (os_epoll s1)(epfd := Map.empty)\<rparr>))"

definition EventLoop_destroy :: "event_loop \<Rightarrow> os \<Rightarrow> os" where
  "EventLoop_destroy l s = (if el_epfd l \<noteq> -1 then os_close (el_epfd l) s else s)"

definition el_add :: "event_loop \<Rightarrow> int \<Rightarrow> 32 word \<Rightarrow> os \<Rightarrow> int \<times> os" where
  "el_add l fd events s =
     (if {el_epfd l, fd} \<subseteq> os_open s \<and> fd \<noteq> el_epfd l \<and> os_epoll s (el_epfd l) fd = None
      then (0, s\<lparr>os_epoll := (os_epoll s)(el_epfd l := (os_epoll s (el_epfd l))(fd \<mapsto> events))\<rparr>)
      else (-1, s))"

definition el_remove :: "event_loop \<Rightarrow> int \<Rightarrow> os \<Rightarrow> int \<times> os" where
  "el_remove l fd s =
     (if {el_epfd l, fd} \<subseteq> os_open s \<and> os_epoll s (el_epfd l) fd \<noteq> None
      then (0, s\<lparr>os_epoll := (os_epoll s)(el_epfd l := (os_epoll s (el_epfd l))(fd := None))\<rparr>)
      else (-1, s))"

text \<open>
  Waiting: \<open>ready\<close> lists the descriptors something happened on, or nothing when a signal ends
  the wait; those that are watched are reported, as many as fit.
\<close>

definition el_wait :: "event_loop \<Rightarrow> int list option \<Rightarrow> os \<Rightarrow> int \<times> int list" where
  "el_wait l ready s =
     (if el_epfd l \<notin> os_open s \<or> el_max_events l \<le> 0 then (-1, [])
      else (case ready of
              None \<Rightarrow> (-1, [])
            | Some fds \<Rightarrow>
                let evs = take (nat (el_max_events l)) (filter (\<lambda>fd. os_epoll s (el_epfd l) fd \<noteq> None) fds)
                in (int (length evs), evs)))"

subsection \<open>Opening without leaks\<close>

text \<open>
  The contract of the functions that open something for their caller: they return it, new and
  held once, or nothing, and then nothing is left behind. A function that gives it back completes
  the contract.
\<close>

locale acquisition =
  fixes acquire :: "'e \<Rightarrow> 's \<Rightarrow> 'r option \<times> 's" and held :: "'s \<Rightarrow> 'r set"
  assumes acquire_none: "acquire e s = (None, s') \<Longrightarrow> held s' = held s"
    and acquire_some: "acquire e s = (Some r, s') \<Longrightarrow> r \<notin> held s \<and> held s' = insert r (held s)"

fun acquire_each :: "('e \<Rightarrow> 's \<Rightarrow> 'r option \<times> 's) \<Rightarrow> 'e list \<Rightarrow> 's \<Rightarrow> 'r list \<times> 's" where
  "acquire_each acquire [] s = ([], s)"
| "acquire_each acquire (e # es) s =
     (case acquire e s of
        (r, s1) \<Rightarrow> (case acquire_each acquire es s1 of (rs, s2) \<Rightarrow> (case r of None \<Rightarrow> rs | Some x \<Rightarrow> x # rs, s2)))"

context acquisition begin

lemma acquire_each_held:
  "acquire_each acquire es s = (rs, s') \<Longrightarrow> distinct rs \<and> set rs \<inter> held s = {} \<and> held s' = held s \<union> set rs"
proof (induction es arbitrary: s rs)
  case (Cons e es)
  obtain r s1 where first: "acquire e s = (r, s1)" by fastforce
  obtain rs1 where rest: "acquire_each acquire es s1 = (rs1, s')"
    and rs: "rs = (case r of None \<Rightarrow> rs1 | Some x \<Rightarrow> x # rs1)"
    using Cons.prems by (auto simp: first split: prod.splits)
  show ?case
    using Cons.IH [OF rest] acquire_none [of e s s1] acquire_some [of e s _ s1] first rs by (cases r) auto
qed simp

lemma acquire_each_origin:
  "acquire_each acquire es s = (rs, s') \<Longrightarrow> r \<in> set rs \<Longrightarrow> \<exists>e t t'. acquire e t = (Some r, t')"
proof (induction es arbitrary: s rs)
  case (Cons e es)
  then show ?case by (auto split: prod.splits option.splits) metis
qed simp

end

locale managed = acquisition +
  fixes release :: "'r \<Rightarrow> 's \<Rightarrow> 's"
  assumes release_held: "acquire e t = (Some r, t') \<Longrightarrow> held (release r s) = held s - {r}"
begin

lemma fold_release:
  "\<forall>r \<in> set rs. \<exists>e t t'. acquire e t = (Some r, t') \<Longrightarrow> held (fold release rs s) = held s - set rs"
  by (induction rs arbitrary: s) (auto simp: release_held)

lemma balanced:
  assumes "acquire_each acquire es s = (rs, s')"
  shows "held (fold release rs s') = held s"
proof -
  have "held (fold release rs s') = held s' - set rs"
    using acquire_each_origin [OF assms] by (intro fold_release) blast
  then show ?thesis using acquire_each_held [OF assms] by auto
qed

end

subsection \<open>The listener\<close>

type_synonym quad = "8 word \<times> 8 word \<times> 8 word \<times> 8 word"

text \<open>An IPv4 address in the dotted form in which the C library prints it.\<close>

fun dotted :: "quad \<Rightarrow> string" where
  "dotted (a, b, c, d) =
     show_nat (unat a) @ ''.'' @ show_nat (unat b) @ ''.'' @ show_nat (unat c) @ ''.'' @ show_nat (unat d)"

text \<open>What the calls of \<open>bind\<close> and \<open>connect\<close> answer; the address is what \<^verbatim>\<open>inet_pton\<close> reads.\<close>

record socket_env =
  se_socket :: int
  se_setsockopt :: int
  se_inet_pton :: "string \<Rightarrow> quad option"
  se_attach :: "quad \<times> nat \<Rightarrow> int"

record listener =
  ls_fd :: int
  ls_config :: config

definition new_listener :: "config \<Rightarrow> listener" where
  "new_listener cfg = \<lparr>ls_fd = -1, ls_config = cfg\<rparr>"

definition listener_bind :: "socket_env \<Rightarrow> listener \<Rightarrow> os \<Rightarrow> int \<times> listener \<times> os" where
  "listener_bind env l s =
     (case sys_open (se_socket env) s of
        (fd, s1) \<Rightarrow>
          let l1 = l\<lparr>ls_fd := fd\<rparr> in
          if fd = -1 then (-1, l1, s1)
          else
            let s2 = snd (setNonBlocking fd s1); failed = (-1, l1\<lparr>ls_fd := -1\<rparr>, os_close fd s2) in
            if se_setsockopt env = -1 then failed
            else
              (case se_inet_pton env (cfg_bind_addr (ls_config l)) of
                 None \<Rightarrow> failed
               | Some q \<Rightarrow>
                   let ret = se_attach env (q, cfg_port (ls_config l)) in
                   if ret = -1 then failed else (ret, l1, s2)))"

definition listener_listen :: "(int \<Rightarrow> int \<Rightarrow> int) \<Rightarrow> listener \<Rightarrow> int" where
  "listener_listen listen' l = listen' (ls_fd l) (cfg_max_connections (ls_config l))"

text \<open>A client that waits to be accepted: the descriptor it gets, its address and its port.\<close>

definition listener_accept :: "(int \<times> quad \<times> 16 word) option \<Rightarrow> listener \<Rightarrow> os \<Rightarrow> conn option \<times> os" where
  "listener_accept client l s =
     (if ls_fd l \<notin> os_open s then (None, s)
      else (case client of
              None \<Rightarrow> (None, s)
            | Some (n, q, port) \<Rightarrow>
                (case sys_open n s of
                   (client_fd, s1) \<Rightarrow>
                     if client_fd = -1 then (None, s1)
                     else (Some (new_conn client_fd (dotted q) port), snd (setNonBlocking client_fd s1)))))"

definition listener_close :: "listener \<Rightarrow> os \<Rightarrow> listener \<times> os" where
  "listener_close l s =
     (if ls_fd l \<noteq> -1 then (l\<lparr>ls_fd := -1\<rparr>, os_close (ls_fd l) s) else (l, s))"

subsection \<open>The client\<close>

record client =
  cl_fd :: int

definition new_client :: client where
  "new_client = \<lparr>cl_fd = -1\<rparr>"

definition client_connect :: "socket_env \<Rightarrow> string \<Rightarrow> nat \<Rightarrow> client \<Rightarrow> os \<Rightarrow> int \<times> client \<times> os" where
  "client_connect env ip port c s =
     (case sys_open (se_socket env) s of
        (fd, s1) \<Rightarrow>
          let c1 = c\<lparr>cl_fd := fd\<rparr>; failed = (-1, c1\<lparr>cl_fd := -1\<rparr>, os_close fd s1) in
          if fd = -1 then (-1, c1, s1)
          else
            (case se_inet_pton env ip of
               None \<Rightarrow> failed
             | Some q \<Rightarrow> if se_attach env (q, port) = -1 then failed else (0, c1, s1)))"

definition client_send :: "(int \<Rightarrow> string \<Rightarrow> int) \<Rightarrow> string \<Rightarrow> client \<Rightarrow> int" where
  "client_send send' data c = send' (cl_fd c) data"

definition client_recv :: "(int \<Rightarrow> nat \<Rightarrow> int \<times> string) \<Rightarrow> nat \<Rightarrow> client \<Rightarrow> int \<times> string" where
  "client_recv recv' len c = recv' (cl_fd c) len"

text \<open>The test is for 1, not for -1.\<close>

definition client_close :: "client \<Rightarrow> os \<Rightarrow> client \<times> os" where
  "client_close c s =
     (if cl_fd c \<noteq> 1 then (c\<lparr>cl_fd := -1\<rparr>, os_close (cl_fd c) s) else (c, s))"

subsection \<open>The contract holds\<close>

lemma setNonBlocking_open [simp]: "os_open (snd (setNonBlocking fd s)) = os_open s"
  by (simp add: setNonBlocking_def Let_def)

definition nonblocking :: "int \<Rightarrow> os \<Rightarrow> bool" where
  "nonblocking fd s \<longleftrightarrow> Bit_Operations.and (os_flags s fd) O_NONBLOCK = O_NONBLOCK"

lemma or_nonblock: "Bit_Operations.and (Bit_Operations.or x O_NONBLOCK) O_NONBLOCK = O_NONBLOCK"
  by (rule bit_eqI) (auto simp: bit_and_iff bit_or_iff)

lemma setNonBlocking_sets: "setNonBlocking fd s = (0, s') \<Longrightarrow> nonblocking fd s'"
  by (auto simp: setNonBlocking_def nonblocking_def or_nonblock Let_def split: if_splits)

lemma opened_nonblocking:
  assumes "sys_open n s = (fd, s1)" and "fd \<noteq> -1"
  shows "nonblocking fd (snd (setNonBlocking fd s1))"
proof -
  have "os_flags s1 fd = O_RDWR" "fd \<in> os_open s1"
    using assms by (auto simp: sys_open_def split: if_splits)
  then have "fst (setNonBlocking fd s1) = 0" by (simp add: setNonBlocking_def O_RDWR_def)
  then show ?thesis by (metis prod.collapse setNonBlocking_sets)
qed

text \<open>A bound listener, an accepted connection and a connected client, as what was opened.\<close>

definition bound :: "config \<Rightarrow> socket_env \<Rightarrow> os \<Rightarrow> int option \<times> os" where
  "bound cfg env s =
     (case listener_bind env (new_listener cfg) s of
        (ret, l, s') \<Rightarrow> (if ret = -1 then None else Some (ls_fd l), s'))"

definition accepted :: "listener \<Rightarrow> (int \<times> quad \<times> 16 word) option \<Rightarrow> os \<Rightarrow> int option \<times> os" where
  "accepted l client s =
     (case listener_accept client l s of (c, s') \<Rightarrow> (map_option cn_fd c, s'))"

definition connected :: "string \<Rightarrow> nat \<Rightarrow> socket_env \<Rightarrow> os \<Rightarrow> int option \<times> os" where
  "connected ip port env s =
     (case client_connect env ip port new_client s of
        (ret, c, s') \<Rightarrow> (if ret = -1 then None else Some (cl_fd c), s'))"

text \<open>The two outcomes of a call that opens: nothing, or one new descriptor.\<close>

definition opens :: "int \<Rightarrow> int option \<Rightarrow> os \<Rightarrow> os \<Rightarrow> bool" where
  "opens fd r s s' \<longleftrightarrow>
     (case r of
        None \<Rightarrow> fd = -1 \<and> os_open s' = os_open s
      | Some x \<Rightarrow> x = fd \<and> 0 \<le> fd \<and> fd \<notin> os_open s \<and> os_open s' = insert fd (os_open s))"

lemma opensI_failed: "os_open s' = os_open s \<Longrightarrow> opens (-1) None s s'"
  by (simp add: opens_def)

lemma opensI: "0 \<le> fd \<Longrightarrow> fd \<notin> os_open s \<Longrightarrow> os_open s' = insert fd (os_open s) \<Longrightarrow> opens fd (Some fd) s s'"
  by (simp add: opens_def)

lemma listener_bind_opens:
  assumes "listener_bind env l s = (ret, l', s')"
  shows "opens (ls_fd l') (if ret = -1 then None else Some (ls_fd l')) s s'
    \<and> (ret \<noteq> -1 \<longrightarrow> nonblocking (ls_fd l') s')"
proof -
  obtain fd s1 where socket: "sys_open (se_socket env) s = (fd, s1)" by fastforce
  from socket show ?thesis
  proof (cases rule: sys_open_cases)
    case failed
    with assms socket show ?thesis by (auto simp: listener_bind_def intro: opensI_failed)
  next
    case opened
    then have "fd \<noteq> -1" by simp
    have one: "opens (-1) None s (os_close fd (snd (setNonBlocking fd s1)))"
      and two: "opens fd (Some fd) s (snd (setNonBlocking fd s1))"
      using opened by (simp_all add: opens_def)
    note three = opened_nonblocking [OF socket \<open>fd \<noteq> -1\<close>]
    from assms \<open>fd \<noteq> -1\<close> consider "ret = -1" "ls_fd l' = -1" "s' = os_close fd (snd (setNonBlocking fd s1))"
      | "ret \<noteq> -1" "ls_fd l' = fd" "s' = snd (setNonBlocking fd s1)"
      by (auto simp: listener_bind_def socket Let_def split: if_splits option.splits)
    then show ?thesis by cases (simp_all add: one two three)
  qed
qed

lemma client_connect_opens:
  assumes "client_connect env ip port c s = (ret, c', s')"
  shows "opens (cl_fd c') (if ret = -1 then None else Some (cl_fd c')) s s'"
proof -
  obtain fd s1 where socket: "sys_open (se_socket env) s = (fd, s1)" by fastforce
  from socket show ?thesis
  proof (cases rule: sys_open_cases)
    case failed
    with assms socket show ?thesis by (auto simp: client_connect_def intro: opensI_failed)
  next
    case opened
    then have "fd \<noteq> -1" by simp
    from assms this consider "ret = -1" "cl_fd c' = -1" "s' = os_close fd s1"
      | "ret \<noteq> -1" "cl_fd c' = fd" "s' = s1"
      by (auto simp: client_connect_def socket Let_def split: if_splits option.splits)
    then show ?thesis using opened by cases (simp_all add: opens_def)
  qed
qed

lemma listener_accept_opens:
  assumes "listener_accept client l s = (c, s')"
  shows "opens (case c of None \<Rightarrow> -1 | Some c \<Rightarrow> cn_fd c) (map_option cn_fd c) s s'
    \<and> (\<forall>x. c = Some x \<longrightarrow> nonblocking (cn_fd x) s' \<and> cn_ssl x = None)"
proof (cases "ls_fd l \<in> os_open s \<and> client \<noteq> None")
  case True
  then obtain n q port where client: "client = Some (n, q, port)" "ls_fd l \<in> os_open s" by auto
  obtain fd s1 where answer: "sys_open n s = (fd, s1)" by fastforce
  from answer show ?thesis
  proof (cases rule: sys_open_cases)
    case failed
    with assms show ?thesis by (auto simp: listener_accept_def client answer intro: opensI_failed)
  next
    case opened
    then have "fd \<noteq> -1" by simp
    with assms have "c = Some (new_conn fd (dotted q) port)" "s' = snd (setNonBlocking fd s1)"
      by (simp_all add: listener_accept_def client answer)
    with opened opened_nonblocking [OF answer \<open>fd \<noteq> -1\<close>] show ?thesis
      by (simp add: opens_def new_conn_def)
  qed
next
  case False
  with assms have "c = None \<and> s' = s" by (cases client) (auto simp: listener_accept_def split: if_splits)
  then show ?thesis by (simp add: opens_def)
qed

lemma opens_acquires:
  "opens fd None s s' \<Longrightarrow> os_open s' = os_open s"
  "opens fd (Some r) s s' \<Longrightarrow> r \<notin> os_open s \<and> os_open s' = insert r (os_open s)"
  by (simp_all add: opens_def)

lemma bound_opens: "bound cfg env s = (r, s') \<Longrightarrow> \<exists>fd. opens fd r s s'"
  unfolding bound_def using listener_bind_opens [of env "new_listener cfg" s] by (cases "listener_bind env (new_listener cfg) s") auto

lemma accepted_opens: "accepted l client s = (r, s') \<Longrightarrow> \<exists>fd. opens fd r s s'"
  unfolding accepted_def using listener_accept_opens [of client l s] by (cases "listener_accept client l s") auto

lemma connected_opens: "connected ip port env s = (r, s') \<Longrightarrow> \<exists>fd. opens fd r s s'"
  unfolding connected_def using client_connect_opens [of env ip port new_client s] by (cases "client_connect env ip port new_client s") auto

lemma opens_nonneg: "opens fd (Some r) s s' \<Longrightarrow> r \<noteq> -1"
  by (auto simp: opens_def)

text \<open>
  Listeners and accepted connections are given back by their own functions. The client's is no
  such function: what it does with descriptor 1 breaks the law.
\<close>

interpretation binding: managed "bound cfg" os_open "\<lambda>fd s. snd (listener_close (new_listener cfg\<lparr>ls_fd := fd\<rparr>) s)" for cfg
proof unfold_locales
  fix e t r t' s
  assume "bound cfg e t = (Some r, t')"
  then have "r \<noteq> -1" using bound_opens opens_nonneg by blast
  then show "os_open (snd (listener_close (new_listener cfg\<lparr>ls_fd := r\<rparr>) s)) = os_open s - {r}"
    by (simp add: listener_close_def)
qed (use bound_opens opens_acquires in blast)+

interpretation accepting: managed "accepted l" os_open os_close for l
  by unfold_locales (use accepted_opens opens_acquires in blast, use accepted_opens opens_acquires in blast, simp)

interpretation connecting: acquisition "connected ip port" os_open for ip port
  by unfold_locales (use connected_opens opens_acquires in blast)+

subsection \<open>The address of the machine\<close>

text \<open>
  The interfaces of the machine: the family and the address of each that has one. \<open>None\<close> is a
  failing \<^verbatim>\<open>getifaddrs\<close>.
\<close>

datatype family = AF_INET | Other_family

fun first_address :: "(family \<times> quad) option list \<Rightarrow> string" where
  "first_address [] = ''unknown''"
| "first_address (ifa # rest) =
     (case ifa of
        None \<Rightarrow> first_address rest
      | Some (family, q) \<Rightarrow>
          if family \<noteq> AF_INET then first_address rest
          else if dotted q = ''127.0.0.1'' then first_address rest
          else dotted q)"

definition getExternalIP :: "(family \<times> quad) option list option \<Rightarrow> string" where
  "getExternalIP ifaddr = (case ifaddr of None \<Rightarrow> ''unknown'' | Some ifas \<Rightarrow> first_address ifas)"

subsection \<open>Properties\<close>

text \<open>Opening sockets leaks nothing: however many listeners are bound, connections accepted and
  clients connected, and whichever of the system calls fail, the descriptors that are open
  afterwards are those from before and the ones the functions returned, each returned once; when
  these are closed, what is left is what was open before.\<close>

theorem sockets_accounted:
  assumes "acquire_each (bound cfg) binds s = (ls, s1)" and "acquire_each (accepted l) clients s1 = (cs, s2)"
    and "acquire_each (connected ip port) connects s2 = (outs, s3)"
  shows "distinct (ls @ cs @ outs) \<and> set (ls @ cs @ outs) \<inter> os_open s = {}
    \<and> os_open s3 = os_open s \<union> set (ls @ cs @ outs)
    \<and> os_open (fold os_close (ls @ cs @ outs) s3) = os_open s"
proof -
  have "os_open (fold os_close fds t) = os_open t - set fds" for fds t
    by (induction fds arbitrary: t) auto
  then show ?thesis
    using binding.acquire_each_held [OF assms(1)] accepting.acquire_each_held [OF assms(2)]
      connecting.acquire_each_held [OF assms(3)]
    by auto
qed

text \<open>Every connection the listener accepts is non-blocking, has no TLS object yet, and its
  descriptor, when the event loop adds it, is watched from then on.\<close>

theorem accepted_connections_watched:
  assumes "listener_accept client l s = (Some c, s1)" and "el_epfd ev \<in> os_open s"
    and "\<forall>fd. fd \<notin> os_open s \<longrightarrow> os_epoll s (el_epfd ev) fd = None" and "el_add ev (cn_fd c) events s1 = (ret, s2)"
  shows "nonblocking (cn_fd c) s2 \<and> cn_ssl c = None \<and> cn_fd c \<notin> os_open s \<and> ret = 0
    \<and> os_epoll s2 (el_epfd ev) = (os_epoll s (el_epfd ev))(cn_fd c \<mapsto> events)"
proof -
  have new: "cn_fd c \<notin> os_open s" "os_open s1 = insert (cn_fd c) (os_open s)"
    "nonblocking (cn_fd c) s1" "cn_ssl c = None"
    using listener_accept_opens [OF assms(1)] by (auto simp: opens_def)
  moreover have "os_epoll s1 = os_epoll s"
    using assms(1) by (auto simp: listener_accept_def setNonBlocking_def sys_open_def Let_def
      split: if_splits option.splits)
  ultimately show ?thesis
    using assms(2-4) by (auto simp: el_add_def nonblocking_def split: if_splits)
qed

text \<open>A client that connects again without closing first leaks its old descriptor: it stays
  open and the client no longer knows it. Closing gives back exactly what connecting opened,
  unless the descriptor is 1, which is never closed.\<close>

theorem client_leaks:
  assumes "client_connect env ip port c s = (ret, c', s')" and "ret \<noteq> -1" and "cl_fd c \<in> os_open s"
  shows "cl_fd c \<in> os_open s' \<and> cl_fd c' \<noteq> cl_fd c
    \<and> os_open (snd (client_close c' s')) = (if cl_fd c' = 1 then insert 1 (os_open s) else os_open s)
    \<and> cl_fd (fst (client_close c' s')) = (if cl_fd c' = 1 then 1 else -1)"
  using client_connect_opens [OF assms(1)] assms(2,3) by (auto simp: opens_def client_close_def)

text \<open>The address that is shown is the first IPv4 address other than 127.0.0.1.\<close>

lemma first_address_find:
  "first_address ifas =
     (case find (\<lambda>a. fst a = AF_INET \<and> dotted (snd a) \<noteq> ''127.0.0.1'') (List.map_filter id ifas) of
        None \<Rightarrow> ''unknown'' | Some a \<Rightarrow> dotted (snd a))"
  by (induction ifas rule: first_address.induct) (auto simp: List.map_filter_simps split: option.splits)

subsection \<open>Witnesses\<close>

text \<open>
  A machine with an epoll instance and a listener: the first client is accepted as descriptor 5,
  the second connection and the second bind fail.
\<close>

definition sample_os :: os where
  "sample_os = \<lparr>os_net = \<lparr>nt_open = {3, 4}, nt_ssl = {}\<rparr>, os_flags = (\<lambda>fd. O_RDWR), os_epoll = (\<lambda>e. Map.empty)\<rparr>"

definition sample_env :: "int \<Rightarrow> socket_env" where
  "sample_env n = \<lparr>se_socket = n, se_setsockopt = 0, se_inet_pton = (\<lambda>s. Some (0, 0, 0, 0)), se_attach = (\<lambda>a. 0)\<rparr>"

definition sample_listener :: listener where
  "sample_listener = \<lparr>ls_fd = 4, ls_config = default_config\<rparr>"

lemmas sample_sockets = sample_os_def sample_env_def sample_listener_def sys_open_def setNonBlocking_def O_RDWR_def
  os_close_def sys_close_def Let_def

theorem sockets_accounted_witness:
  "\<exists>s1 s2 s3. acquire_each (bound default_config) [sample_env 5, sample_env 5] sample_os = ([5], s1)
     \<and> acquire_each (accepted sample_listener) [Some (6, (127, 0, 0, 1), 80), None] s1 = ([6], s2)
     \<and> acquire_each (connected ''127.0.0.1'' 80) [sample_env 6, sample_env 7] s2 = ([7], s3)
     \<and> os_open (fold os_close ([5] @ [6] @ [7]) s3) = {3, 4}"
proof -
  obtain s1 where 1: "acquire_each (bound default_config) [sample_env 5, sample_env 5] sample_os = ([5], s1)"
      and o1: "os_open s1 = {3, 4, 5}"
    by (simp add: bound_def listener_bind_def new_listener_def sample_sockets) auto
  obtain s2 where 2: "acquire_each (accepted sample_listener) [Some (6, (127, 0, 0, 1), 80), None] s1 = ([6], s2)"
      and o2: "os_open s2 = {3, 4, 5, 6}"
    using o1 by (simp add: accepted_def listener_accept_def new_conn_def sample_sockets) auto
  obtain s3 where 3: "acquire_each (connected ''127.0.0.1'' 80) [sample_env 6, sample_env 7] s2 = ([7], s3)"
    using o2 by (simp add: connected_def client_connect_def new_client_def sample_sockets)
  from sockets_accounted [OF 1 2 3] 1 2 3 show ?thesis by (simp add: sample_os_def)
qed

theorem accepted_connections_watched_witness:
  "\<exists>c s1 s2. listener_accept (Some (5, (10, 0, 0, 1), 80)) sample_listener sample_os = (Some c, s1)
     \<and> el_add \<lparr>el_epfd = 3, el_max_events = 8\<rparr> 5 1 s1 = (0, s2) \<and> nonblocking 5 s2 \<and> cn_ip c = ''10.0.0.1''"
proof -
  let ?c = "new_conn 5 (dotted (10, 0, 0, 1)) 80" and ?ev = "\<lparr>el_epfd = 3, el_max_events = 8\<rparr>"
  obtain s1 where 1: "listener_accept (Some (5, (10, 0, 0, 1), 80)) sample_listener sample_os = (Some ?c, s1)"
    by (simp add: listener_accept_def sample_sockets)
  obtain ret s2 where 2: "el_add ?ev (cn_fd ?c) 1 s1 = (ret, s2)" by fastforce
  have ip: "dotted (10, 0, 0, 1) = ''10.0.0.1''" by code_simp
  have "el_epfd ?ev \<in> os_open sample_os" "\<forall>fd. fd \<notin> os_open sample_os \<longrightarrow> os_epoll sample_os (el_epfd ?ev) fd = None"
    by (simp_all add: sample_os_def)
  from accepted_connections_watched [OF 1 this 2] have "nonblocking 5 s2" "ret = 0"
    by (simp_all add: new_conn_def)
  moreover have "cn_fd ?c = 5" "cn_ip ?c = ''10.0.0.1''" by (simp_all only: new_conn_def conn.simps ip)
  ultimately show ?thesis using 1 2 by (intro exI [of _ ?c] exI [of _ s1] exI [of _ s2]) simp
qed

theorem client_leaks_witness:
  "\<exists>c' s'. client_connect (sample_env 1) ''127.0.0.1'' 80 \<lparr>cl_fd = 4\<rparr> sample_os = (0, c', s')
     \<and> os_open s' = {1, 3, 4} \<and> os_open (snd (client_close c' s')) = {1, 3, 4}"
proof -
  let ?c' = "\<lparr>cl_fd = 1\<rparr>"
  obtain s' where 1: "client_connect (sample_env 1) ''127.0.0.1'' 80 \<lparr>cl_fd = 4\<rparr> sample_os = (0, ?c', s')"
      and open': "os_open s' = {1, 3, 4}"
    by (simp add: client_connect_def sample_sockets)
  have "cl_fd \<lparr>cl_fd = 4\<rparr> \<in> os_open sample_os" by (simp add: sample_os_def)
  from client_leaks [OF 1 _ this] 1 open' show ?thesis by (intro exI [of _ ?c'] exI [of _ s']) (auto simp: sample_os_def)
qed

end
