(* ===== verification/Tls_Context.thy ===== *)
theory Tls_Context
  imports Sockets
begin

section \<open>The TLS context\<close>

text \<open>
  Models \<^verbatim>\<open>src/security/tls_context.cpp\<close> and its header: the constructor with its
  failing paths, \<open>wrap\<close>, moves and the destructor. Of the TLS library the model keeps which
  contexts are alive, with the lowest version of the protocol each accepts, and which TLS objects
  are alive (in \<open>net\<close>). Addresses of new objects and the results of the library's functions
  are arguments; an address that is in use stands for a failing allocation.
\<close>

record tls =
  tl_contexts :: "nat \<rightharpoonup> nat"
  tl_net :: net

text \<open>What the library answers to the constructor and to \<open>wrap\<close>.\<close>

record tls_env =
  te_address :: "nat option"
  te_chain :: "string \<Rightarrow> int"
  te_key :: "string \<Rightarrow> int"
  te_check :: int
  te_set_fd :: "int \<Rightarrow> int"

definition TLS1_VERSION :: nat where
  "TLS1_VERSION = 0x0301"

definition TLS1_3_VERSION :: nat where
  "TLS1_3_VERSION = 0x0304"

definition ctx_free :: "nat \<Rightarrow> tls \<Rightarrow> tls result" where
  "ctx_free c s =
     (if c \<in> dom (tl_contexts s) then Inr (s\<lparr>tl_contexts := (tl_contexts s)(c := None)\<rparr>)
      else Inl Undefined_behaviour)"

text \<open>The object: its context, which is null after a move.\<close>

record tls_context =
  tc_ctx :: "nat option"

definition TlsContext_new :: "tls_env \<Rightarrow> string \<Rightarrow> string \<Rightarrow> tls \<Rightarrow> tls_context result \<times> tls" where
  "TlsContext_new env cert_path key_path s =
     (case te_address env of
        None \<Rightarrow> (Inl (Runtime_error ''SSL_CTX_new failed''), s)
      | Some ctx \<Rightarrow>
          if ctx \<in> dom (tl_contexts s) then (Inl (Runtime_error ''SSL_CTX_new failed''), s)
          else
            let s1 = s\<lparr>tl_contexts := (tl_contexts s)(ctx \<mapsto> TLS1_VERSION)\<rparr>;
                s2 = s1\<lparr>tl_contexts := (tl_contexts s1)(ctx \<mapsto> TLS1_3_VERSION)\<rparr>;
                failed = (\<lambda>msg. case ctx_free ctx s2 of Inl e \<Rightarrow> (Inl e, s2) | Inr s3 \<Rightarrow> (Inl (Runtime_error msg), s3))
            in if te_chain env cert_path \<le> 0 then failed ''cert load failed''
               else if te_key env key_path \<le> 0 then failed ''key load failed''
               else if te_check env \<noteq> 1 then failed ''cert/key mismatch''
               else (Inr \<lparr>tc_ctx = Some ctx\<rparr>, s2))"

definition wrap_tls :: "tls_env \<Rightarrow> tls_context \<Rightarrow> int \<Rightarrow> tls \<Rightarrow> nat result \<times> tls" where
  "wrap_tls env c fd s =
     (case te_address env of
        None \<Rightarrow> (Inl (Runtime_error ''SSL_new failed''), s)
      | Some ssl \<Rightarrow>
          if ssl \<in> nt_ssl (tl_net s) then (Inl (Runtime_error ''SSL_new failed''), s)
          else
            let s1 = s\<lparr>tl_net := (tl_net s)\<lparr>nt_ssl := insert ssl (nt_ssl (tl_net s))\<rparr>\<rparr>
            in if te_set_fd env fd \<le> 0
               then (case ssl_free ssl (tl_net s1) of
                       Inl e \<Rightarrow> (Inl e, s1)
                     | Inr n \<Rightarrow> (Inl (Runtime_error ''SSL_set_fd failed''), s1\<lparr>tl_net := n\<rparr>))
               else (Inr ssl, s1))"

text \<open>Moves and the end of the object.\<close>

definition tls_move :: "tls_context \<Rightarrow> tls_context \<times> tls_context" where
  "tls_move other = (\<lparr>tc_ctx = tc_ctx other\<rparr>, other\<lparr>tc_ctx := None\<rparr>)"

definition tls_destroy :: "tls_context \<Rightarrow> tls \<Rightarrow> tls result" where
  "tls_destroy c s = (case tc_ctx c of None \<Rightarrow> Inr s | Some ctx \<Rightarrow> ctx_free ctx s)"

definition tls_assign :: "tls_context \<Rightarrow> tls_context \<Rightarrow> tls \<Rightarrow> (tls_context \<times> tls_context \<times> tls) result" where
  "tls_assign this other s =
     bind_result (case tc_ctx this of None \<Rightarrow> Inr s | Some ctx \<Rightarrow> ctx_free ctx s) (\<lambda>s1.
       Inr (this\<lparr>tc_ctx := tc_ctx other\<rparr>, other\<lparr>tc_ctx := None\<rparr>, s1))"

subsection \<open>Nothing is left behind\<close>

lemma TlsContext_new_cases:
  assumes "TlsContext_new env cert key s = (r, s')"
  obtains (failed) msg where "r = Inl (Runtime_error msg)" "s' = s"
  | (made) ctx where "r = Inr \<lparr>tc_ctx = Some ctx\<rparr>" "ctx \<notin> dom (tl_contexts s)"
      "s' = s\<lparr>tl_contexts := (tl_contexts s)(ctx \<mapsto> TLS1_3_VERSION)\<rparr>"
proof (cases "\<exists>ctx. te_address env = Some ctx \<and> ctx \<notin> dom (tl_contexts s)")
  case True
  then obtain ctx where ctx: "te_address env = Some ctx" "tl_contexts s ctx = None" by auto
  then have undo: "s\<lparr>tl_contexts := (tl_contexts s)(ctx := None)\<rparr> = s" by (simp add: fun_upd_idem)
  with ctx assms have "(\<exists>msg. r = Inl (Runtime_error msg) \<and> s' = s)
      \<or> r = Inr \<lparr>tc_ctx = Some ctx\<rparr> \<and> s' = s\<lparr>tl_contexts := (tl_contexts s)(ctx \<mapsto> TLS1_3_VERSION)\<rparr>"
    by (auto simp: TlsContext_new_def ctx_free_def Let_def domIff split: if_splits)
  then show ?thesis
  proof
    assume "\<exists>msg. r = Inl (Runtime_error msg) \<and> s' = s"
    with failed show ?thesis by blast
  qed (use made ctx in \<open>simp add: domIff\<close>)
next
  case False
  with assms have "r = Inl (Runtime_error ''SSL_CTX_new failed'') \<and> s' = s"
    by (cases "te_address env") (auto simp: TlsContext_new_def)
  with failed show ?thesis by blast
qed

lemma wrap_tls_cases:
  assumes "wrap_tls env c fd s = (r, s')"
  obtains (failed) msg where "r = Inl (Runtime_error msg)" "s' = s"
  | (made) ssl where "r = Inr ssl" "ssl \<notin> nt_ssl (tl_net s)"
      "s' = s\<lparr>tl_net := (tl_net s)\<lparr>nt_ssl := insert ssl (nt_ssl (tl_net s))\<rparr>\<rparr>"
proof (cases "\<exists>ssl. te_address env = Some ssl \<and> ssl \<notin> nt_ssl (tl_net s)")
  case True
  then obtain ssl where ssl: "te_address env = Some ssl" "ssl \<notin> nt_ssl (tl_net s)" by auto
  then have undo: "s\<lparr>tl_net := tl_net s\<lparr>nt_ssl := nt_ssl (tl_net s) - {ssl}\<rparr>\<rparr> = s" by simp
  with ssl assms have "(\<exists>msg. r = Inl (Runtime_error msg) \<and> s' = s)
      \<or> r = Inr ssl \<and> s' = s\<lparr>tl_net := (tl_net s)\<lparr>nt_ssl := insert ssl (nt_ssl (tl_net s))\<rparr>\<rparr>"
    by (auto simp: wrap_tls_def ssl_free_def Let_def split: if_splits)
  then show ?thesis
  proof
    assume "\<exists>msg. r = Inl (Runtime_error msg) \<and> s' = s"
    with failed show ?thesis by blast
  qed (use made ssl in simp)
next
  case False
  with assms have "r = Inl (Runtime_error ''SSL_new failed'') \<and> s' = s"
    by (cases "te_address env") (auto simp: wrap_tls_def)
  with failed show ?thesis by blast
qed

text \<open>The constructor and \<open>wrap\<close> meet the contract of the functions that open something.\<close>

definition contexts_made :: "string \<Rightarrow> string \<Rightarrow> tls_env \<Rightarrow> tls \<Rightarrow> nat option \<times> tls" where
  "contexts_made cert key env s =
     (case TlsContext_new env cert key s of
        (Inl e, s') \<Rightarrow> (None, s') | (Inr c, s') \<Rightarrow> (tc_ctx c, s'))"

definition objects_made :: "tls_context \<Rightarrow> tls_env \<times> int \<Rightarrow> tls \<Rightarrow> nat option \<times> tls" where
  "objects_made c e s =
     (case wrap_tls (fst e) c (snd e) s of (Inl x, s') \<Rightarrow> (None, s') | (Inr ssl, s') \<Rightarrow> (Some ssl, s'))"

lemma contexts_made_result:
  assumes "contexts_made cert key e s = (x, s')"
  shows "(case x of
      None \<Rightarrow> s' = s
    | Some r \<Rightarrow> r \<notin> dom (tl_contexts s) \<and> s' = s\<lparr>tl_contexts := (tl_contexts s)(r \<mapsto> TLS1_3_VERSION)\<rparr>)"
proof -
  obtain r t where new: "TlsContext_new e cert key s = (r, t)" by fastforce
  then show ?thesis
    using assms by (cases rule: TlsContext_new_cases) (auto simp: contexts_made_def new)
qed

lemma objects_made_result:
  assumes "objects_made c e s = (x, s')"
  shows "(case x of
      None \<Rightarrow> s' = s
    | Some r \<Rightarrow> r \<notin> nt_ssl (tl_net s) \<and> s' = s\<lparr>tl_net := (tl_net s)\<lparr>nt_ssl := insert r (nt_ssl (tl_net s))\<rparr>\<rparr>)"
proof -
  obtain r t where new: "wrap_tls (fst e) c (snd e) s = (r, t)" by fastforce
  then show ?thesis
    using assms by (cases rule: wrap_tls_cases) (auto simp: objects_made_def new)
qed

interpretation making_contexts: acquisition "contexts_made cert key" "\<lambda>s. dom (tl_contexts s)" for cert key
  by unfold_locales (auto dest!: contexts_made_result)

interpretation making_objects: acquisition "objects_made c" "\<lambda>s. nt_ssl (tl_net s)" for c
  by unfold_locales (auto dest!: objects_made_result)

subsection \<open>A program with contexts\<close>

text \<open>
  Variables that hold contexts, and what C++ code can do with them: construct, move, assign and
  destroy.
\<close>

type_synonym tls_vars = "nat \<rightharpoonup> tls_context"

inductive tls_step :: "tls_vars \<times> tls \<Rightarrow> tls_vars \<times> tls \<Rightarrow> bool" where
  construct: "x \<notin> dom vs \<Longrightarrow> TlsContext_new env cert key s = (Inr c, s') \<Longrightarrow> tls_step (vs, s) (vs(x \<mapsto> c), s')"
| throws: "TlsContext_new env cert key s = (Inl e, s') \<Longrightarrow> tls_step (vs, s) (vs, s')"
| move: "vs y = Some c \<Longrightarrow> x \<notin> dom vs \<Longrightarrow> tls_move c = (a, b) \<Longrightarrow> tls_step (vs, s) (vs(x \<mapsto> a, y \<mapsto> b), s)"
| assign: "vs x = Some t \<Longrightarrow> vs y = Some c \<Longrightarrow> x \<noteq> y \<Longrightarrow> tls_assign t c s = Inr (a, b, s') \<Longrightarrow>
    tls_step (vs, s) (vs(x \<mapsto> a, y \<mapsto> b), s')"
| destroy: "vs x = Some c \<Longrightarrow> tls_destroy c s = Inr s' \<Longrightarrow> tls_step (vs, s) (vs(x := None), s')"

inductive_cases tls_stepE: "tls_step (vs, s) (vs', s')"

definition contexts_of :: "tls_vars \<Rightarrow> nat \<rightharpoonup> nat" where
  "contexts_of vs x = Option.bind (vs x) tc_ctx"

lemma contexts_of_upd [simp]: "contexts_of (vs(x := v)) = (contexts_of vs)(x := Option.bind v tc_ctx)"
  by (simp add: contexts_of_def fun_eq_iff)

definition tls_ok :: "tls_vars \<times> tls \<Rightarrow> bool" where
  "tls_ok = (\<lambda>(vs, s). exclusive (contexts_of vs) (dom (tl_contexts s)) \<and> ran (tl_contexts s) \<subseteq> {TLS1_3_VERSION})"

lemma tls_live: "tls_ok (vs, s) \<Longrightarrow> vs x = Some c \<Longrightarrow> tc_ctx c = Some ctx \<Longrightarrow> ctx \<in> dom (tl_contexts s)"
  by (rule exclusive_live [of "contexts_of vs" _ x]) (simp_all add: tls_ok_def contexts_of_def)

lemma ran_upd_subset: "ran (m(x := v)) \<subseteq> ran m \<union> set_option v"
  by (auto simp: ran_def)

lemma tls_destroy_released:
  assumes "tls_ok (vs, s)" and "vs x = Some c"
  shows "\<exists>s'. tls_destroy c s = Inr s' \<and> tls_ok (vs(x := None), s') \<and> tls_ok (vs(x \<mapsto> c\<lparr>tc_ctx := None\<rparr>), s')"
proof (cases "tc_ctx c")
  case None
  with assms show ?thesis
    using exclusive_same [of "contexts_of vs" _ x None] by (simp add: tls_destroy_def tls_ok_def contexts_of_def [of vs])
next
  case (Some ctx)
  with tls_live [OF assms] have "ctx \<in> dom (tl_contexts s)" by blast
  moreover have "exclusive ((contexts_of vs)(x := None)) (dom (tl_contexts s) - {ctx})"
    using assms Some by (intro exclusive_drop) (simp_all add: tls_ok_def contexts_of_def)
  ultimately show ?thesis
    using assms(1) Some ran_upd_subset [of "tl_contexts s" ctx None]
    by (auto simp: tls_destroy_def tls_ok_def ctx_free_def)
qed

lemma tls_ok_move:
  assumes "tls_ok (vs, s)" and "vs y = Some c" and "x \<noteq> y" and "contexts_of vs x = None"
    and "tc_ctx a = tc_ctx c" and "tc_ctx b = None"
  shows "tls_ok (vs(x \<mapsto> a, y \<mapsto> b), s)"
proof -
  have "exclusive ((contexts_of vs)(x := contexts_of vs y, y := None)) (dom (tl_contexts s))"
    using assms(1,4) by (intro exclusive_move) (simp_all add: tls_ok_def)
  then show ?thesis using assms by (simp add: tls_ok_def contexts_of_def [of vs y])
qed

lemma tls_ok_step:
  assumes "tls_step (vs, s) (vs', s')" and ok: "tls_ok (vs, s)"
  shows "tls_ok (vs', s')"
  using assms(1)
proof (cases rule: tls_stepE [consumes 1, case_names construct throws move assign destroy])
  case (construct x env cert key c)
  from construct(3) show ?thesis
  proof (cases rule: TlsContext_new_cases)
    case (made ctx)
    with ok construct show ?thesis
      using exclusive_new [of "contexts_of vs" "dom (tl_contexts s)" x ctx]
        ran_upd_subset [of "tl_contexts s" ctx "Some TLS1_3_VERSION"]
      by (auto simp: tls_ok_def contexts_of_def [of vs])
  qed simp
next
  case (throws env cert key e)
  from throws(2) show ?thesis
    by (cases rule: TlsContext_new_cases) (use ok throws in simp_all)
next
  case (move y c x a b)
  with ok show ?thesis
    by (auto simp: tls_move_def contexts_of_def intro!: tls_ok_move [of vs s y c x])
next
  case (assign x t y c a b)
  obtain s1 where s1: "tls_destroy t s = Inr s1" "tls_ok (vs(x \<mapsto> t\<lparr>tc_ctx := None\<rparr>), s1)"
    using tls_destroy_released [OF ok assign(2)] by blast
  with assign have "s1 = s'" "tc_ctx a = tc_ctx c" "tc_ctx b = None"
    by (auto simp: tls_assign_def tls_destroy_def)
  with s1 assign have "tls_ok ((vs(x \<mapsto> t\<lparr>tc_ctx := None\<rparr>))(x \<mapsto> a, y \<mapsto> b), s')"
    by (intro tls_ok_move) simp_all
  then show ?thesis using assign by simp
next
  case (destroy x c)
  then show ?thesis using tls_destroy_released [OF ok destroy(2)] by auto
qed

definition no_tls :: tls where
  "no_tls = \<lparr>tl_contexts = Map.empty, tl_net = \<lparr>nt_open = {}, nt_ssl = {}\<rparr>\<rparr>"

interpretation contexts: transition_system tls_step "(Map.empty, no_tls)" tls_ok
proof unfold_locales
  have "contexts_of Map.empty = Map.empty" by (simp add: contexts_of_def fun_eq_iff)
  then show "tls_ok (Map.empty, no_tls)" by (simp add: tls_ok_def no_tls_def exclusive_def)
  show "tls_step s t \<Longrightarrow> tls_ok s \<Longrightarrow> tls_ok t" for s t
    using tls_ok_step [of "fst s" "snd s" "fst t" "snd t"] by simp
qed

lemmas tls_ok_reachable = contexts.inv_reachable

subsection \<open>Properties\<close>

text \<open>TLS contexts neither leak nor are freed twice: whatever a program does with them, every
  context that is alive belongs to exactly one object, destroying and assigning to an object
  never frees a dead context, no context is left when no object is, and every context refuses
  what is older than TLS 1.3. A constructor that throws, for whatever reason, leaves no trace.\<close>

theorem tls_contexts_owned:
  assumes "tls_step\<^sup>*\<^sup>* (Map.empty, no_tls) (vs, s)"
  shows "(\<forall>ctx. ctx \<in> dom (tl_contexts s) \<longleftrightarrow> (\<exists>!x. \<exists>c. vs x = Some c \<and> tc_ctx c = Some ctx))
    \<and> ran (tl_contexts s) \<subseteq> {TLS1_3_VERSION}
    \<and> (\<forall>x c d. vs x = Some c \<longrightarrow> tls_destroy c s \<noteq> Inl Undefined_behaviour \<and> tls_assign c d s \<noteq> Inl Undefined_behaviour)
    \<and> (vs = Map.empty \<longrightarrow> tl_contexts s = Map.empty)
    \<and> (\<forall>env cert key e s'. TlsContext_new env cert key s = (Inl e, s') \<longrightarrow> s' = s \<and> e \<noteq> Undefined_behaviour)"
proof (intro conjI allI impI)
  note ok = tls_ok_reachable [OF assms]
  have holder: "contexts_of vs x = Some ctx \<longleftrightarrow> (\<exists>c. vs x = Some c \<and> tc_ctx c = Some ctx)" for x ctx
    by (cases "vs x") (simp_all add: contexts_of_def)
  have "exclusive (contexts_of vs) (dom (tl_contexts s))" using ok by (simp add: tls_ok_def)
  then show owners: "ctx \<in> dom (tl_contexts s) \<longleftrightarrow> (\<exists>!x. \<exists>c. vs x = Some c \<and> tc_ctx c = Some ctx)" for ctx
    unfolding holder [symmetric] by (auto simp: exclusive_def ran_def inj_on_def domIff)
  show "ran (tl_contexts s) \<subseteq> {TLS1_3_VERSION}" using ok by (simp add: tls_ok_def)
  show "tl_contexts s = Map.empty" if "vs = Map.empty"
  proof (rule ext)
    fix ctx
    show "tl_contexts s ctx = None" using owners [of ctx] that by auto
  qed
  fix x c d
  assume x: "vs x = Some c"
  then show "tls_destroy c s \<noteq> Inl Undefined_behaviour" "tls_assign c d s \<noteq> Inl Undefined_behaviour"
    using tls_live [OF ok x] by (auto simp: tls_destroy_def tls_assign_def ctx_free_def split: option.split)
next
  fix env cert key e s'
  assume "TlsContext_new env cert key s = (Inl e, s')"
  then have "s' = s \<and> e \<noteq> Undefined_behaviour" by (cases rule: TlsContext_new_cases) simp_all
  then show "s' = s" "e \<noteq> Undefined_behaviour" by simp_all
qed

text \<open>The witness: a context is made from good files and moved.\<close>

definition good_files :: "nat \<Rightarrow> tls_env" where
  "good_files n = \<lparr>te_address = Some n, te_chain = (\<lambda>f. 1), te_key = (\<lambda>f. 1), te_check = 1, te_set_fd = (\<lambda>fd. 1)\<rparr>"

theorem tls_contexts_owned_witness:
  "\<exists>vs s. tls_step\<^sup>*\<^sup>* (Map.empty, no_tls) (vs, s) \<and> dom (tl_contexts s) = {9}
     \<and> (\<exists>!x. \<exists>c. vs x = Some c \<and> tc_ctx c = Some 9)"
proof -
  let ?c = "\<lparr>tc_ctx = Some 9\<rparr>" and ?s = "no_tls\<lparr>tl_contexts := [9 \<mapsto> TLS1_3_VERSION]\<rparr>"
  let ?vs = "[0 \<mapsto> ?c] :: tls_vars" and ?vs' = "[0 \<mapsto> \<lparr>tc_ctx = None\<rparr>, 1 \<mapsto> ?c] :: tls_vars"
  have "TlsContext_new (good_files 9) ''cert.pem'' ''key.pem'' no_tls = (Inr ?c, ?s)"
    by (simp add: TlsContext_new_def good_files_def no_tls_def Let_def TLS1_3_VERSION_def)
  then have one: "tls_step (Map.empty, no_tls) (?vs, ?s)"
    by (intro tls_step.construct) simp_all
  have two: "tls_step (?vs, ?s) (?vs', ?s)"
    using tls_step.move [of ?vs 0 ?c 1 ?c "\<lparr>tc_ctx = None\<rparr>" ?s]
    by (simp add: tls_move_def fun_upd_twist)
  from one have "tls_step\<^sup>*\<^sup>* (Map.empty, no_tls) (?vs, ?s)" by (rule r_into_rtranclp)
  from this two have reach: "tls_step\<^sup>*\<^sup>* (Map.empty, no_tls) (?vs', ?s)"
    by (rule rtranclp.rtrancl_into_rtrancl)
  have live: "dom (tl_contexts ?s) = {9}" by simp
  then have "9 \<in> dom (tl_contexts ?s)" by simp
  then have owner: "\<exists>!x. \<exists>c. ?vs' x = Some c \<and> tc_ctx c = Some 9"
    by (rule tls_contexts_owned [OF reach, THEN conjunct1, rule_format, THEN iffD1])
  show ?thesis by (rule exI [of _ ?vs'], rule exI [of _ ?s], intro conjI) (rule reach live owner)+
qed

end
