(* ===== verification/Session_Cleaner.thy ===== *)
theory Session_Cleaner
  imports Session
begin

section \<open>The thread that removes expired sessions\<close>

text \<open>
  Models \<open>cleanup\<close> and \<open>session_shutdown\<close> of \<^verbatim>\<open>src/security/session.cpp\<close> and the
  start of the thread by the first call of \<open>Session()\<close>, as a step relation: the steps of the
  cleaner between its locks, the requests that use the storage, and the steps of the thread that
  calls \<open>session_shutdown\<close>. The flag is set and the condition variable is notified without the
  mutex of the cleaner, so both can fall between its test of the flag and its wait.
\<close>

datatype phase = Not_started | Checking | About_to_wait | Waiting | Woken | Sweeping | Done

datatype shutdown_phase = Not_called | Flag_set | Joining | Joined

record cleaner =
  kp_phase :: phase
  kp_stop_flag :: bool
  kp_shutdown :: shutdown_phase
  kp_sessions :: sessions

definition no_cleaner :: cleaner where
  "no_cleaner = \<lparr>kp_phase = Not_started, kp_stop_flag = False, kp_shutdown = Not_called, kp_sessions = no_sessions\<rparr>"

text \<open>A wait ends by its time-out of 60 seconds or for no reason; \<open>Sweep\<close> is told the time.\<close>

datatype cleaner_event =
    Start | Test | Quit | Wait | Wake | Break | Pass | Sweep int
  | Use sessions | Set_flag | Notify_one | Join

inductive cleaner_step :: "cleaner_event \<Rightarrow> cleaner \<Rightarrow> cleaner \<Rightarrow> bool" where
  Start: "kp_phase c = Not_started \<Longrightarrow> cleaner_step Start c (c\<lparr>kp_phase := Checking\<rparr>)"
| Test: "kp_phase c = Checking \<Longrightarrow> \<not> kp_stop_flag c \<Longrightarrow> cleaner_step Test c (c\<lparr>kp_phase := About_to_wait\<rparr>)"
| Quit: "kp_phase c = Checking \<Longrightarrow> kp_stop_flag c \<Longrightarrow> cleaner_step Quit c (c\<lparr>kp_phase := Done\<rparr>)"
| Wait: "kp_phase c = About_to_wait \<Longrightarrow> cleaner_step Wait c (c\<lparr>kp_phase := Waiting\<rparr>)"
| Wake: "kp_phase c = Waiting \<Longrightarrow> cleaner_step Wake c (c\<lparr>kp_phase := Woken\<rparr>)"
| Break: "kp_phase c = Woken \<Longrightarrow> kp_stop_flag c \<Longrightarrow> cleaner_step Break c (c\<lparr>kp_phase := Done\<rparr>)"
| Pass: "kp_phase c = Woken \<Longrightarrow> \<not> kp_stop_flag c \<Longrightarrow> cleaner_step Pass c (c\<lparr>kp_phase := Sweeping\<rparr>)"
| Sweep: "kp_phase c = Sweeping \<Longrightarrow>
    cleaner_step (Sweep now) c (c\<lparr>kp_phase := Checking, kp_sessions := session_cleanup now (kp_sessions c)\<rparr>)"
| Use: "sessions_step (kp_sessions c) s \<Longrightarrow> cleaner_step (Use s) c (c\<lparr>kp_sessions := s\<rparr>)"
| Set_flag: "kp_shutdown c = Not_called \<Longrightarrow>
    cleaner_step Set_flag c (c\<lparr>kp_stop_flag := True, kp_shutdown := Flag_set\<rparr>)"
| Notify_one: "kp_shutdown c = Flag_set \<Longrightarrow>
    cleaner_step Notify_one c (c\<lparr>kp_shutdown := Joining, kp_phase := (if kp_phase c = Waiting then Woken else kp_phase c)\<rparr>)"
| Join: "kp_shutdown c = Joining \<Longrightarrow> kp_phase c \<in> {Not_started, Done} \<Longrightarrow>
    cleaner_step Join c (c\<lparr>kp_shutdown := Joined\<rparr>)"

inductive_cases cleaner_stepE [consumes 1, case_names Start Test Quit Wait Wake Break Pass Sweep Use Set_flag Notify_one Join]:
  "cleaner_step ev c c'"

inductive_simps cleaner_step_simps:
  "cleaner_step Start c c'" "cleaner_step Test c c'" "cleaner_step Quit c c'" "cleaner_step Wait c c'"
  "cleaner_step Wake c c'" "cleaner_step Break c c'" "cleaner_step Pass c c'" "cleaner_step (Sweep now) c c'"
  "cleaner_step Set_flag c c'" "cleaner_step Notify_one c c'" "cleaner_step Join c c'"

abbreviation cleaner_run :: "cleaner \<Rightarrow> cleaner_event list \<Rightarrow> cleaner \<Rightarrow> bool" where
  "cleaner_run \<equiv> run_of cleaner_step"

text \<open>The steps of the cleaner itself, its start included.\<close>

fun own :: "cleaner_event \<Rightarrow> bool" where
  "own (Use s) = False"
| "own Set_flag = False"
| "own Notify_one = False"
| "own Join = False"
| "own _ = True"

fun steps_left :: "phase \<Rightarrow> nat" where
  "steps_left About_to_wait = 3"
| "steps_left Waiting = 2"
| "steps_left Not_started = 2"
| "steps_left Sweeping = 2"
| "steps_left Woken = 1"
| "steps_left Checking = 1"
| "steps_left Done = 0"

lemma steps_left_bound: "steps_left p \<le> 3"
  by (cases p) simp_all

lemma flag_stays: "cleaner_step ev c c' \<Longrightarrow> kp_stop_flag c \<Longrightarrow> kp_stop_flag c'"
  by (erule cleaner_stepE) simp_all

lemma own_decreases:
  assumes "cleaner_step ev c c'" and "kp_stop_flag c"
  shows "steps_left (kp_phase c') + (if own ev then 1 else 0) \<le> steps_left (kp_phase c)"
  using assms(1) by (rule cleaner_stepE) (use assms(2) in auto)

lemma own_bounded:
  "cleaner_run c evs c' \<Longrightarrow> kp_stop_flag c \<Longrightarrow>
   kp_stop_flag c' \<and> steps_left (kp_phase c') + length (filter own evs) \<le> steps_left (kp_phase c)"
proof (induction rule: run_of.induct)
  case (Step evs c1 ev c2)
  then show ?case using flag_stays [OF Step.hyps(2)] own_decreases [OF Step.hyps(2)] by auto
qed simp

lemma own_enabled: "kp_phase c \<noteq> Done \<Longrightarrow> \<exists>ev c'. own ev \<and> cleaner_step ev c c'"
proof (cases "kp_phase c")
  case Checking
  then show ?thesis
    using cleaner_step.Test [of c] cleaner_step.Quit [of c] own.simps by (cases "kp_stop_flag c") blast+
next
  case Woken
  then show ?thesis
    using cleaner_step.Break [of c] cleaner_step.Pass [of c] own.simps by (cases "kp_stop_flag c") blast+
next
  case Sweeping
  then show ?thesis using cleaner_step.Sweep [of c] own.simps by blast
qed (use cleaner_step.Start [of c] cleaner_step.Wait [of c] cleaner_step.Wake [of c] own.simps in blast)+

text \<open>Whatever the interleaving, the storage goes through states that requests and the cleanup reach.\<close>

lemma cleaner_sessions:
  "cleaner_run c evs c' \<Longrightarrow> sessions_step\<^sup>*\<^sup>* no_sessions (kp_sessions c) \<Longrightarrow> sessions_step\<^sup>*\<^sup>* no_sessions (kp_sessions c')"
proof (induction rule: run_of.induct)
  case (Step evs c1 ev c2)
  have "sessions_step\<^sup>=\<^sup>= (kp_sessions c1) (kp_sessions c2)"
    using Step.hyps(2) by (rule cleaner_stepE) (auto intro: sessions_step.cleanup)
  with Step show ?case by (auto intro: rtranclp.rtrancl_into_rtrancl)
qed

subsection \<open>Properties\<close>

text \<open>Shutting the sessions down returns: once the flag is set, the cleaner makes at most three
  more steps, it is never stuck before it ends, and when it has ended or was never started the
  join goes through. Up to then requests and the cleaner share the storage in any order, and
  every identifier in it still belongs to one session.\<close>

theorem shutdown_returns:
  assumes "cleaner_run no_cleaner evs0 c" and "kp_stop_flag c" and "cleaner_run c evs c'"
  shows "length (filter own evs) \<le> 3
    \<and> (kp_phase c' \<noteq> Done \<longrightarrow> (\<exists>ev d. own ev \<and> cleaner_step ev c' d))
    \<and> (kp_phase c' \<in> {Not_started, Done} \<longrightarrow> kp_shutdown c' = Joining \<longrightarrow>
        (\<exists>d. cleaner_step Join c' d \<and> kp_shutdown d = Joined))
    \<and> sessions_ok (kp_sessions c')"
proof (intro conjI impI)
  show "length (filter own evs) \<le> 3"
    using own_bounded [OF assms(3,2)] steps_left_bound [of "kp_phase c"] by linarith
  show "\<exists>ev d. own ev \<and> cleaner_step ev c' d" if "kp_phase c' \<noteq> Done"
    using own_enabled [OF that] .
  show "\<exists>d. cleaner_step Join c' d \<and> kp_shutdown d = Joined"
    if "kp_phase c' \<in> {Not_started, Done}" "kp_shutdown c' = Joining"
    using cleaner_step.Join [OF that(2,1)] by (intro exI [of _ "c'\<lparr>kp_shutdown := Joined\<rparr>"]) simp
  have "sessions_step\<^sup>*\<^sup>* no_sessions (kp_sessions c)"
    by (rule cleaner_sessions [OF assms(1)]) (simp add: no_cleaner_def)
  then show "sessions_ok (kp_sessions c')"
    by (intro sessions_ok_reachable cleaner_sessions [OF assms(3)])
qed

text \<open>But the shutdown can miss its moment: the flag can be set and the notification sent after
  the cleaner has tested the flag and before it waits. Then nothing but the time-out of the wait
  (or a wake-up for no reason) lets the cleaner go on, and \<open>session_shutdown\<close> waits for it.\<close>

theorem shutdown_notification_lost:
  "\<exists>c. cleaner_run no_cleaner [Start, Test, Set_flag, Notify_one, Wait] c
     \<and> kp_shutdown c = Joining \<and> (\<nexists>d. cleaner_step Join c d) \<and> {ev. own ev \<and> (\<exists>d. cleaner_step ev c d)} = {Wake}"
proof -
  let ?c = "\<lambda>p f q. \<lparr>kp_phase = p, kp_stop_flag = f, kp_shutdown = q, kp_sessions = no_sessions\<rparr>"
  have "cleaner_run no_cleaner [Start] (?c Checking False Not_called)"
    by (rule run_snoc [OF run_of.Start]) (simp_all add: cleaner_step_simps no_cleaner_def)
  then have "cleaner_run no_cleaner [Start, Test] (?c About_to_wait False Not_called)"
    by (rule run_snoc) (simp_all add: cleaner_step_simps)
  then have "cleaner_run no_cleaner [Start, Test, Set_flag] (?c About_to_wait True Flag_set)"
    by (rule run_snoc) (simp_all add: cleaner_step_simps)
  then have "cleaner_run no_cleaner [Start, Test, Set_flag, Notify_one] (?c About_to_wait True Joining)"
    by (rule run_snoc) (simp_all add: cleaner_step_simps)
  then have run: "cleaner_run no_cleaner [Start, Test, Set_flag, Notify_one, Wait] (?c Waiting True Joining)"
    by (rule run_snoc) (simp_all add: cleaner_step_simps)
  have "ev = Wake" if "own ev" "cleaner_step ev (?c Waiting True Joining) d" for ev d
    using that(2) by (rule cleaner_stepE) (use that(1) in simp_all)
  moreover have "cleaner_step Wake (?c Waiting True Joining) (?c Woken True Joining)"
    by (simp add: cleaner_step_simps)
  ultimately have "{ev. own ev \<and> (\<exists>d. cleaner_step ev (?c Waiting True Joining) d)} = {Wake}"
    using own.simps by blast
  with run show ?thesis by (intro exI [of _ "?c Waiting True Joining"]) (simp add: cleaner_step_simps)
qed

subsection \<open>Witnesses\<close>

text \<open>The flag is set while the cleaner waits; the notification ends the wait and the cleaner leaves.\<close>

theorem shutdown_returns_witness:
  "\<exists>c c'. cleaner_run no_cleaner [Set_flag] c \<and> cleaner_run c [Start, Notify_one, Quit] c'
     \<and> (\<exists>d. cleaner_step Join c' d \<and> kp_shutdown d = Joined)"
proof -
  let ?c = "\<lambda>p q. \<lparr>kp_phase = p, kp_stop_flag = True, kp_shutdown = q, kp_sessions = no_sessions\<rparr>"
  have one: "cleaner_run no_cleaner [Set_flag] (?c Not_started Flag_set)"
    by (rule run_snoc [OF run_of.Start]) (simp_all add: cleaner_step_simps no_cleaner_def)
  have "cleaner_run (?c Not_started Flag_set) [Start] (?c Checking Flag_set)"
    by (rule run_snoc [OF run_of.Start]) (simp_all add: cleaner_step_simps)
  then have "cleaner_run (?c Not_started Flag_set) [Start, Notify_one] (?c Checking Joining)"
    by (rule run_snoc) (simp_all add: cleaner_step_simps)
  then have two: "cleaner_run (?c Not_started Flag_set) [Start, Notify_one, Quit] (?c Done Joining)"
    by (rule run_snoc) (simp_all add: cleaner_step_simps)
  have "kp_stop_flag (?c Not_started Flag_set)" by simp
  from shutdown_returns [OF one this two] one two show ?thesis
    by (intro exI [of _ "?c Not_started Flag_set"] exI [of _ "?c Done Joining"]) simp
qed

end
