(* ===== verification/App.thy ===== *)
theory App
  imports Serving Tls_Context
begin

section \<open>The application\<close>

text \<open>
  Models \<^verbatim>\<open>include/ynet/app.h\<close>, \<^verbatim>\<open>src/app.cpp\<close> and the constructor and
  the registration functions of \<^verbatim>\<open>include/ynet/core/server.h\<close>: how the calls a program
  makes on its \<open>App\<close> object become the routes, the chain of middlewares and the tables that
  \<open>handleRequest\<close> uses. An application is the pair of the object and the state its middlewares
  share; every rate limiter is given the next number and empty buckets.
\<close>

subsection \<open>The server's tables\<close>

definition server_new :: "config \<Rightarrow> 'u server" where
  "server_new cfg =
     \<lparr>sv_config = cfg, sv_router = None, sv_middlewares = [], sv_ws_routes = Map.empty,
      sv_static_files = [], sv_error_handlers = Map.empty\<rparr>"

definition server_mount :: "'u world routes \<Rightarrow> 'u server \<Rightarrow> 'u server" where
  "server_mount routes sv = sv\<lparr>sv_router := Some routes\<rparr>"

definition server_use :: "'u world middleware \<Rightarrow> 'u server \<Rightarrow> 'u server" where
  "server_use mw sv = sv\<lparr>sv_middlewares := sv_middlewares sv @ [mw]\<rparr>"

definition server_ws :: "string \<Rightarrow> 'u ws_handler \<Rightarrow> 'u server \<Rightarrow> 'u server" where
  "server_ws path handler sv = sv\<lparr>sv_ws_routes := (sv_ws_routes sv)(path \<mapsto> handler)\<rparr>"

definition server_serveStatic :: "string \<Rightarrow> string \<Rightarrow> 'u server \<Rightarrow> 'u server" where
  "server_serveStatic url_prefix dir sv =
     sv\<lparr>sv_static_files := sv_static_files sv @ [\<lparr>sf_prefix = url_prefix, sf_root = dir\<rparr>]\<rparr>"

subsection \<open>Constructing the server and the application\<close>

text \<open>
  The resources of the server are the epoll instance and, with TLS, a context. When the context
  cannot be made, the members made before it are destroyed and the exception goes on.
\<close>

definition Server_construct ::
  "int \<Rightarrow> tls_env \<Rightarrow> config \<Rightarrow> os \<times> tls \<Rightarrow> ('u server \<times> event_loop \<times> tls_context option) result \<times> os \<times> tls" where
  "Server_construct epoll env cfg s =
     (case s of (o0, t0) \<Rightarrow>
        (case EventLoop_new epoll (cfg_max_connections cfg) o0 of
           (Inl e, o1) \<Rightarrow> (Inl e, o1, t0)
         | (Inr ev, o1) \<Rightarrow>
             if cfg_use_tls cfg then
               (case TlsContext_new env (cfg_cert_path cfg) (cfg_key_path cfg) t0 of
                  (Inl e, t1) \<Rightarrow> (Inl e, EventLoop_destroy ev o1, t1)
                | (Inr c, t1) \<Rightarrow> (Inr (server_new cfg, ev, Some c), o1, t1))
             else (Inr (server_new cfg, ev, None), o1, t0)))"

record 'u app =
  ap_config :: config
  ap_router :: "'u world routes"
  ap_server :: "'u server"
  ap_limiters :: nat

type_synonym 'u program = "'u app \<times> 'u world"

text \<open>The constructor of \<open>App\<close>: the configuration, the cache, the server and the path guard.\<close>

definition App_construct ::
  "int \<Rightarrow> tls_env \<Rightarrow> 'u world \<Rightarrow> conf_world \<times> os \<times> tls \<Rightarrow>
   ('u program \<times> event_loop \<times> tls_context option) result \<times> conf_world \<times> os \<times> tls" where
  "App_construct epoll env w s =
     (case s of (cw, o0, t0) \<Rightarrow>
        (case loadConfig cw of
           (Inl e, cw') \<Rightarrow> (Inl e, cw', o0, t0)
         | (Inr cfg, cw') \<Rightarrow>
             (case Server_construct epoll env cfg (o0, t0) of
                (Inl e, o1, t1) \<Rightarrow> (Inl e, cw', o1, t1)
              | (Inr (sv, ev, ctx), o1, t1) \<Rightarrow>
                  (Inr ((\<lparr>ap_config = cfg, ap_router = Map.empty, ap_server = sv, ap_limiters = 0\<rparr>,
                         w\<lparr>wd_cache := new_cache (cfg_max_cache_entries cfg), wd_guard := new_path_guard\<rparr>), ev, ctx),
                   cw', o1, t1))))"

subsection \<open>The calls of a program\<close>

definition on_server :: "('u server \<Rightarrow> 'u server) \<Rightarrow> 'u program \<Rightarrow> 'u program" where
  "on_server f = (\<lambda>(a, w). (a\<lparr>ap_server := f (ap_server a)\<rparr>, w))"

text \<open>A route: one of \<open>get\<close>, \<open>post\<close>, \<open>put\<close> and \<open>del\<close>, followed by what the route does.\<close>

definition app_route :: "('u world routes \<Rightarrow> 'u world routes) \<Rightarrow> 'u program \<Rightarrow> 'u program" where
  "app_route f = (\<lambda>(a, w). (a\<lparr>ap_router := f (ap_router a)\<rparr>, w))"

definition app_cors :: "string \<Rightarrow> 'u program \<Rightarrow> 'u program" where
  "app_cors origin = on_server (server_use (cors [origin]))"

definition app_rateLimit :: "(rat \<Rightarrow> rat) \<Rightarrow> int \<Rightarrow> int \<Rightarrow> 'u program \<Rightarrow> 'u program" where
  "app_rateLimit rnd max_requests period_seconds = (\<lambda>(a, w).
     let k = ap_limiters a
     in on_server (server_use (RateLimiter (get_buckets k) (put_buckets k) (\<lambda>w. wd_clock w k) rnd max_requests period_seconds))
          (a\<lparr>ap_limiters := k + 1\<rparr>, put_buckets k Map.empty w))"

definition app_logger :: "'u program \<Rightarrow> 'u program" where
  "app_logger = on_server (server_use (Logger wd_log put_log wd_time))"

definition app_csrf :: "'u program \<Rightarrow> 'u program" where
  "app_csrf = on_server (server_use (Csrf wd_sessions put_sessions wd_buffers wd_random))"

definition app_sanitizer :: "'u program \<Rightarrow> 'u program" where
  "app_sanitizer = on_server (server_use Sanitizer)"

definition app_secureHeaders :: "string \<Rightarrow> 'u program \<Rightarrow> 'u program" where
  "app_secureHeaders csp = on_server (server_use (SecureHeaders csp))"

definition app_session :: "'u program \<Rightarrow> 'u program" where
  "app_session =
     on_server (server_use (Session wd_sessions put_sessions wd_session_env 3600 ''session_id''
       ''HttpOnly; Secure; SameSite=Strict''))"

definition app_serveStatic :: "string \<Rightarrow> string \<Rightarrow> 'u program \<Rightarrow> 'u program" where
  "app_serveStatic url_prefix dir = on_server (server_serveStatic url_prefix dir)"

definition app_ws :: "string \<Rightarrow> 'u ws_handler \<Rightarrow> 'u program \<Rightarrow> 'u program" where
  "app_ws path handler = on_server (server_ws path handler)"

text \<open>What \<open>onError\<close> returns is used to set a page, an update of the table of error handlers.\<close>

definition app_onError :: "('u world error_handlers \<Rightarrow> 'u world error_handlers) \<Rightarrow> 'u program \<Rightarrow> 'u program" where
  "app_onError page = on_server (\<lambda>sv. sv\<lparr>sv_error_handlers := page (sv_error_handlers sv)\<rparr>)"

definition app_use :: "'u world middleware \<Rightarrow> 'u program \<Rightarrow> 'u program" where
  "app_use mw = on_server (server_use mw)"

definition app_pathGuard :: "'u program \<Rightarrow> 'u program" where
  "app_pathGuard = on_server (server_use (guard_toMiddleware wd_guard put_guard))"

definition app_addWhitelist :: "string \<Rightarrow> 'u program \<Rightarrow> 'u program" where
  "app_addWhitelist ip = (\<lambda>(a, w). (a, put_guard (addWhitelist ip (wd_guard w)) w))"

text \<open>What \<open>listen\<close> mounts before it starts the loop.\<close>

definition app_listen :: "'u program \<Rightarrow> 'u server \<times> 'u world" where
  "app_listen = (\<lambda>(a, w). (server_mount (ap_router a) (ap_server a), w))"

subsection \<open>A program as the list of its calls\<close>

datatype 'u call =
    Cors string | Rate_limit int int | Log | Csrf_check | Sanitize | Secure string | Sessions
  | Static string string | Ws string "'u ws_handler" | On_error "'u world error_handlers \<Rightarrow> 'u world error_handlers"
  | Use "'u world middleware" | Guard_paths | Whitelist string | Handle route "'u world handler"

fun perform :: "(rat \<Rightarrow> rat) \<Rightarrow> 'u call \<Rightarrow> 'u program \<Rightarrow> 'u program" where
  "perform rnd (Cors origin) = app_cors origin"
| "perform rnd (Rate_limit n p) = app_rateLimit rnd n p"
| "perform rnd Log = app_logger"
| "perform rnd Csrf_check = app_csrf"
| "perform rnd Sanitize = app_sanitizer"
| "perform rnd (Secure csp) = app_secureHeaders csp"
| "perform rnd Sessions = app_session"
| "perform rnd (Static url_prefix dir) = app_serveStatic url_prefix dir"
| "perform rnd (Ws path handler) = app_ws path handler"
| "perform rnd (On_error page) = app_onError page"
| "perform rnd (Use mw) = app_use mw"
| "perform rnd Guard_paths = app_pathGuard"
| "perform rnd (Whitelist ip) = app_addWhitelist ip"
| "perform rnd (Handle r fn) = app_route (Route_handle r fn)"

abbreviation performs :: "(rat \<Rightarrow> rat) \<Rightarrow> 'u call list \<Rightarrow> 'u program \<Rightarrow> 'u program" where
  "performs rnd calls \<equiv> fold (perform rnd) calls"

text \<open>The layer of the chain that a call asks for, given the number of the next limiter.\<close>

fun layer :: "(rat \<Rightarrow> rat) \<Rightarrow> nat \<Rightarrow> 'u call \<Rightarrow> 'u world middleware option" where
  "layer rnd k (Cors origin) = Some (cors [origin])"
| "layer rnd k (Rate_limit n p) = Some (RateLimiter (get_buckets k) (put_buckets k) (\<lambda>w. wd_clock w k) rnd n p)"
| "layer rnd k Log = Some (Logger wd_log put_log wd_time)"
| "layer rnd k Csrf_check = Some (Csrf wd_sessions put_sessions wd_buffers wd_random)"
| "layer rnd k Sanitize = Some Sanitizer"
| "layer rnd k (Secure csp) = Some (SecureHeaders csp)"
| "layer rnd k Sessions = Some (Session wd_sessions put_sessions wd_session_env 3600 ''session_id''
     ''HttpOnly; Secure; SameSite=Strict'')"
| "layer rnd k (Use mw) = Some mw"
| "layer rnd k Guard_paths = Some (guard_toMiddleware wd_guard put_guard)"
| "layer rnd k _ = None"

fun limits :: "'u call \<Rightarrow> bool" where
  "limits (Rate_limit n p) = True"
| "limits _ = False"

fun layers :: "(rat \<Rightarrow> rat) \<Rightarrow> nat \<Rightarrow> 'u call list \<Rightarrow> 'u world middleware list" where
  "layers rnd k [] = []"
| "layers rnd k (c # cs) =
     (case layer rnd k c of None \<Rightarrow> [] | Some m \<Rightarrow> [m]) @ layers rnd (if limits c then k + 1 else k) cs"

lemmas app_defs = on_server_def app_route_def app_cors_def app_rateLimit_def app_logger_def app_csrf_def
  app_sanitizer_def app_secureHeaders_def app_session_def app_serveStatic_def app_ws_def app_onError_def
  app_use_def app_pathGuard_def app_addWhitelist_def server_use_def server_ws_def server_serveStatic_def

lemma perform_chain:
  assumes "perform rnd c (a, w) = (a', w')"
  shows "sv_middlewares (ap_server a') = sv_middlewares (ap_server a) @ (case layer rnd (ap_limiters a) c of None \<Rightarrow> [] | Some m \<Rightarrow> [m])"
    and "ap_limiters a' = (if limits c then ap_limiters a + 1 else ap_limiters a)"
    and "ap_config a' = ap_config a" and "sv_config (ap_server a') = sv_config (ap_server a)"
    and "ap_router a' = (case c of Handle r fn \<Rightarrow> Route_handle r fn (ap_router a) | _ \<Rightarrow> ap_router a)"
  using assms by (cases c; auto simp: app_defs Let_def)+

lemma performs_chain:
  "performs rnd calls (a, w) = (a', w') \<Longrightarrow>
   sv_middlewares (ap_server a') = sv_middlewares (ap_server a) @ layers rnd (ap_limiters a) calls
   \<and> sv_config (ap_server a') = sv_config (ap_server a)"
proof (induction calls arbitrary: a w)
  case (Cons c calls)
  obtain a1 w1 where step: "perform rnd c (a, w) = (a1, w1)" by fastforce
  with Cons.prems have "performs rnd calls (a1, w1) = (a', w')" by simp
  from Cons.IH [OF this] show ?case using perform_chain [OF step] by simp
qed simp

lemma performs_routes:
  "performs rnd calls (a, w) = (a', w') \<Longrightarrow>
   ap_router a' = fold (\<lambda>c. case c of Handle r fn \<Rightarrow> Route_handle r fn | _ \<Rightarrow> id) calls (ap_router a)"
proof (induction calls arbitrary: a w)
  case (Cons c calls)
  obtain a1 w1 where step: "perform rnd c (a, w) = (a1, w1)" by fastforce
  with Cons.prems have "performs rnd calls (a1, w1) = (a', w')" by simp
  from Cons.IH [OF this] perform_chain(5) [OF step] show ?case by (auto split: call.splits)
qed simp

lemma layers_append: "\<exists>k'. layers rnd k (cs @ ds) = layers rnd k cs @ layers rnd k' ds"
proof (induction cs arbitrary: k)
  case (Cons c cs)
  from Cons.IH [of "if limits c then k + 1 else k"] show ?case by auto
qed auto

text \<open>The routes a program registers, the last one for a key first.\<close>

fun registration :: "'u call \<Rightarrow> (string \<times> 'u world handler) option" where
  "registration (Handle r fn) = Some (route_key (rt_method r) (rt_path r), fn)"
| "registration _ = None"

definition registered :: "'u call list \<Rightarrow> 'u world routes" where
  "registered calls = map_of (rev (List.map_filter registration calls))"

lemma fold_registered:
  "fold (\<lambda>c. case c of Handle r fn \<Rightarrow> Route_handle r fn | _ \<Rightarrow> id) calls m = m ++ registered calls"
proof (induction calls arbitrary: m)
  case Nil
  then show ?case by (simp add: registered_def List.map_filter_simps)
next
  case (Cons c calls)
  have "m ++ registered (c # calls) = (case registration c of None \<Rightarrow> m | Some (k, fn) \<Rightarrow> m(k \<mapsto> fn)) ++ registered calls"
    by (cases c) (auto simp: registered_def List.map_filter_simps map_add_def fun_eq_iff split: option.split)
  with Cons.IH show ?case
    by (cases c) (auto simp: Route_handle_def addRoute_def fun_upd_def)
qed

text \<open>Calls whose layer lets every \<open>GET\<close> request through, or that add no layer.\<close>

fun transparent :: "'u call \<Rightarrow> bool" where
  "transparent (Rate_limit n p) = False"
| "transparent Csrf_check = False"
| "transparent Sanitize = False"
| "transparent Sessions = False"
| "transparent (Use mw) = False"
| "transparent Guard_paths = False"
| "transparent _ = True"

lemma csrf_without_session:
  assumes "rq_method req = ''GET''" and "rq_session req = None"
  shows "fst (run_chain (Csrf wd_sessions put_sessions wd_buffers wd_random # ms) final (req, res, w)) = Some Undefined_behaviour"
  using assms by (simp add: Csrf_def csrf_issue_def update_session_def Let_def)

lemma transparent_chain:
  assumes "rq_method req = ''GET''" and "rq_session req = None" and "list_all transparent pre"
  shows "fst (run_chain (layers rnd k pre @ Csrf wd_sessions put_sessions wd_buffers wd_random # ms) final (req, res, w))
    = Some Undefined_behaviour"
  using assms(3)
proof (induction pre arbitrary: k res)
  case Nil
  then show ?case using csrf_without_session [OF assms(1,2)] by simp
next
  case (Cons c pre)
  note IH = Cons.IH [where k = "if limits c then k + 1 else k"]
  show ?case
  proof (cases c)
    case (Cors origin)
    with IH Cons.prems assms(1) show ?thesis by (simp add: cors_def Let_def)
  next
    case Log
    with IH [where res = res] Cons.prems show ?thesis by (auto simp: Logger_def Let_def split: prod.splits option.splits)
  next
    case (Secure csp)
    with IH Cons.prems show ?thesis by (simp add: SecureHeaders_def)
  qed (use IH Cons.prems in simp_all)
qed

subsection \<open>Properties\<close>

text \<open>An application that cannot be constructed leaves nothing behind: whichever step fails (a
  value of the configuration, the epoll instance, the certificate, the key), the descriptors and
  the TLS contexts are those from before; when it succeeds, there is one descriptor more, and
  one context more exactly when TLS is configured.\<close>

theorem failed_start_leaves_nothing:
  assumes "App_construct epoll env w (cw, o0, t0) = (r, cw', o1, t1)"
  shows "case r of
      Inl e \<Rightarrow> os_open o1 = os_open o0 \<and> tl_contexts t1 = tl_contexts t0
    | Inr ((a, w'), ev, ctx) \<Rightarrow> el_epfd ev \<notin> os_open o0 \<and> os_open o1 = insert (el_epfd ev) (os_open o0)
        \<and> fst (loadConfig cw) = Inr (ap_config a) \<and> (ctx = None \<longleftrightarrow> \<not> cfg_use_tls (ap_config a))
        \<and> dom (tl_contexts t1) = dom (tl_contexts t0) \<union> (case ctx of None \<Rightarrow> {} | Some c \<Rightarrow> set_option (tc_ctx c))"
proof (cases "fst (loadConfig cw)")
  case (Inl e)
  with assms show ?thesis by (cases "loadConfig cw") (auto simp: App_construct_def)
next
  case (Inr cfg)
  obtain x o2 where loop: "EventLoop_new epoll (cfg_max_connections cfg) o0 = (x, o2)" by fastforce
  obtain y t2 where ctx: "TlsContext_new env (cfg_cert_path cfg) (cfg_key_path cfg) t0 = (y, t2)" by fastforce
  show ?thesis
  proof (cases x)
    case (Inl e)
    with loop have "o2 = o0" by (auto simp: EventLoop_new_def sys_open_def split: if_splits)
    with assms Inl Inr loop show ?thesis
      by (cases "loadConfig cw") (auto simp: App_construct_def Server_construct_def)
  next
    fix ev
    assume ev: "x = Inr ev"
    with loop have new: "el_epfd ev \<notin> os_open o0" "os_open o2 = insert (el_epfd ev) (os_open o0)" "el_epfd ev \<noteq> -1"
      by (auto simp: EventLoop_new_def sys_open_def split: if_splits)
    then have undone: "os_open (EventLoop_destroy ev o2) = os_open o0" by (simp add: EventLoop_destroy_def)
    from ctx show ?thesis
    proof (cases rule: TlsContext_new_cases)
      case (failed msg)
      with assms Inr loop ev ctx new undone show ?thesis
        by (cases "loadConfig cw") (auto simp: App_construct_def Server_construct_def split: if_splits)
    next
      case (made c)
      with assms Inr loop ev ctx new show ?thesis
        by (cases "loadConfig cw") (auto simp: App_construct_def Server_construct_def split: if_splits)
    qed
  qed
qed

text \<open>C34. The calls of a program become its chain in their order: when \<open>listen\<close> starts the server of a
  new application after any calls, every request runs through exactly the layers the calls asked
  for, first call outermost, a route is handled by the last handler registered for it, and the
  server has the configuration that was loaded.\<close>

theorem calls_become_chain:
  assumes "App_construct epoll env w s = (Inr ((a, w0), ev, ctx), s')" and "performs rnd calls (a, w0) = (a', w1)"
    and "app_listen (a', w1) = (sv, w2)"
  shows "sv_middlewares sv = layers rnd 0 calls \<and> sv_router sv = Some (registered calls)
    \<and> fst (loadConfig (fst s)) = Inr (sv_config sv) \<and> w2 = w1"
proof -
  have a: "fst (loadConfig (fst s)) = Inr (sv_config (ap_server a))" "sv_middlewares (ap_server a) = []"
    "ap_limiters a = 0" "ap_router a = Map.empty"
    using assms(1) by (auto simp: App_construct_def Server_construct_def server_new_def
      split: prod.splits sum.splits if_splits)
  have "sv = server_mount (ap_router a') (ap_server a')" "w2 = w1" using assms(3) by (simp_all add: app_listen_def)
  then show ?thesis
    using performs_chain [OF assms(2)] performs_routes [OF assms(2)] a
    by (simp add: server_mount_def fold_registered)
qed

text \<open>The order of the calls matters: a program that switches the CSRF check on before the
  sessions, or without them, is undefined on every \<open>GET\<close> request, for whatever path and handler,
  because the check dereferences the session that the request does not have.\<close>

theorem csrf_before_session_undefined:
  assumes "performs rnd (pre @ Csrf_check # post) (a, w0) = (a', w1)" and "sv_middlewares (ap_server a) = []"
    and "list_all transparent pre" and "rq_method req = ''GET''" and "rq_session req = None"
    and "app_listen (a', w1) = (sv, w2)"
  shows "respond hst sv handler (req, res, w) = Inl Undefined_behaviour"
proof -
  have "sv_middlewares sv = layers rnd (ap_limiters a) (pre @ Csrf_check # post)"
    using performs_chain [OF assms(1)] assms(2,6) by (auto simp: app_listen_def server_mount_def)
  moreover obtain k where "layers rnd (ap_limiters a) (pre @ Csrf_check # post) =
      layers rnd (ap_limiters a) pre @ layers rnd k (Csrf_check # post)"
    using layers_append by blast
  ultimately have "fst (run_chain (sv_middlewares sv) (last_effect hst sv handler) (req, res, w)) = Some Undefined_behaviour"
    using transparent_chain [OF assms(4,5,3)] by simp
  then show ?thesis by (auto simp: respond_def split: prod.splits option.splits)
qed

subsection \<open>Witnesses\<close>

text \<open>TLS is configured, but the certificate cannot be loaded.\<close>

definition bad_files :: tls_env where
  "bad_files = (good_files 9)\<lparr>te_chain := (\<lambda>f. 0)\<rparr>"

definition tls_project :: conf_world where
  "tls_project = \<lparr>cw_dir_name = ''shop'', cw_conf_dir = True, cw_file = Some ''tls=on'', cw_can_create = True, cw_can_open = True\<rparr>"

lemma tls_project_config: "loadConfig tls_project = (Inr (default_config\<lparr>cfg_use_tls := True\<rparr>), tls_project)"
proof -
  have "pieces (CHR 0x0A) ''tls=on'' = [''tls=on'']" by code_simp
  then show ?thesis
    by (simp add: loadConfig_def tls_project_def read_config_def Let_def default_config_def config_eval)
qed

theorem failed_start_leaves_nothing_witness:
  "\<exists>o1 t1. App_construct 7 bad_files plain_world (tls_project, sample_os, no_tls)
      = (Inl (Runtime_error ''cert load failed''), tls_project, o1, t1)
    \<and> os_open o1 = {3, 4} \<and> tl_contexts t1 = Map.empty"
proof -
  let ?e = "Runtime_error ''cert load failed''"
  obtain o1 t1 where start: "App_construct 7 bad_files plain_world (tls_project, sample_os, no_tls) = (Inl ?e, tls_project, o1, t1)"
    by (simp add: App_construct_def tls_project_config Server_construct_def EventLoop_new_def sample_sockets
      TlsContext_new_def bad_files_def good_files_def no_tls_def ctx_free_def)
  from failed_start_leaves_nothing [OF start] start show ?thesis by (simp add: sample_os_def no_tls_def)
qed

text \<open>A program that is run from its build directory, without TLS.\<close>

definition built_project :: conf_world where
  "built_project = \<lparr>cw_dir_name = ''build'', cw_conf_dir = True, cw_file = None, cw_can_create = True, cw_can_open = True\<rparr>"

definition shop_calls :: "unit call list" where
  "shop_calls = [Log, Sessions, Csrf_check, Handle (route_get ''/'') echo]"

lemma built_project_starts:
  "\<exists>a w ev s'. App_construct 7 bad_files plain_world (built_project, sample_os, no_tls) = (Inr ((a, w), ev, None), s')
     \<and> sv_middlewares (ap_server a) = []"
  by (simp add: App_construct_def loadConfig_def built_project_def default_config_def Server_construct_def
      EventLoop_new_def sample_sockets server_new_def)

theorem calls_become_chain_witness:
  "\<exists>a w0 ev s' a' w1 sv w2. App_construct 7 bad_files plain_world (built_project, sample_os, no_tls) = (Inr ((a, w0), ev, None), s')
     \<and> performs id shop_calls (a, w0) = (a', w1) \<and> app_listen (a', w1) = (sv, w2)
     \<and> length (sv_middlewares sv) = 3 \<and> sv_router sv = Some [''GET:/'' \<mapsto> echo] \<and> sv_config sv = default_config"
proof -
  obtain a w0 ev s' where start: "App_construct 7 bad_files plain_world (built_project, sample_os, no_tls) = (Inr ((a, w0), ev, None), s')"
    using built_project_starts by blast
  obtain a' w1 where calls: "performs id shop_calls (a, w0) = (a', w1)" by fastforce
  obtain sv w2 where listen': "app_listen (a', w1) = (sv, w2)" by fastforce
  have "fst (loadConfig built_project) = Inr default_config" by (simp add: loadConfig_def built_project_def)
  moreover have "length (layers id 0 shop_calls) = 3" "registered shop_calls = [''GET:/'' \<mapsto> echo]"
    by (simp_all add: shop_calls_def registered_def List.map_filter_simps route_key_def route_get_def)
  ultimately show ?thesis
    using calls_become_chain [OF start calls listen'] start calls listen' by (cases s') auto
qed

theorem csrf_before_session_undefined_witness:
  "\<exists>a w0 a' w1 sv w2. performs id [Log, Csrf_check, Sessions] (a, w0) = (a', w1) \<and> app_listen (a', w1) = (sv, w2)
     \<and> respond plain_host sv None (empty_request\<lparr>rq_method := ''GET''\<rparr>, new_response, plain_world) = Inl Undefined_behaviour"
proof -
  obtain a w0 where start: "sv_middlewares (ap_server (a :: unit app)) = []" and w0: "w0 = plain_world"
    using built_project_starts by blast
  obtain a' w1 where calls: "performs id ([Log] @ Csrf_check # [Sessions]) (a, w0) = (a', w1)" by fastforce
  obtain sv w2 where listen': "app_listen (a', w1) = (sv, w2)" by fastforce
  have "rq_method (empty_request\<lparr>rq_method := ''GET''\<rparr>) = ''GET''" "rq_session (empty_request\<lparr>rq_method := ''GET''\<rparr>) = None"
    "list_all transparent ([Log] :: unit call list)"
    by (simp_all add: empty_request_def)
  from csrf_before_session_undefined [OF calls start this(3,1,2) listen'] calls listen' show ?thesis
    by (intro exI [of _ a] exI [of _ w0] exI [of _ a'] exI [of _ w1] exI [of _ sv] exI [of _ w2]) simp
qed

end
