(* ===== verification/Gates.thy ===== *)
theory Gates
  imports App
begin

section \<open>Gates in front of an application\<close>

text \<open>
  The rate limiter and the path guard as parts of a running application. Both are gates: they
  decide about a request by a step on a state of their own and either refuse it or let the rest of
  the chain have it. When nothing else touches that state, a sequence of requests through the
  whole chain is decided exactly as a sequence of steps of the gate alone, so what
  \<^verbatim>\<open>Rate_Limiter\<close> and \<^verbatim>\<open>Path_Guard\<close> prove of such sequences holds of the
  application.
\<close>

subsection \<open>The contract\<close>

fun decisions :: "('i \<Rightarrow> 's \<Rightarrow> bool \<times> 's) \<Rightarrow> 'i list \<Rightarrow> 's \<Rightarrow> bool list" where
  "decisions step [] s = []"
| "decisions step (i # is) s = (case step i s of (ok, s') \<Rightarrow> ok # decisions step is s')"

lemma length_decisions [simp]: "length (decisions step is s) = length is"
  by (induction "is" arbitrary: s) (auto split: prod.split)

text \<open>An effect that leaves a part of the state alone.\<close>

definition leaves :: "('w \<Rightarrow> 's) \<Rightarrow> 'w effect \<Rightarrow> bool" where
  "leaves get f \<longleftrightarrow> (\<forall>req res w. get (snd (snd (snd (f (req, res, w))))) = get w)"

lemma leavesI: "(\<And>req res w e req' res' w'. f (req, res, w) = (e, req', res', w') \<Longrightarrow> get w' = get w) \<Longrightarrow> leaves get f"
  by (simp add: leaves_def) (metis prod.collapse)

lemma leavesD: "leaves get f \<Longrightarrow> f (req, res, w) = (e, req', res', w') \<Longrightarrow> get w' = get w"
  by (metis leaves_def snd_conv)

text \<open>
  A request that arrives: what the handler's end of the chain does with it, and what happens to
  the shared state before it is handled (the clocks move on, other parts change).
\<close>

record 'w arrival =
  ar_req :: request
  ar_res :: response
  ar_final :: "'w effect"
  ar_before :: "'w \<Rightarrow> 'w"

fun serve_each :: "'w middleware list \<Rightarrow> 'w arrival list \<Rightarrow> 'w \<Rightarrow> (exn option \<times> 'w ctx) list" where
  "serve_each mws [] w = []"
| "serve_each mws (a # as) w =
     (case run_chain mws (ar_final a) (ar_req a, ar_res a, ar_before a w) of
        (e, req, res, w') \<Rightarrow> (e, req, res, w') # serve_each mws as w')"

locale gate = component get put
  for get :: "'w \<Rightarrow> 's" and put :: "'s \<Rightarrow> 'w \<Rightarrow> 'w" +
  fixes mw :: "'w middleware" and sees :: "request \<Rightarrow> 'w \<Rightarrow> 'i" and step :: "'i \<Rightarrow> 's \<Rightarrow> bool \<times> 's"
    and refuse :: "response \<Rightarrow> response"
  assumes admits: "step (sees req w) (get w) = (True, s) \<Longrightarrow> mw (req, res, w) nxt = nxt (req, res, put s w)"
    and refuses: "step (sees req w) (get w) = (False, s) \<Longrightarrow> mw (req, res, w) nxt = (None, req, refuse res, put s w)"
begin

text \<open>What becomes of each request, given the decisions.\<close>

lemma serve_each_decided:
  assumes "list_all2 (\<lambda>a i. leaves get (run_chain ms (ar_final a))
      \<and> (\<forall>w. get (ar_before a w) = get w \<and> sees (ar_req a) (ar_before a w) = i)) as is"
  shows "list_all2 (\<lambda>(a, ok) r. \<exists>w. r = (if ok then run_chain ms (ar_final a) (ar_req a, ar_res a, w)
        else (None, ar_req a, refuse (ar_res a), w)))
    (zip as (decisions step is (get w))) (serve_each (mw # ms) as w)"
  using assms
proof (induction as "is" arbitrary: w rule: list_all2_induct)
  case Nil
  then show ?case by simp
next
  case (Cons a as i "is")
  let ?w = "ar_before a w"
  have sees: "sees (ar_req a) ?w = i" "get ?w = get w" using Cons.hyps(1) by auto
  obtain ok s where step: "step i (get w) = (ok, s)" by fastforce
  obtain e req res w' where run: "run_chain (mw # ms) (ar_final a) (ar_req a, ar_res a, ?w) = (e, req, res, w')"
    by (metis prod_cases4)
  have "get w' = s \<and> (\<exists>w. (e, req, res, w') = (if ok then run_chain ms (ar_final a) (ar_req a, ar_res a, w)
        else (None, ar_req a, refuse (ar_res a), w)))"
  proof (cases ok)
    case True
    with run step admits [of "ar_req a" ?w s] sees
    have inner: "run_chain ms (ar_final a) (ar_req a, ar_res a, put s ?w) = (e, req, res, w')" by simp
    have "leaves get (run_chain ms (ar_final a))" using Cons.hyps(1) by simp
    from leavesD [OF this inner] have "get w' = s" by (simp add: get_put)
    with inner True show ?thesis by metis
  next
    case False
    with run step refuses [of "ar_req a" ?w s] sees show ?thesis by (auto simp: get_put)
  qed
  moreover from this have "list_all2 (\<lambda>(a, ok) r. \<exists>w. r = (if ok then run_chain ms (ar_final a) (ar_req a, ar_res a, w)
        else (None, ar_req a, refuse (ar_res a), w)))
    (zip as (decisions step is s)) (serve_each (mw # ms) as w')"
    using Cons.IH [of w'] by simp
  ultimately show ?case using run by (simp add: step del: run_chain_simps)
qed

end

subsection \<open>The two gates\<close>

interpretation limiter_gate: gate "get_buckets k" "put_buckets k"
  "RateLimiter (get_buckets k) (put_buckets k) (\<lambda>w. wd_clock w k) rnd m p"
  "\<lambda>req w. (rq_client_ip req, wd_clock w k)" "\<lambda>(ip, now) bs. limiter_step rnd m p ip now bs"
  "\<lambda>res. res_body ''Too Many Requests'' (res_status 429 res)" for k rnd m p
  by unfold_locales (simp_all add: RateLimiter_def Let_def)

interpretation guard_gate: gate wd_guard put_guard "guard_toMiddleware wd_guard put_guard"
  "\<lambda>req w. req" "\<lambda>req g. case guard_check req g of (blocked, g') \<Rightarrow> (\<not> blocked, g')" "res_status 403"
  by unfold_locales (auto simp: guard_toMiddleware_def Let_def split: prod.splits)

text \<open>Their decisions are the runs the two theories are about.\<close>

lemma limiter_decisions:
  "decisions (\<lambda>(ip, now) bs. limiter_step rnd m p ip now bs) reqs bs = fst (limiter_run rnd m p reqs bs)"
  by (induction reqs arbitrary: bs) (auto split: prod.split)

lemma guard_decisions:
  "decisions (\<lambda>req g. case guard_check req g of (blocked, g') \<Rightarrow> (\<not> blocked, g')) reqs g = map Not (fst (guard_run reqs g))"
  by (induction reqs arbitrary: g) (auto simp: Let_def split: prod.split)

subsection \<open>What the other layers leave alone\<close>

text \<open>A part of the shared state that the sessions and the log do not belong to.\<close>

definition apart :: "('u world \<Rightarrow> 's) \<Rightarrow> bool" where
  "apart get \<longleftrightarrow> (\<forall>w s l. get (put_sessions s w) = get w \<and> get (put_log l w) = get w)"

text \<open>The calls whose layers leave it alone, when its own gate is not asked for again.\<close>

definition spares :: "('u world \<Rightarrow> 's) \<Rightarrow> nat \<Rightarrow> 'u call \<Rightarrow> bool" where
  "spares get k c \<longleftrightarrow> (\<forall>mw. c \<noteq> Use mw)
     \<and> (limits c \<longrightarrow> (\<forall>j \<ge> k. \<forall>bs w. get (put_buckets j bs w) = get w))
     \<and> (c = Guard_paths \<longrightarrow> (\<forall>g w. get (put_guard g w) = get w))"

lemma filter_leaves:
  assumes "\<And>req res w. case decide (req, res, w) of
      Stop (_, _, w') \<Rightarrow> get w' = get w | Continue (_, _, w') \<Rightarrow> get w' = get w | Throw e (_, _, w') \<Rightarrow> get w' = get w"
    and "\<And>c nxt. mw c nxt = follow (decide c) nxt" and "leaves get nxt"
  shows "leaves get (\<lambda>c. mw c nxt)"
proof (unfold leaves_def, intro allI)
  fix req res w
  show "get (snd (snd (snd (mw (req, res, w) nxt)))) = get w"
    using assms(1) [where req = req and res = res and w = w] assms(3) unfolding assms(2) leaves_def
    by (cases "decide (req, res, w)") auto
qed

lemma layer_leaves:
  assumes "layer rnd k c = Some mw" and "apart get" and "spares get k c" and "leaves get nxt"
  shows "leaves get (\<lambda>x. mw x nxt)"
proof (cases c)
  case (Cors origin)
  then have "mw = cors [origin]" using assms(1) by simp
  then show ?thesis
    using assms(4) by (auto intro!: filter_leaves [OF _ cors_filter.decides] simp: cors_decide_def)
next
  case (Rate_limit n p)
  then have mw: "mw = RateLimiter (get_buckets k) (put_buckets k) (\<lambda>w. wd_clock w k) rnd n p" using assms(1) by simp
  have "get (put_buckets k bs w) = get w" for bs w using assms(3) Rate_limit by (auto simp: spares_def)
  then show ?thesis
    unfolding mw using assms(4)
    by (intro filter_leaves [OF _ limiter_filter.decides]) (auto simp: limiter_decide_def Let_def split: prod.splits)
next
  case Log
  then have mw: "mw = Logger wd_log put_log wd_time" using assms(1) by simp
  show ?thesis
    unfolding mw using assms(2,4) by (intro leavesI)
      (auto simp: Logger_def Let_def apart_def split: prod.splits option.splits dest: leavesD)
next
  case Csrf_check
  then have mw: "mw = Csrf wd_sessions put_sessions wd_buffers wd_random" using assms(1) by simp
  show ?thesis
    unfolding mw using assms(2,4) by (intro filter_leaves [OF _ csrf_filter.decides])
      (auto simp: csrf_decide_def apart_def split: prod.splits sum.splits)
next
  case Sanitize
  then have "mw = Sanitizer" using assms(1) by simp
  then show ?thesis
    using assms(4) by (auto intro!: filter_leaves [OF _ sanitizer_filter.decides] simp: sanitizer_decide_def)
next
  case (Secure csp)
  then have "mw = SecureHeaders csp" using assms(1) by simp
  then show ?thesis
    using assms(4) by (auto intro!: filter_leaves [OF _ secure_filter.decides] simp: secure_decide_def)
next
  case Sessions
  then have mw: "mw = Session wd_sessions put_sessions wd_session_env 3600 ''session_id'' ''HttpOnly; Secure; SameSite=Strict''"
    using assms(1) by simp
  show ?thesis
    unfolding mw using assms(2,4) by (intro filter_leaves [OF _ session_filter.decides])
      (auto simp: session_decide_def apart_def split: prod.splits)
next
  case Guard_paths
  then have mw: "mw = guard_toMiddleware wd_guard put_guard" using assms(1) by simp
  have "get (put_guard g w) = get w" for g w using assms(3) Guard_paths by (auto simp: spares_def)
  then show ?thesis
    unfolding mw using assms(4) by (intro filter_leaves [OF _ guard_filter.decides])
      (auto simp: guard_decide_def Let_def split: prod.splits)
qed (use assms in \<open>simp_all add: spares_def\<close>)

lemma layers_leave:
  "list_all (spares get k) calls \<Longrightarrow> apart get \<Longrightarrow> leaves get final \<Longrightarrow> leaves get (run_chain (layers rnd k calls) final)"
proof (induction calls arbitrary: k)
  case (Cons c calls)
  have "list_all (spares get (if limits c then k + 1 else k)) calls"
    using Cons.prems(1) by (auto simp: list_all_iff spares_def)
  from Cons.IH [OF this Cons.prems(2,3)] Cons.prems layer_leaves [of rnd k c _ get]
  show ?case by (cases "layer rnd k c") auto
qed simp

lemma apart_gates: "apart (get_buckets k)" "apart wd_guard"
  by (simp_all add: apart_def put_defs)

text \<open>The buckets of a limiter are still empty when the server starts.\<close>

lemma perform_buckets:
  assumes "perform rnd c (a, w) = (a', w')" and "k < ap_limiters a"
  shows "get_buckets k w' = get_buckets k w" and "k < ap_limiters a'"
  using assms by (cases c; auto simp: app_defs Let_def put_defs)+

lemma performs_buckets:
  "performs rnd calls (a, w) = (a', w') \<Longrightarrow> k < ap_limiters a \<Longrightarrow> get_buckets k w' = get_buckets k w"
proof (induction calls arbitrary: a w)
  case (Cons c calls)
  obtain a1 w1 where step: "perform rnd c (a, w) = (a1, w1)" by fastforce
  with Cons.prems(1) have "performs rnd calls (a1, w1) = (a', w')" by simp
  from Cons.IH [OF this perform_buckets(2) [OF step Cons.prems(2)]] perform_buckets(1) [OF step Cons.prems(2)]
  show ?case by simp
qed simp

lemma listen_world: "app_listen (a, w) = (sv, w') \<Longrightarrow> w' = w \<and> sv_middlewares sv = sv_middlewares (ap_server a)"
  by (auto simp: app_listen_def server_mount_def)

subsection \<open>Properties\<close>

text \<open>An application that asks for \<open>rateLimit\<close> first is limited as a whole: whatever layers,
  routes and handlers come behind, as long as handlers leave the buckets alone, every request is
  either refused with 429 or handled by the rest of the chain, and of the requests of one address
  that arrive up to some instant at most \<open>max_requests\<close> are handled, plus the ones for which the
  time since the start is long enough at \<open>max_requests\<close> per period, up to rounding.\<close>

theorem rate_limited_application:
  assumes "performs rnd (Rate_limit m p # calls) (a, w0) = (a', w1)" and "app_listen (a', w1) = (sv, w2)"
    and "sv_middlewares (ap_server a) = []" and "ap_limiters a = 0" and "list_all (\<lambda>c. \<forall>mw. c \<noteq> Use mw) calls"
    and "list_all2 (\<lambda>x t. leaves (get_buckets 0) (ar_final x)
        \<and> (\<forall>w. get_buckets 0 (ar_before x w) = get_buckets 0 w \<and> wd_clock (ar_before x w) 0 = t)) as ts"
    and "sorted (start # ts)" and "last (start # ts) \<le> until"
    and "rounds_within e rnd" and "0 \<le> m" and "0 < p"
  shows "\<exists>oks. list_all2 (\<lambda>(x, ok) r. \<exists>w. r = (if ok then run_chain (layers rnd 1 calls) (ar_final x) (ar_req x, ar_res x, w)
        else (None, ar_req x, res_body ''Too Many Requests'' (res_status 429 (ar_res x)), w)))
      (zip as oks) (serve_each (sv_middlewares sv) as w2)
    \<and> of_nat (admitted ip (zip (map (\<lambda>x. rq_client_ip (ar_req x)) as) ts) oks)
      \<le> of_int m + gain e m p (until - start)
        + of_nat (length (filter (\<lambda>x. rq_client_ip (ar_req x) = ip) as)) * (2 * e * of_int m)"
proof -
  let ?ins = "zip (map (\<lambda>x. rq_client_ip (ar_req x)) as) ts"
  obtain a1 wa where step: "perform rnd (Rate_limit m p) (a, w0) = (a1, wa)" by fastforce
  then have rest: "performs rnd calls (a1, wa) = (a', w1)" using assms(1) by simp
  have "ap_limiters a1 = 1" "get_buckets 0 wa = Map.empty"
    using step assms(4) by (auto simp: app_defs Let_def put_defs)
  then have empty: "get_buckets 0 w2 = Map.empty"
    using performs_buckets [OF rest, of 0] listen_world [OF assms(2)] by simp
  have chain: "sv_middlewares sv = RateLimiter (get_buckets 0) (put_buckets 0) (\<lambda>w. wd_clock w 0) rnd m p # layers rnd 1 calls"
    using performs_chain [OF assms(1)] listen_world [OF assms(2)] assms(3,4) by simp
  have "list_all (spares (get_buckets 0) 1) calls"
    using assms(5) by (auto simp: list_all_iff spares_def put_defs)
  note spared = layers_leave [OF this apart_gates(1)]
  have len: "length as = length ts" using assms(6) by (rule list_all2_lengthD)
  have "list_all2 (\<lambda>x i. leaves (get_buckets 0) (run_chain (layers rnd 1 calls) (ar_final x))
      \<and> (\<forall>w. get_buckets 0 (ar_before x w) = get_buckets 0 w
             \<and> (rq_client_ip (ar_req x), wd_clock (ar_before x w) 0) = i)) as ?ins"
    using assms(6) len spared by (simp add: list_all2_conv_all_nth)
  note decided = limiter_gate.serve_each_decided [OF this, of rnd m p w2]
  have ins: "map snd ?ins = ts" "length (filter (\<lambda>q. fst q = ip) ?ins) = length (filter (\<lambda>x. rq_client_ip (ar_req x) = ip) as)"
    using len by (simp, induction as ts rule: list_induct2) simp_all
  have "limiter_ok start (Map.empty :: buckets)" by (simp add: limiter_ok_def)
  from admitted_window [OF assms(9-11) this, of ?ins until ip] assms(7,8)
  have "of_nat (admitted ip ?ins (fst (limiter_run rnd m p ?ins Map.empty)))
    \<le> of_int m + gain e m p (until - start) + of_nat (length (filter (\<lambda>x. rq_client_ip (ar_req x) = ip) as)) * (2 * e * of_int m)"
    unfolding ins by blast
  with decided show ?thesis unfolding chain empty limiter_decisions by blast
qed

text \<open>C21. An application that asks for the path guard first shuts offenders out: whatever layers,
  routes and handlers come behind, a request is refused with 403 exactly when its client is not on
  the whitelist and was on the blacklist before or asked, now or earlier, for a guarded path;
  every other request is handled by the rest of the chain.\<close>

theorem guarded_application:
  assumes "performs rnd (Guard_paths # calls) (a, w0) = (a', w1)" and "app_listen (a', w1) = (sv, w2)"
    and "sv_middlewares (ap_server a) = []" and "list_all (\<lambda>c. (\<forall>mw. c \<noteq> Use mw) \<and> c \<noteq> Guard_paths) calls"
    and "list_all (\<lambda>x. leaves wd_guard (ar_final x) \<and> (\<forall>w. wd_guard (ar_before x w) = wd_guard w)) as"
    and "i < length as"
  shows "\<exists>w. serve_each (sv_middlewares sv) as w2 ! i =
    (let ip = rq_client_ip (ar_req (as ! i)) in
     if ip \<notin> pg_whitelist (wd_guard w2) \<and>
        (ip \<in> pg_blacklist (wd_guard w2)
         \<or> (\<exists>j \<le> i. rq_client_ip (ar_req (as ! j)) = ip \<and> guarded (wd_guard w2) (rq_path (ar_req (as ! j)))))
     then (None, ar_req (as ! i), res_status 403 (ar_res (as ! i)), w)
     else run_chain (layers rnd (ap_limiters a) calls) (ar_final (as ! i)) (ar_req (as ! i), ar_res (as ! i), w))"
proof -
  let ?reqs = "map ar_req as"
  have chain: "sv_middlewares sv = guard_toMiddleware wd_guard put_guard # layers rnd (ap_limiters a) calls"
    using performs_chain [OF assms(1)] listen_world [OF assms(2)] assms(3) by simp
  have "list_all (spares wd_guard (ap_limiters a)) calls"
    using assms(4) by (auto simp: list_all_iff spares_def put_defs)
  note spared = layers_leave [OF this apart_gates(2)]
  have "list_all2 (\<lambda>x r. leaves wd_guard (run_chain (layers rnd (ap_limiters a) calls) (ar_final x))
      \<and> (\<forall>w. wd_guard (ar_before x w) = wd_guard w \<and> ar_req x = r)) as ?reqs"
    using assms(5) spared by (simp add: list_all2_conv_all_nth list_all_length)
  note decided = guard_gate.serve_each_decided [OF this, of w2]
  obtain bs g' where run: "guard_run ?reqs (wd_guard w2) = (bs, g')" by fastforce
  have blocked: "length bs = length as" "bs ! i \<longleftrightarrow> rq_client_ip (ar_req (as ! i)) \<notin> pg_whitelist (wd_guard w2) \<and>
      (rq_client_ip (ar_req (as ! i)) \<in> pg_blacklist (wd_guard w2)
       \<or> (\<exists>j \<le> i. rq_client_ip (ar_req (as ! j)) = rq_client_ip (ar_req (as ! i)) \<and> guarded (wd_guard w2) (rq_path (ar_req (as ! j)))))"
    using guard_run_blocked [OF run, of i] assms(6) by (auto simp: offends_def)
  from list_all2_nthD [OF decided, of i] assms(6) blocked(1)
  have "\<exists>w. serve_each (sv_middlewares sv) as w2 ! i =
    (if bs ! i then (None, ar_req (as ! i), res_status 403 (ar_res (as ! i)), w)
     else run_chain (layers rnd (ap_limiters a) calls) (ar_final (as ! i)) (ar_req (as ! i), ar_res (as ! i), w))"
    unfolding guard_decisions run chain by (cases "bs ! i") simp_all
  then show ?thesis unfolding blocked(2) Let_def .
qed

subsection \<open>Witnesses\<close>

definition fresh_app :: "unit app" where
  "fresh_app = \<lparr>ap_config = default_config, ap_router = Map.empty, ap_server = server_new default_config, ap_limiters = 0\<rparr>"

lemma fresh_app_simps: "sv_middlewares (ap_server fresh_app) = []" "ap_limiters fresh_app = 0"
  by (simp_all add: fresh_app_def server_new_def)

text \<open>A request that is answered by a handler without effect, at a given time.\<close>

definition asks :: "string \<Rightarrow> string \<Rightarrow> int \<Rightarrow> unit world arrival" where
  "asks ip path t =
     \<lparr>ar_req = empty_request\<lparr>rq_client_ip := ip, rq_path := path\<rparr>, ar_res = new_response,
      ar_final = (\<lambda>c. (None, c)), ar_before = (\<lambda>w. w\<lparr>wd_clock := (\<lambda>k. t)\<rparr>)\<rparr>"

lemma asks_simps [simp]:
  "rq_client_ip (ar_req (asks ip path t)) = ip" "rq_path (ar_req (asks ip path t)) = path"
  "leaves get (ar_final (asks ip path t))" "get_buckets k (ar_before (asks ip path t) w) = get_buckets k w"
  "wd_clock (ar_before (asks ip path t) w) k = t" "wd_guard (ar_before (asks ip path t) w) = wd_guard w"
  "ar_res (asks ip path t) = new_response"
  by (simp_all add: asks_def leaves_def get_buckets_def)

theorem rate_limited_application_witness:
  "\<exists>sv w2 oks. app_listen (performs id [Rate_limit 1 1, Log] (fresh_app, plain_world)) = (sv, w2)
     \<and> list_all2 (\<lambda>(x, ok) r. \<exists>w. r = (if ok then run_chain (layers id 1 [Log]) (ar_final x) (ar_req x, ar_res x, w)
          else (None, ar_req x, res_body ''Too Many Requests'' (res_status 429 (ar_res x)), w)))
        (zip [asks ''a'' ''/'' 0, asks ''a'' ''/'' 5] oks)
        (serve_each (sv_middlewares sv) [asks ''a'' ''/'' 0, asks ''a'' ''/'' 5] w2)
     \<and> admitted ''a'' [(''a'', 0), (''a'', 5)] oks \<le> 1"
proof -
  let ?as = "[asks ''a'' ''/'' 0, asks ''a'' ''/'' 5]"
  obtain a' w1 where calls: "performs id [Rate_limit 1 1, Log] (fresh_app, plain_world) = (a', w1)" by fastforce
  obtain sv w2 where listen': "app_listen (a', w1) = (sv, w2)" by fastforce
  have exact: "rounds_within 0 id" by (simp add: rounds_within_def)
  have "list_all2 (\<lambda>x t. leaves (get_buckets 0) (ar_final x)
        \<and> (\<forall>w. get_buckets 0 (ar_before x w) = get_buckets 0 w \<and> wd_clock (ar_before x w) 0 = t)) ?as [0, 5]"
    "list_all (\<lambda>c. \<forall>mw. c \<noteq> Use mw) ([Log] :: unit call list)" "sorted [0, 0, 5 :: int]" "last [0, 0, 5 :: int] \<le> 5"
    by simp_all
  from rate_limited_application [OF calls listen' fresh_app_simps this(2,1,3,4) exact, where ip = "''a''"]
  obtain oks where oks: "list_all2 (\<lambda>(x, ok) r. \<exists>w. r = (if ok then run_chain (layers id 1 [Log]) (ar_final x) (ar_req x, ar_res x, w)
        else (None, ar_req x, res_body ''Too Many Requests'' (res_status 429 (ar_res x)), w)))
      (zip ?as oks) (serve_each (sv_middlewares sv) ?as w2)"
    and "of_nat (admitted ''a'' [(''a'', 0), (''a'', 5)] oks) \<le> (1 :: rat) + gain 0 1 1 5"
    by auto
  then have "of_nat (admitted ''a'' [(''a'', 0), (''a'', 5)] oks) < (of_nat 2 :: rat)"
    by (simp add: gain_def)
  then have "admitted ''a'' [(''a'', 0), (''a'', 5)] oks < 2" by (simp only: of_nat_less_iff)
  with oks calls listen' show ?thesis by (intro exI [of _ sv] exI [of _ w2] exI [of _ oks]) simp
qed

theorem guarded_application_witness:
  "\<exists>sv w2 w. app_listen (performs id [Guard_paths, Log] (fresh_app, plain_world)) = (sv, w2)
     \<and> serve_each (sv_middlewares sv) [asks ''1'' ''/.env'' 0, asks ''1'' ''/'' 5] w2 ! 1
       = (None, ar_req (asks ''1'' ''/'' 5), res_status 403 new_response, w)"
proof -
  let ?as = "[asks ''1'' ''/.env'' 0, asks ''1'' ''/'' 5]"
  obtain a' w1 where calls: "performs id [Guard_paths, Log] (fresh_app, plain_world) = (a', w1)" by fastforce
  obtain sv w2 where listen': "app_listen (a', w1) = (sv, w2)" by fastforce
  have "wd_guard w1 = new_path_guard" using calls by (auto simp: app_defs plain_world_def)
  then have guard: "wd_guard w2 = new_path_guard" using listen_world [OF listen'] by simp
  have "list_all (\<lambda>c. (\<forall>mw. c \<noteq> Use mw) \<and> c \<noteq> Guard_paths) ([Log] :: unit call list)"
    "list_all (\<lambda>x. leaves wd_guard (ar_final x) \<and> (\<forall>w. wd_guard (ar_before x w) = wd_guard w)) ?as" "1 < length ?as"
    by simp_all
  moreover have "guarded new_path_guard ''/.env''" "''1'' \<notin> pg_whitelist new_path_guard"
    by (simp_all add: guarded_def new_path_guard_def)
  then have "\<exists>j \<le> 1. rq_client_ip (ar_req (?as ! j)) = ''1'' \<and> guarded new_path_guard (rq_path (ar_req (?as ! j)))"
    "''1'' \<notin> pg_whitelist new_path_guard"
    by (auto intro: exI [of _ 0])
  ultimately obtain w where "serve_each (sv_middlewares sv) ?as w2 ! 1 = (None, ar_req (?as ! 1), res_status 403 new_response, w)"
    using guarded_application [OF calls listen' fresh_app_simps(1), of ?as 1] by (auto simp: guard)
  with calls listen' show ?thesis by (intro exI [of _ sv] exI [of _ w2] exI [of _ w]) simp
qed

end
