(* ===== verification/Pipelining.thy ===== *)
theory Pipelining
  imports Serving
begin

section \<open>Requests that are sent ahead\<close>

text \<open>
  What \<open>handleRequest\<close> of \<^verbatim>\<open>src/core/server.cpp\<close> does when a client does not wait for
  the answer to a request before it sends the next one, as HTTP/1.1 allows: the read loop takes up
  to 4096 bytes at a time, and what it has read beyond the blank line of a request without a
  length is the body of that request.
\<close>

text \<open>A request without a length is everything that the read brings in which its head ends.\<close>

lemma receive_unannounced:
  assumes "open_wire wi" and "wi_in wi = raw # segs" and "length raw \<le> 4096" and "raw \<noteq> []"
    and "find_sub (crlf @ crlf) raw = Some he" and "\<not> contains raw cl_text"
  shows "receive cfg wi = (Inr raw, wi\<lparr>wi_in := segs\<rparr>)"
proof -
  have "wire_read 4096 wi = (raw, wi\<lparr>wi_in := segs\<rparr>)"
    using assms(1-3) by (simp add: wire_read_def open_wire_def)
  then have "read_head wi [] = (raw, wi\<lparr>wi_in := segs\<rparr>)"
    using assms(4,5) by (simp add: read_head.simps)
  moreover have "content_length_of raw = Inr 0"
    using assms(6) by (simp add: content_length_of_def contains_def)
  ultimately show ?thesis
    using assms(5) by (simp add: receive_def read_body.simps [of _ _ 0])
qed

lemma head_text_body [simp]: "head_text (m\<lparr>ms_body := b\<rparr>) = head_text m"
  by (simp add: head_text_def request_line_def message_target_def)

lemma head_text_found: "message_ok m \<Longrightarrow> \<exists>he. find_sub (crlf @ crlf) (head_text m @ t) = Some he"
  using find_blank_line [OF message_lines_ok, of m t] by (auto simp: head_text_def)

lemma head_text_not_Nil [simp]: "head_text m \<noteq> []"
  by (simp add: head_text_def)

text \<open>C32. A request that is sent ahead is swallowed: when a request without a body and without a
  length is followed in the same segment by any text, such as the client's next request, the text
  becomes the body of the request; exactly one response is sent, nothing of the text is left in
  flight, and what becomes of the connection is decided as if nothing had been lost.\<close>

theorem pipelined_request_swallowed:
  assumes "message_ok m" and "ms_body m = []" and "\<not> contains (message_text m @ t) cl_text"
    and "open_wire wi" and "wi_in wi = (message_text m @ t) # segs" and "length (message_text m @ t) \<le> 4096"
    and "secured hst (wi_conn wi)" and "wi_accept wi = []"
    and "message_fits (sv_config sv) (m\<lparr>ms_body := t\<rparr>)"
    and "map_of (rev (ms_headers m)) ''Content-Length'' = None" and "map_of (rev (ms_headers m)) ''Content-Type'' = None"
    and "map_of (rev (ms_headers m)) ''Connection'' = None"
    and "sv_router sv = Some routes"
    and "resolve (hs_route_order hst) routes (ms_method m) (normalizePath (ms_path m))
      ((message_request m)\<lparr>rq_body := t, rq_client_ip := cn_ip (wi_conn wi)\<rparr>) = (handler, req1)"
    and "respond hst sv handler (req1, setCache True new_response, w) = Inr (req2, res, w')"
  shows "handleRequest hst sv (wi, w) = Some (Inr (after_response req2,
    wi\<lparr>wi_in := segs,
       wi_out := wi_out wi @ res_build (hs_header_order hst (rs_headers (with_length res))) res\<rparr>, w'))"
proof -
  let ?m = "m\<lparr>ms_body := t\<rparr>"
  let ?req = "(message_request m)\<lparr>rq_body := t, rq_client_ip := cn_ip (wi_conn wi)\<rparr>"
  have raw: "message_text m @ t = head_text m @ t" "message_text ?m = head_text m @ t"
    using assms(2) by (simp_all add: message_text_head)
  obtain he where "find_sub (crlf @ crlf) (head_text m @ t) = Some he"
    using head_text_found [OF assms(1)] by blast
  from receive_unannounced [OF assms(4,5,6) _ this [folded raw(1)] assms(3)]
  have received: "receive (sv_config sv) wi = (Inr (message_text ?m), wi\<lparr>wi_in := segs\<rparr>)"
    unfolding raw by simp
  have ok: "message_ok ?m" "message_length_ok ?m"
    using assms(1,10) by (simp_all add: message_ok_def message_length_ok_def)
  have req: "(message_request ?m)\<lparr>rq_client_ip := ip\<rparr> = (message_request m)\<lparr>rq_body := t, rq_client_ip := ip\<rparr>" for ip
    by (simp add: message_request_def message_head_def)
  have fields: "rq_method ?req = ms_method m" "rq_path ?req = normalizePath (ms_path m)"
    "\<not> rq_parse_error ?req" "\<not> isUpgrade ?req"
    using assms(12) by (simp_all add: message_request_def message_head_def empty_request_def isUpgrade_def getHeader_def)
  have "parse_request (hs_new hst) (sv_config sv) (wd_buffers w) (message_text ?m) = (Inr (message_request ?m), wd_buffers w)"
    using assms(11) by (simp add: parse_message [OF ok(1) assms(9) ok(2)] parse_body_def getHeader_def message_request_def)
  then have "handleRequest hst sv (wi, w) = answer hst sv ?req (wi\<lparr>wi_in := segs\<rparr>, w)"
    using received assms(7) fields(3) by (auto simp: handleRequest_def secured_def parse_and_answer_def Let_def req)
  also have "\<dots> = Some (Inr (after_response req2, send_response hst res (wi\<lparr>wi_in := segs\<rparr>), w'))"
    using assms(13-15) fields by (simp add: answer_def)
  finally show ?thesis
    using assms(4,8) by (simp add: send_response_all)
qed

text \<open>Two requests for the same page, of which the first one gets the text of the second one echoed.\<close>

definition sample_ahead :: message where
  "sample_ahead =
     \<lparr>ms_method = ''GET'', ms_path = ''/b c'', ms_query = [], ms_version = ''HTTP/1.1'',
      ms_headers = [(''Host'', ''x'')], ms_body = []\<rparr>"

lemma sample_ahead_ok: "message_ok sample_ahead" "ms_body sample_ahead = []"
  "\<not> contains (message_text sample_ahead @ message_text sample_ahead) cl_text"
  "length (message_text sample_ahead @ message_text sample_ahead) \<le> 4096"
  by code_simp+

theorem pipelined_request_swallowed_witness:
  "\<exists>wi. handleRequest plain_host plain_server
        (sample_wire [message_text sample_ahead @ message_text sample_ahead], plain_world) = Some (Inr (Rearmed, wi, plain_world))
     \<and> wi_in wi = [] \<and> wi_out wi = res_build [''Content-Type'', ''Content-Length'']
         (res_html (message_text sample_ahead) (setCache True new_response))"
proof -
  let ?t = "message_text sample_ahead"
  let ?wi = "sample_wire [?t @ ?t]"
  let ?req = "(message_request sample_ahead)\<lparr>rq_body := ?t, rq_client_ip := cn_ip (wi_conn ?wi)\<rparr>"
  let ?res = "res_html ?t (setCache True new_response)"
  have wire: "open_wire ?wi" "wi_in ?wi = (?t @ ?t) # []" "wi_accept ?wi = []" "wi_out ?wi = []"
    by (simp_all add: sample_wire_def open_wire_def new_conn_def)
  have "length ?t = 34" by code_simp
  then have fits: "message_fits (sv_config plain_server) (sample_ahead\<lparr>ms_body := ?t\<rparr>)"
    by (simp add: sample_size sample_ahead_def plain_server_def)
  have headers: "map_of (rev (ms_headers sample_ahead)) ''Content-Length'' = None"
    "map_of (rev (ms_headers sample_ahead)) ''Content-Type'' = None"
    "map_of (rev (ms_headers sample_ahead)) ''Connection'' = None"
    by (simp_all add: sample_ahead_def)
  have path: "normalizePath (ms_path sample_ahead) = ''/b c''" "ms_method sample_ahead = ''GET''" by code_simp+
  have routes: "sv_router plain_server = Some (Route_handle (route_get ''/b c'') echo Map.empty)"
    by (simp add: plain_server_def)
  have resolve: "resolve (hs_route_order plain_host) (Route_handle (route_get ''/b c'') echo Map.empty)
      (ms_method sample_ahead) (normalizePath (ms_path sample_ahead)) ?req = (Some echo, ?req)"
    unfolding path by (simp add: resolve_def Route_handle_def addRoute_def route_get_def)
  have respond: "respond plain_host plain_server (Some echo) (?req, setCache True new_response, plain_world)
      = Inr (?req, ?res, plain_world)"
    by (simp add: respond_def last_effect_def plain_server_def echo_def)
  have close: "after_response ?req = Rearmed"
    using headers(3) by (simp add: after_response_def getHeader_def message_request_def)
  have order: "hs_header_order plain_host (rs_headers (with_length ?res)) = [''Content-Type'', ''Content-Length'']"
    by (simp add: plain_host_def with_length_def res_html_def res_header_def res_body_def res_status_def setCache_def
        new_response_def)
  show ?thesis
    using pipelined_request_swallowed [OF sample_ahead_ok(1-3) wire(1,2) sample_ahead_ok(4) secured_sample wire(3)
      fits headers routes resolve respond]
    unfolding close order by (simp add: wire(4))
qed

end
