(* ===== verification/Keep_Alive.thy ===== *)
theory Keep_Alive
  imports Pipelining
begin

section \<open>Connections that stay open\<close>

text \<open>
  Between the requests of one connection the server watches its descriptor: \<open>Server::start\<close> of
  \<^verbatim>\<open>src/core/server.cpp\<close> waits for the next bytes, takes the descriptor out of the event
  loop and hands the connection to a worker, and \<open>handleRequest\<close> puts it back when the connection
  is to go on. This theory follows one connection through its requests and compares it with the
  protocol as the programs at both ends see it, which knows neither segments nor buffers.
\<close>

subsection \<open>The requests of one connection\<close>

text \<open>
  One entry of the list for each time the event loop finds the connection readable, with what
  the machine does during that request. Bytes that have not arrived do not wake the loop, so a
  request starts behind the pause.
\<close>

fun serve_connection ::
  "host list \<Rightarrow> 'u server \<Rightarrow> wire \<times> 'u world \<Rightarrow> (fate \<times> wire \<times> 'u world) result option" where
  "serve_connection [] sv s = Some (Inr (Rearmed, s))"
| "serve_connection (hst # hsts) sv s =
     (case handleRequest hst sv (await (fst s), snd s) of
        None \<Rightarrow> None
      | Some (Inl e) \<Rightarrow> Some (Inl e)
      | Some (Inr (Erased, s')) \<Rightarrow> Some (Inr (Erased, s'))
      | Some (Inr (Rearmed, s')) \<Rightarrow> serve_connection hsts sv s')"

subsection \<open>The protocol\<close>

text \<open>A message, how it arrives, and the machine that serves it.\<close>

type_synonym delivery = "host \<times> message \<times> string list"

definition arrival_ok :: "'u server \<Rightarrow> conn \<Rightarrow> delivery \<Rightarrow> bool" where
  "arrival_ok sv c a \<longleftrightarrow> (case a of (hst, m, segs) \<Rightarrow>
     message_ok m \<and> announced m \<and> message_length_ok m \<and> message_fits (sv_config sv) m
     \<and> length (ms_body m) \<le> cfg_max_upload_size (sv_config sv) \<and> length (ms_body m) < 2 ^ 42
     \<and> \<not> multipart m \<and> \<not> isUpgrade (message_request m)
     \<and> [] \<notin> set segs \<and> concat segs = message_text m \<and> turns (after_head [] segs) \<le> length (ms_body m) div 4096 + 11
     \<and> secured hst c)"

text \<open>What is in flight: every message behind a pause.\<close>

definition in_turn :: "delivery list \<Rightarrow> string list" where
  "in_turn as = concat (map (\<lambda>(hst, m, segs). [] # segs) as)"

text \<open>The server as its programs see it: a request in, a response out.\<close>

definition reply ::
  "'u server \<Rightarrow> 'u world routes \<Rightarrow> string \<Rightarrow> host \<Rightarrow> message \<Rightarrow> 'u world \<Rightarrow> (request \<times> response \<times> 'u world) result" where
  "reply sv routes ip hst m w =
     (case resolve (hs_route_order hst) routes (ms_method m) (normalizePath (ms_path m))
             ((parsed_request m)\<lparr>rq_client_ip := ip\<rparr>) of
        (handler, req) \<Rightarrow> respond hst sv handler (req, setCache True new_response, w))"

definition response_text :: "host \<Rightarrow> response \<Rightarrow> string" where
  "response_text hst res = res_build (hs_header_order hst (rs_headers (with_length res))) res"

text \<open>
  Request after request until one of them says \<^verbatim>\<open>Connection: close\<close>: the bytes that
  were answered, what becomes of the connection, what is left of the requests, and the world.
\<close>

fun exchange ::
  "'u server \<Rightarrow> 'u world routes \<Rightarrow> string \<Rightarrow> delivery list \<Rightarrow> 'u world \<Rightarrow> (string \<times> fate \<times> delivery list \<times> 'u world) result" where
  "exchange sv routes ip [] w = Inr ([], Rearmed, [], w)"
| "exchange sv routes ip ((hst, m, segs) # as) w =
     bind_result (reply sv routes ip hst m w) (\<lambda>(req, res, w1).
       if after_response req = Erased then Inr (response_text hst res, Erased, as, w1)
       else bind_result (exchange sv routes ip as w1) (\<lambda>(out, fate, left, w2).
         Inr (response_text hst res @ out, fate, left, w2)))"

subsection \<open>One request\<close>

lemma in_turn_simps [simp]: "in_turn [] = []" "in_turn ((hst, m, segs) # as) = [] # segs @ in_turn as"
  by (simp_all add: in_turn_def)

lemma in_turn_pauses: "in_turn as = [] \<or> hd (in_turn as) = []"
  by (cases as) (auto simp: in_turn_def)

lemma message_segments: "concat segs = message_text m \<Longrightarrow> [] \<notin> set segs \<Longrightarrow> \<exists>s ss. segs = s # ss \<and> s \<noteq> []"
  by (cases segs) (auto simp: eq_commute [of "[]" "message_text m"])

lemma await_arrival:
  assumes "wi_in wi = in_turn ((hst, m, segs) # as)" and "concat segs = message_text m" and "[] \<notin> set segs"
  shows "await wi = wi\<lparr>wi_in := segs @ in_turn as\<rparr>"
  using message_segments [OF assms(2,3)] assms(1) by (auto simp: await_def)

lemma serve_arrival_sends:
  assumes "arrival_ok sv (wi_conn wi) (hst, m, segs)" and "open_wire wi"
    and "wi_in wi = in_turn ((hst, m, segs) # as)" and "sv_router sv = Some routes"
    and "reply sv routes (cn_ip (wi_conn wi)) hst m w = Inr (req, res, w')"
  shows "handleRequest hst sv (await wi, w) =
    Some (Inr (after_response req, send_response hst res (wi\<lparr>wi_in := in_turn as\<rparr>), w'))"
proof -
  let ?wi = "wi\<lparr>wi_in := segs @ in_turn as\<rparr>"
  have ok: "message_ok m" "announced m" "message_length_ok m" "message_fits (sv_config sv) m"
    "length (ms_body m) \<le> cfg_max_upload_size (sv_config sv)" "length (ms_body m) < 2 ^ 42"
    "\<not> multipart m" "\<not> isUpgrade (message_request m)"
    "[] \<notin> set segs" "concat segs = message_text m" "turns (after_head [] segs) \<le> length (ms_body m) div 4096 + 11"
    "secured hst (wi_conn wi)"
    using assms(1) by (simp_all add: arrival_ok_def)
  obtain handler req0 where found: "resolve (hs_route_order hst) routes (ms_method m) (normalizePath (ms_path m))
      ((parsed_request m)\<lparr>rq_client_ip := cn_ip (wi_conn ?wi)\<rparr>) = (handler, req0)"
    by fastforce
  have respond: "respond hst sv handler (req0, setCache True new_response, w) = Inr (req, res, w')"
    using assms(5) found by (simp add: reply_def)
  have arrives: "arrives_until m (length (ms_body m)) segs (in_turn as) ?wi"
    using ok(9-11) assms(2) in_turn_pauses [of as]
    by (simp add: arrives_until_def waiting_def open_wire_def message_text_head)
  have wire: "secured hst (wi_conn ?wi)" using ok(12) by simp
  show ?thesis
    using message_served [OF ok(1,2) arrives ok(5,6) wire ok(4,3,7,8) assms(4) found respond]
    by (simp add: await_arrival [OF assms(3) ok(10,9)])
qed

lemma send_deliver:
  assumes "open_wire wi" and "deliver (wi_accept wi) (response_text hst res) = (sent, rest)"
  shows "send_response hst res wi = wi\<lparr>wi_out := wi_out wi @ sent, wi_accept := rest\<rparr>"
  using assms by (simp add: send_response_def open_wire_def response_text_def)

lemma serve_arrival:
  assumes "arrival_ok sv (wi_conn wi) (hst, m, segs)" and "open_wire wi" and "wi_accept wi = []"
    and "wi_in wi = in_turn ((hst, m, segs) # as)" and "sv_router sv = Some routes"
    and "reply sv routes (cn_ip (wi_conn wi)) hst m w = Inr (req, res, w')"
  shows "handleRequest hst sv (await wi, w) = Some (Inr (after_response req,
    wi\<lparr>wi_in := in_turn as, wi_out := wi_out wi @ response_text hst res\<rparr>, w'))"
  using serve_arrival_sends [OF assms(1,2,4-6)] assms(2,3)
    send_response_all [of "wi\<lparr>wi_in := in_turn as\<rparr>" hst res]
  by (simp add: open_wire_def response_text_def)

subsection \<open>Properties\<close>

text \<open>C2. A connection implements the request-response protocol: for any messages that a client sends
  one after the other, whatever the routes, middlewares and handlers are (as long as no exception
  escapes), the server answers them in order until one asks to close the connection; the state of the
  program is the one after these requests; the bytes that were sent are the responses, one behind the
  other; what was not answered is still in flight, and the connection is given up or watched as the
  last request says. The messages are well-formed and within the limits, announce the length of a
  body in the usual header, and are neither multipart forms nor upgrades; the socket takes what is
  written. Each message arrives without a pause, in any segments when it has no body; what is left of
  a body when the blank line has been read has to come in segments that take at most
  \<open>n div 4096 + 11\<close> reads for \<open>n\<close> bytes, because the server makes no more
  (\<open>small_segments_refused\<close>).\<close>

theorem connection_served:
  assumes "list_all (arrival_ok sv (wi_conn wi)) as" and "open_wire wi" and "wi_accept wi = []"
    and "wi_in wi = in_turn as" and "sv_router sv = Some routes"
    and "exchange sv routes (cn_ip (wi_conn wi)) as w = Inr (out, fate, left, w')"
  shows "serve_connection (map fst as) sv (wi, w) =
    Some (Inr (fate, wi\<lparr>wi_in := in_turn left, wi_out := wi_out wi @ out\<rparr>, w'))"
  using assms
proof (induction as arbitrary: wi w out)
  case Nil
  then show ?case by simp
next
  case (Cons a as)
  obtain hst m segs where a: "a = (hst, m, segs)" by (rule prod_cases3)
  from Cons.prems(6) obtain req res w1 where reply: "reply sv routes (cn_ip (wi_conn wi)) hst m w = Inr (req, res, w1)"
    by (auto simp: a bind_result_eq_Inr)
  let ?wi = "wi\<lparr>wi_in := in_turn as, wi_out := wi_out wi @ response_text hst res\<rparr>"
  have served: "handleRequest hst sv (await wi, w) = Some (Inr (after_response req, ?wi, w1))"
    using Cons.prems by (intro serve_arrival [OF _ _ _ _ _ reply]) (simp_all add: a)
  show ?case
  proof (cases "after_response req")
    case Erased
    with Cons.prems(6) served reply show ?thesis by (auto simp: a)
  next
    case Rearmed
    with Cons.prems(6) reply obtain out' where rest:
      "exchange sv routes (cn_ip (wi_conn ?wi)) as w1 = Inr (out', fate, left, w')" "out = response_text hst res @ out'"
      by (auto simp: a bind_result_eq_Inr)
    have "serve_connection (map fst as) sv (?wi, w1) =
        Some (Inr (fate, ?wi\<lparr>wi_in := in_turn left, wi_out := wi_out ?wi @ out'\<rparr>, w'))"
      using Cons.prems by (intro Cons.IH rest(1)) (simp_all add: open_wire_def)
    with Rearmed served rest(2) show ?thesis by (simp add: a)
  qed
qed

text \<open>C33. A client that reads slowly loses a part of a response without being told: when the socket
  takes the first \<open>n\<close> bytes of a response and its buffer is then full, the rest is
  dropped, although the response announces its whole length; the connection is kept, and the next
  response follows right behind the cut, where the client expects the rest of the first one.\<close>

theorem truncated_response_kept:
  assumes "arrival_ok sv (wi_conn wi) (hst, m, segs)" and "arrival_ok sv (wi_conn wi) (hst2, m2, segs2)"
    and "open_wire wi" and "wi_accept wi = [n, 0]" and "wi_in wi = in_turn [(hst, m, segs), (hst2, m2, segs2)]"
    and "sv_router sv = Some routes"
    and "reply sv routes (cn_ip (wi_conn wi)) hst m w = Inr (req, res, w1)" and "after_response req = Rearmed"
    and "reply sv routes (cn_ip (wi_conn wi)) hst2 m2 w1 = Inr (req2, res2, w2)"
    and "0 < n" and "n < length (response_text hst res)"
  shows "serve_connection [hst, hst2] sv (wi, w) = Some (Inr (after_response req2,
    wi\<lparr>wi_in := [], wi_accept := [],
       wi_out := wi_out wi @ take n (response_text hst res) @ response_text hst2 res2\<rparr>, w2))"
proof -
  let ?w1 = "wi\<lparr>wi_in := in_turn [(hst2, m2, segs2)], wi_out := wi_out wi @ take n (response_text hst res), wi_accept := []\<rparr>"
  have "deliver (wi_accept (wi\<lparr>wi_in := in_turn [(hst2, m2, segs2)]\<rparr>)) (response_text hst res) =
      (take n (response_text hst res), [])"
    using assms(4,10,11) by simp
  from send_deliver [OF _ this] assms(3)
  have "send_response hst res (wi\<lparr>wi_in := in_turn [(hst2, m2, segs2)]\<rparr>) = ?w1" by (simp add: open_wire_def)
  with serve_arrival_sends [OF assms(1,3,5,6,7)] assms(8)
  have first: "handleRequest hst sv (await wi, w) = Some (Inr (Rearmed, ?w1, w1))" by simp
  have "handleRequest hst2 sv (await ?w1, w1) = Some (Inr (after_response req2,
      ?w1\<lparr>wi_in := in_turn [], wi_out := wi_out ?w1 @ response_text hst2 res2\<rparr>, w2))"
    using assms(2,3,6,9) by (intro serve_arrival) (simp_all add: open_wire_def)
  with first show ?thesis by (cases "after_response req2") simp_all
qed

subsection \<open>A sample connection\<close>

text \<open>Three requests, of which the second asks to close the connection and the third stays unanswered.\<close>

definition sample_close :: message where
  "sample_close = sample_ahead\<lparr>ms_headers := [(''Host'', ''x''), (''Connection'', ''close'')]\<rparr>"

definition sample_arrivals :: "delivery list" where
  "sample_arrivals = map (\<lambda>m. (plain_host, m, halves 20 (message_text m))) [sample_ahead, sample_close, sample_ahead]"

lemma sample_close_ok: "message_ok sample_close" "ms_body sample_close = []" "\<not> contains (head_text sample_close) cl_text"
  by code_simp+

lemma sample_ahead_head: "\<not> contains (head_text sample_ahead) cl_text"
  by code_simp

lemma sample_arrival_ok:
  assumes "m \<in> {sample_ahead, sample_close}"
  shows "arrival_ok plain_server (wi_conn (sample_wire segs)) (plain_host, m, halves 20 (message_text m))"
proof -
  have "length (message_text sample_ahead) = 34" "length (message_text sample_close) = 53" by code_simp+
  with assms have len: "20 < length (message_text m)" "length (message_text m) < 100" by auto
  then have "turns (halves 20 (message_text m)) \<le> 2"
    using turns_short [of "halves 20 (message_text m)"] by (simp add: halves_def)
  moreover have "[] \<notin> set (halves 20 (message_text m))" "concat (halves 20 (message_text m)) = message_text m"
    using len by (auto simp: halves_def)
  moreover have "message_ok m" "ms_body m = []" "announced m"
    using assms sample_ahead_ok sample_close_ok sample_ahead_head by (auto simp: announced_def)
  moreover have "message_fits (sv_config plain_server) m"
    using assms by (auto simp: sample_size sample_ahead_def sample_close_def plain_server_def)
  moreover have "message_length_ok m" "\<not> multipart m"
    "\<not> isUpgrade (message_request m)"
    using assms by (auto simp: message_length_ok_def sample_ahead_def sample_close_def isUpgrade_def getHeader_def message_request_def
      multipart_def typed_def content_type_def)
  ultimately show ?thesis by (simp add: arrival_ok_def)
qed

lemma sample_plain: "m \<in> {sample_ahead, sample_close} \<Longrightarrow> parsed_request m = message_request m"
  by (rule parsed_request_untyped [THEN conjunct2]) (auto simp: content_type_def sample_ahead_def sample_close_def)

lemma sample_reply:
  assumes "m \<in> {sample_ahead, sample_close}"
  shows "reply plain_server (Route_handle (route_get ''/b c'') echo Map.empty) ip plain_host m plain_world =
    Inr ((message_request m)\<lparr>rq_client_ip := ip\<rparr>, res_html [] (setCache True new_response), plain_world)"
proof -
  have "normalizePath (ms_path m) = ''/b c''" "ms_method m = ''GET''" "rq_body (message_request m) = []"
    using assms Pipelining.sample_ahead_ok(2) sample_close_ok(2)
    by (auto simp: message_request_def, code_simp+)
  then show ?thesis
    by (simp add: sample_plain [OF assms] reply_def resolve_def Route_handle_def addRoute_def route_get_def respond_def last_effect_def
        plain_server_def echo_def)
qed

theorem connection_served_witness:
  "\<exists>wi. serve_connection [plain_host, plain_host, plain_host] plain_server
        (sample_wire (in_turn sample_arrivals), plain_world) = Some (Inr (Erased, wi, plain_world))
     \<and> wi_in wi = in_turn (drop 2 sample_arrivals)
     \<and> wi_out wi = concat (replicate 2 (response_text plain_host (res_html [] (setCache True new_response))))"
proof -
  let ?wi = "sample_wire (in_turn sample_arrivals)" and ?res = "res_html [] (setCache True new_response)"
  have wire: "open_wire ?wi" "wi_accept ?wi = []" "wi_in ?wi = in_turn sample_arrivals" "wi_out ?wi = []"
    by (simp_all add: sample_wire_def open_wire_def new_conn_def)
  have ok: "list_all (arrival_ok plain_server (wi_conn ?wi)) sample_arrivals"
    using sample_arrival_ok by (simp add: sample_arrivals_def)
  have routes: "sv_router plain_server = Some (Route_handle (route_get ''/b c'') echo Map.empty)"
    by (simp add: plain_server_def)
  have fates: "after_response ((message_request sample_ahead)\<lparr>rq_client_ip := ip\<rparr>) = Rearmed"
    "after_response ((message_request sample_close)\<lparr>rq_client_ip := ip\<rparr>) = Erased" for ip
    by (simp_all add: after_response_def getHeader_def message_request_def sample_ahead_def sample_close_def)
  have "exchange plain_server (Route_handle (route_get ''/b c'') echo Map.empty) (cn_ip (wi_conn ?wi)) sample_arrivals plain_world
      = Inr (response_text plain_host ?res @ response_text plain_host ?res, Erased, drop 2 sample_arrivals, plain_world)"
    by (simp add: sample_arrivals_def sample_reply fates)
  from connection_served [OF ok wire(1-3) routes this]
  have "serve_connection [plain_host, plain_host, plain_host] plain_server (?wi, plain_world) =
    Some (Inr (Erased, ?wi\<lparr>wi_in := in_turn (drop 2 sample_arrivals),
      wi_out := wi_out ?wi @ response_text plain_host ?res @ response_text plain_host ?res\<rparr>, plain_world))"
    by (simp only: sample_arrivals_def list.map prod.sel map_map o_def)
  then show ?thesis by (simp only: wire(4)) (simp add: numeral_2_eq_2)
qed

text \<open>A socket that takes ten bytes of the first response.\<close>

theorem truncated_response_kept_witness:
  "\<exists>wi. serve_connection [plain_host, plain_host] plain_server
        ((sample_wire (in_turn (take 2 sample_arrivals)))\<lparr>wi_accept := [10, 0]\<rparr>, plain_world) = Some (Inr (Erased, wi, plain_world))
     \<and> wi_out wi = ''HTTP/1.1 2'' @ response_text plain_host (res_html [] (setCache True new_response))"
proof -
  let ?ds = "map (\<lambda>m. (plain_host, m, halves 20 (message_text m))) [sample_ahead, sample_close]"
  let ?wi = "(sample_wire (in_turn ?ds))\<lparr>wi_accept := [10, 0]\<rparr>" and ?res = "res_html [] (setCache True new_response)"
  have ds: "in_turn (take 2 sample_arrivals) = in_turn ?ds" by (simp add: sample_arrivals_def)
  have wire: "open_wire ?wi" "wi_accept ?wi = [10, 0]" "wi_in ?wi = in_turn ?ds" "wi_out ?wi = []"
    by (simp_all add: sample_wire_def open_wire_def new_conn_def)
  have ok: "arrival_ok plain_server (wi_conn ?wi) (plain_host, m, halves 20 (message_text m))"
    if "m \<in> {sample_ahead, sample_close}" for m
    using sample_arrival_ok [OF that] by simp
  have routes: "sv_router plain_server = Some (Route_handle (route_get ''/b c'') echo Map.empty)"
    by (simp add: plain_server_def)
  have "status_line (rs_status ?res) = ''HTTP/1.1 200 OK''" by code_simp
  then have text_start: "take 10 (response_text plain_host ?res) = ''HTTP/1.1 2''" "10 < length (response_text plain_host ?res)"
    by (simp_all add: response_text_def res_build_def Let_def)
  have fates: "after_response ((message_request sample_ahead)\<lparr>rq_client_ip := cn_ip (wi_conn ?wi)\<rparr>) = Rearmed"
    "after_response ((message_request sample_close)\<lparr>rq_client_ip := cn_ip (wi_conn ?wi)\<rparr>) = Erased"
    by (simp_all add: after_response_def getHeader_def message_request_def sample_ahead_def sample_close_def)
  have "serve_connection [plain_host, plain_host] plain_server (?wi, plain_world) = Some (Inr (Erased,
    ?wi\<lparr>wi_in := [], wi_accept := [], wi_out := wi_out ?wi @ ''HTTP/1.1 2'' @ response_text plain_host ?res\<rparr>, plain_world))"
    using truncated_response_kept [OF ok [of sample_ahead] ok [of sample_close] wire(1,2) _ routes
        sample_reply [of sample_ahead] fates(1) sample_reply [of sample_close] _ text_start(2)]
    unfolding wire(3) fates(2) text_start(1) by simp
  then show ?thesis unfolding ds by (simp only: wire(4)) simp
qed

end
