(* ===== verification/Upgrade.thy ===== *)
theory Upgrade
  imports Serving
begin

section \<open>From a request to a WebSocket conversation\<close>

text \<open>
  Puts \<open>handleRequest\<close> and \<open>handleWebSocket\<close> of \<^verbatim>\<open>src/core/server.cpp\<close> together with the
  loop of \<^verbatim>\<open>src/net/websocket.cpp\<close>: the request that asks for the upgrade, the answer to
  it, and the frames that follow on the same connection. The handler that the program registers
  for the path is an object with its three callbacks.
\<close>

lemma handshake_ip [simp]: "ws_handshake SHA1 (req\<lparr>rq_client_ip := ip\<rparr>) = ws_handshake SHA1 req"
  by (simp add: ws_handshake_def getHeader_def)

lemma isUpgrade_ip [simp]: "isUpgrade (req\<lparr>rq_client_ip := ip\<rparr>) = isUpgrade req"
  by (simp add: isUpgrade_def getHeader_def)

lemma message_request_fields:
  "rq_path (message_request m) = normalizePath (ms_path m)" "\<not> rq_parse_error (message_request m)"
  by (simp_all add: message_request_def message_head_def empty_request_def)

text \<open>An upgrade request that has been read whole is handed to the handler of its path, behind the answer.\<close>

lemma handleRequest_upgrade:
  assumes "message_ok m" and "announced m" and "arrives_until m (length (ms_body m)) segs tail wi"
    and "length (ms_body m) \<le> cfg_max_upload_size (sv_config sv)" and "length (ms_body m) < 2 ^ 42"
    and "secured hst (wi_conn wi)" and "message_fits (sv_config sv) m" and "message_length_ok m"
    and "map_of (rev (ms_headers m)) ''Content-Type'' = None" and "isUpgrade (message_request m)"
    and "sv_ws_routes sv (normalizePath (ms_path m)) = Some handler"
  shows "handleRequest hst sv (wi, w) = map_option (\<lambda>r. bind_result r (\<lambda>s. Inr (Erased, s)))
    (handler (wire_write (ws_handshake (hs_SHA1 hst) (message_request m)) (wi\<lparr>wi_in := tail\<rparr>), w))"
proof -
  have "parse_request (hs_new hst) (sv_config sv) (wd_buffers w) (message_text m) = (Inr (message_request m), wd_buffers w)"
    using assms(9) by (simp add: parse_message [OF assms(1,7,8)] parse_body_def getHeader_def message_request_def)
  then show ?thesis
    using assms(10,11)
    by (simp add: handleRequest_whole [OF assms(1-6)] parse_and_answer_def answer_def handleWebSocket_def
        message_request_fields Let_def)
qed

subsection \<open>The conversation that follows\<close>

text \<open>C4. A WebSocket conversation is served end to end: a well-formed upgrade request for the path
  of a registered handler arrives in segments of any size, and after a pause the frames of the
  client, grouped into segments in any way. The server answers with the handshake for the key of
  the client, the program is given every message once and in order, what it sends in
  reaction follows the handshake on the wire, pings are answered, the closing frame is answered,
  the connection is closed and its entry in the map of connections erased.\<close>

theorem upgrade_served:
  assumes "message_ok m" and "announced m" and "arrives_until m (length (ms_body m)) segs tail wi"
    and "length (ms_body m) \<le> cfg_max_upload_size (sv_config sv)" and "length (ms_body m) < 2 ^ 42"
    and "cn_ssl (wi_conn wi) = None" and "message_fits (sv_config sv) m" and "message_length_ok m"
    and "map_of (rev (ms_headers m)) ''Content-Type'' = None" and "isUpgrade (message_request m)"
    and "sv_ws_routes sv (normalizePath (ms_path m)) = Some (WebSocket_run junk epfd ctl (talking opened cb farewell))"
    and "wi_accept wi = []" and "epfd \<noteq> -1" and "ctl \<noteq> -1"
    and "\<forall>f \<in> set fs. frame_ok f \<and> fst f \<noteq> 8" and "frame_ok (8, key, reason)"
    and "arrives (fs @ [(8, key, reason)]) tail"
    and "opened w = (w1, greeting)" and "dialogue cb fs w1 = (w2, sent)"
  shows "handleRequest hst sv (wi, w) = Some (Inr (Erased,
    wi\<lparr>wi_in := [],
       wi_out := wi_out wi @ ws_handshake (hs_SHA1 hst) (message_request m) @ replies_text greeting @ sent @ frame_bytes [] 8,
       wi_conn := (wi_conn wi)\<lparr>cn_fd := -1\<rparr>,
       wi_net := (wi_net wi)\<lparr>nt_open := nt_open (wi_net wi) - {cn_fd (wi_conn wi), epfd}\<rparr>\<rparr>,
    fst (farewell w2)))"
proof -
  let ?wi = "wi\<lparr>wi_in := tail, wi_out := wi_out wi @ ws_handshake (hs_SHA1 hst) (message_request m)\<rparr>"
  have hears: "hears_all (wi\<lparr>wi_in := tail\<rparr>)" "hears_all ?wi"
    using assms(3,12) by (simp_all add: hears_all_def arrives_until_def waiting_def open_wire_def)
  have answered: "wire_write (ws_handshake (hs_SHA1 hst) (message_request m)) (wi\<lparr>wi_in := tail\<rparr>) = ?wi"
    using wire_write_open [OF hears(1)] by simp
  have "WebSocket_run junk epfd ctl (talking opened cb farewell) (?wi, w) =
    Some (Inr (?wi\<lparr>wi_in := [], wi_out := wi_out ?wi @ replies_text greeting @ sent @ frame_bytes [] 8,
        wi_conn := (wi_conn ?wi)\<lparr>cn_ssl := None, cn_fd := -1\<rparr>,
        wi_net := (released (wi_conn ?wi) (wi_net ?wi))\<lparr>nt_open := nt_open (wi_net ?wi) - {cn_fd (wi_conn ?wi), epfd}\<rparr>\<rparr>,
      fst (farewell w2)))"
    unfolding WebSocket_run_talking
    by (rule conversation_run [OF hears(2)]) (use assms in simp_all)
  moreover have "cn_ssl (wi_conn wi) = None \<Longrightarrow> (wi_conn wi)\<lparr>cn_ssl := None\<rparr> = wi_conn wi"
    by (cases "wi_conn wi") simp
  ultimately show ?thesis
    using assms(6) by (simp add: handleRequest_upgrade [OF assms(1-5) secured_plain [OF assms(6)] assms(7-11)] answered released_def owned_fd_def)
qed

subsection \<open>A sample conversation\<close>

definition sample_upgrade :: message where
  "sample_upgrade =
     \<lparr>ms_method = ''GET'', ms_path = ''/ws'', ms_query = [], ms_version = ''HTTP/1.1'',
      ms_headers = [(''Upgrade'', ''websocket''), (''Connection'', ''Upgrade''),
        (''Sec-WebSocket-Key'', ''dGhlIHNhbXBsZSBub25jZQ=='')], ms_body = []\<rparr>"

definition echo_socket :: "unit world websocket" where
  "echo_socket = talking (\<lambda>w. (w, [(''hi'', 1)])) (\<lambda>p w. (w, [(p, 1)])) (\<lambda>w. (w, []))"

definition socket_server :: "unit server" where
  "socket_server = plain_server\<lparr>sv_ws_routes := [''/ws'' \<mapsto> WebSocket_run (\<lambda>_ _. CHR 0x00) 7 0 echo_socket]\<rparr>"

definition sample_segments :: "string list" where
  "sample_segments = halves 40 (message_text sample_upgrade)"

definition sample_frames :: "string list" where
  "sample_frames = [[], peer_frame 1 (Some ''key!'') ''abc'', peer_frame 8 None ''by'']"

lemma sample_upgrade_ok:
  "message_ok sample_upgrade" "message_length_ok sample_upgrade" "isUpgrade (message_request sample_upgrade)"
  by code_simp+

lemma sample_upgrade_announced: "announced sample_upgrade"
proof -
  have "\<not> contains (head_text sample_upgrade) cl_text" by code_simp
  then show ?thesis by (simp add: announced_def sample_upgrade_def)
qed

lemma sample_upgrade_fits: "message_fits (sv_config socket_server) sample_upgrade"
  by (simp add: sample_size sample_upgrade_def socket_server_def plain_server_def)

lemma sample_upgrade_arrives:
  "arrives_until sample_upgrade (length (ms_body sample_upgrade)) sample_segments sample_frames
     (sample_wire (sample_segments @ sample_frames))"
proof -
  have len: "length (message_text sample_upgrade) = 108" by code_simp
  then have "turns sample_segments \<le> 2"
    using turns_short [of sample_segments] by (simp add: halves_def sample_segments_def)
  moreover have "[] \<notin> set sample_segments"
    using len by (auto simp: halves_def sample_segments_def simp flip: length_greater_0_conv)
  moreover have "concat sample_segments = message_text sample_upgrade" by (simp add: sample_segments_def halves_def)
  ultimately show ?thesis
    by (simp add: arrives_until_def waiting_def message_text_head [symmetric] sample_frames_def sample_wire_def
        open_wire_def new_conn_def)
qed

theorem upgrade_served_witness:
  "\<exists>wi. handleRequest plain_host socket_server (sample_wire (sample_segments @ sample_frames), plain_world)
      = Some (Inr (Erased, wi, plain_world))
     \<and> wi_out wi = ws_handshake (hs_SHA1 plain_host) (message_request sample_upgrade) @ frame_bytes ''hi'' 1
         @ frame_bytes ''abc'' 1 @ frame_bytes [] 8"
proof -
  let ?wi = "sample_wire (sample_segments @ sample_frames)"
  let ?cb = "\<lambda>p w. (w :: unit world, [(p, 1 :: byte)])"
  have size: "length (ms_body sample_upgrade) \<le> cfg_max_upload_size (sv_config socket_server)"
    "length (ms_body sample_upgrade) < 2 ^ 42" "cn_ssl (wi_conn ?wi) = None" "wi_accept ?wi = []" "wi_out ?wi = []"
    by (simp_all add: sample_upgrade_def sample_wire_def new_conn_def)
  have plain: "map_of (rev (ms_headers sample_upgrade)) ''Content-Type'' = None" by code_simp
  have "normalizePath (ms_path sample_upgrade) = ''/ws''" by code_simp
  then have route: "sv_ws_routes socket_server (normalizePath (ms_path sample_upgrade)) =
    Some (WebSocket_run (\<lambda>_ _. CHR 0x00) 7 0 (talking (\<lambda>w. (w, [(''hi'', 1)])) ?cb (\<lambda>w. (w, []))))"
    by (simp add: socket_server_def echo_socket_def)
  have frames: "\<forall>f \<in> set [(1, Some ''key!'', ''abc'')]. frame_ok f \<and> fst f \<noteq> 8" "frame_ok (8, None, ''by'')"
    "arrives ([(1, Some ''key!'', ''abc'')] @ [(8, None, ''by'')]) sample_frames"
    by (simp_all add: frame_ok_def key_ok_def frame_text_def arrive_def sample_frames_def)
  have talk: "dialogue ?cb [(1, Some ''key!'', ''abc'')] plain_world = (plain_world, frame_bytes ''abc'' 1)"
    by (simp add: replies_text_def)
  have fds: "(7 :: int) \<noteq> -1" "(0 :: int) \<noteq> -1" by simp_all
  show ?thesis
    using upgrade_served [OF sample_upgrade_ok(1) sample_upgrade_announced sample_upgrade_arrives size(1-3)
      sample_upgrade_fits sample_upgrade_ok(2) plain sample_upgrade_ok(3) route size(4) fds frames refl talk, of plain_host]
    by (simp add: size(5) replies_text_def)
qed

end
