(* ===== verification/Tls_Websocket.thy ===== *)
theory Tls_Websocket
  imports Websocket
begin

section \<open>WebSocket loops that wait\<close>

text \<open>
  The loop of \<^verbatim>\<open>WebSocket::run\<close> in \<^verbatim>\<open>src/net/websocket.cpp\<close> on a connection whose peer stays
  silent after some bytes: \<^verbatim>\<open>epoll_wait\<close> is called before every frame and returns only
  when there is something on the socket. On a plain connection that is every byte that was not
  read. With TLS a read takes a whole record from the socket and what it does not ask for stays
  in the buffer of the library, where \<^verbatim>\<open>epoll_wait\<close> does not see it. The segments of the
  wire are the records, and \<open>held\<close> says that the first one is the rest of a record in that buffer.
\<close>

datatype 'u turns_end = Waiting bool "'u ws_state" | Ended "'u ws_state"

definition on_socket :: "bool \<Rightarrow> wire \<Rightarrow> string list" where
  "on_socket held w = filter (\<lambda>s. s \<noteq> []) (if held then tl (wi_in w) else wi_in w)"

text \<open>A read has stopped inside a record when what is left is not a number of whole ones.\<close>

definition inside :: "string list \<Rightarrow> string list \<Rightarrow> bool" where
  "inside before after \<longleftrightarrow> after \<noteq> drop (length before - length after) before"

partial_function (option) ws_turns ::
  "bool \<Rightarrow> stack \<Rightarrow> (string \<Rightarrow> 'u ws_state \<Rightarrow> 'u ws_state) option \<Rightarrow> bool \<Rightarrow> 'u ws_state \<Rightarrow> 'u turns_end result option" where
  "ws_turns tls junk on_message held s =
     (if on_socket held (fst s) = [] then Some (Inr (Waiting held s))
      else
        let w = (if held then fst s else await (fst s)) in
        case readFrame junk w of
          Inl e \<Rightarrow> Some (Inl e)
        | Inr (payload, w') \<Rightarrow>
            if payload = [] then Some (Inr (Ended (w', snd s)))
            else ws_turns tls junk on_message (tls \<and> inside (wi_in w) (wi_in w'))
                   (call (map_option (\<lambda>f. f payload) on_message) (w', snd s)))"

subsection \<open>Records of whole frames\<close>

definition record_text :: "frame list \<Rightarrow> string" where
  "record_text fs = concat (map frame_text fs)"

definition inbox :: "frame list \<Rightarrow> frame list list \<Rightarrow> string list" where
  "inbox cur rs = (if cur = [] then [] else [record_text cur]) @ map record_text rs"

lemma frame_text_not_Nil [simp]: "frame_text f \<noteq> []"
  by (cases f) (simp add: frame_text_def)

lemma record_text_simps [simp]: "record_text [] = []" "record_text (f # fs) = frame_text f @ record_text fs"
  by (simp_all add: record_text_def)

lemma record_text_Nil [simp]: "record_text fs = [] \<longleftrightarrow> fs = []"
  by (cases fs) auto

lemma inbox_record: "inbox [] (r # rs) = inbox r rs" if "r \<noteq> []"
  using that by (simp add: inbox_def)

lemma inbox_frame: "inbox (f # cur) rs = (frame_text f @ record_text cur) # map record_text rs"
  by (simp add: inbox_def)

lemma inbox_rest: "arrive (record_text cur) (map record_text rs) = inbox cur rs"
  by (simp add: inbox_def arrive_def)

lemma inside_inbox: "inside (inbox (f # cur) rs) (inbox cur rs) \<longleftrightarrow> cur \<noteq> []"
  by (auto simp: inside_def inbox_def)

text \<open>
  What a loop hears of the frames, the ones of the current record, of which a loop with TLS may hold
  the rest in its buffer, and the records behind it; and what it leaves there.
\<close>

fun heard :: "bool \<Rightarrow> bool \<Rightarrow> frame list \<Rightarrow> frame list list \<Rightarrow> frame list \<times> frame list" where
  "heard tls held [] [] = ([], [])"
| "heard tls held [] (r # rs) = heard tls False r rs"
| "heard tls held (f # cur) rs =
     (if held \<and> rs = [] then ([], f # cur) else case heard tls tls cur rs of (d, left) \<Rightarrow> (f # d, left))"

lemma heard_Nil: "heard tls held [] rs = heard tls False [] rs"
  by (cases rs) simp_all

lemma heard_plain: "heard False False cur rs = (cur @ concat rs, [])"
  by (induction False False cur rs rule: heard.induct) simp_all

lemma heard_held: "heard True True cur rs =
    (if rs = [] then ([], cur) else case heard True False [] rs of (d, left) \<Rightarrow> (cur @ d, left))"
  by (induction cur) (auto simp: heard_Nil [of True True] split: prod.split)

lemma heard_tls:
  "recs \<noteq> [] \<Longrightarrow> [] \<notin> set recs \<Longrightarrow>
   heard True False [] recs = (concat (butlast recs) @ [hd (last recs)], tl (last recs))"
proof (induction recs)
  case (Cons r recs)
  then obtain f cur where "r = f # cur" by (cases r) auto
  with Cons show ?case by (cases "recs = []") (simp_all add: heard_held)
qed simp

lemma not_close_read:
  assumes "hears_all w" and "wi_in w = (frame_text f @ rest) # segs" and "frame_ok f" and "f = (opcode, key, data)" and "opcode \<noteq> 8"
  shows "readFrame junk w = Inr (data, w\<lparr>wi_in := arrive rest segs,
    wi_out := wi_out w @ (if opcode = 9 then frame_bytes data 0xA else [])\<rparr>) \<and> data \<noteq> []"
proof -
  have "open_wire w" using assms(1) by (simp add: hears_all_def)
  with readFrame_peer [of w opcode key data rest segs junk] assms show ?thesis
    by (auto simp: frame_text_def frame_ok_def frame_effect_def sendFrame_def wire_write_open)
qed

lemma ws_turns_heard:
  assumes "hears_all w" and "wi_in w = inbox cur rs" and "[] \<notin> set rs"
    and "\<forall>f \<in> set (cur @ concat rs). frame_ok f \<and> fst f \<noteq> 8"
    and "dialogue cb (fst (heard tls held cur rs)) u = (u', sent)"
  shows "ws_turns tls junk (Some (\<lambda>p. react (cb p))) (held \<and> cur \<noteq> []) (w, u) =
    Some (Inr (Waiting (snd (heard tls held cur rs) \<noteq> [])
      (w\<lparr>wi_in := inbox (snd (heard tls held cur rs)) [], wi_out := wi_out w @ sent\<rparr>, u')))"
  using assms
proof (induction tls held cur rs arbitrary: w u u' sent rule: heard.induct)
  case (1 tls held)
  then show ?case by (subst ws_turns.simps) (simp add: on_socket_def inbox_def)
next
  case (2 tls held r rs)
  then have "r \<noteq> []" by auto
  with 2 show ?case by (simp add: inbox_record)
next
  case (3 tls held f cur rs)
  show ?case
  proof (cases "held \<and> rs = []")
    case True
    with 3 show ?thesis by (subst ws_turns.simps) (simp add: on_socket_def inbox_def)
  next
    case False
    obtain opcode key data where f: "f = (opcode, key, data)" by (cases f)
    obtain u1 replies where cb: "cb data u = (u1, replies)" by fastforce
    obtain sent' where rest: "dialogue cb (fst (heard tls tls cur rs)) u1 = (u', sent')"
      and sent: "sent = (if opcode = 9 then frame_bytes data 0xA else []) @ replies_text replies @ sent'"
      using "3.prems"(5) False by (auto simp: f cb split: prod.splits)
    let ?w = "w\<lparr>wi_in := inbox cur rs, wi_out := wi_out w @ (if opcode = 9 then frame_bytes data 0xA else [])\<rparr>"
    have read: "readFrame junk w = Inr (data, ?w)" "data \<noteq> []"
      using not_close_read [OF "3.prems"(1) _ _ f, of "record_text cur" "map record_text rs" junk] "3.prems"(2,4)
      by (simp_all add: inbox_frame inbox_rest f)
    have socket: "on_socket held w \<noteq> []"
      using False "3.prems"(2,3) by (cases rs) (auto simp: on_socket_def inbox_frame)
    have awake: "await w = w" using "3.prems"(2) by (simp add: await_def inbox_frame)
    let ?w' = "?w\<lparr>wi_out := wi_out ?w @ replies_text replies\<rparr>"
    have "ws_turns tls junk (Some (\<lambda>p. react (cb p))) held (w, u) =
        ws_turns tls junk (Some (\<lambda>p. react (cb p))) (tls \<and> cur \<noteq> []) (?w', u1)"
      using socket read awake "3.prems"(1,2)
      by (subst ws_turns.simps) (simp add: inside_inbox call_def react_def cb sends_open Let_def)
    moreover have "ws_turns tls junk (Some (\<lambda>p. react (cb p))) (tls \<and> cur \<noteq> []) (?w', u1) = Some (Inr (Waiting (snd (heard tls tls cur rs) \<noteq> [])
        (?w'\<lparr>wi_in := inbox (snd (heard tls tls cur rs)) [], wi_out := wi_out ?w' @ sent'\<rparr>, u')))"
      using "3.IH" [OF False, of ?w' u1 u' sent'] "3.prems" rest by simp
    moreover have "snd (heard tls held (f # cur) rs) = snd (heard tls tls cur rs)"
      using False by (auto split: prod.split)
    ultimately show ?thesis by (simp only: simp_thms list.distinct) (simp add: sent)
  qed
qed

text \<open>The loop that waits is the loop of \<open>Websocket\<close>, as far as it goes, on a plain connection.\<close>

lemma ws_turns_plain:
  assumes "ws_turns False junk cb False s = Some (Inr (Waiting held s'))"
  shows "ws_loop junk cb s = ws_loop junk cb s'"
proof -
  have "\<not> tls \<longrightarrow> \<not> held0 \<longrightarrow> (\<forall>held s'. r = Inr (Waiting held s') \<longrightarrow> ws_loop junk' cb' s0 = ws_loop junk' cb' s')"
    if "ws_turns tls junk' cb' held0 s0 = Some r" for tls junk' cb' held0 and s0 :: "'a ws_state" and r
    using that
  proof (induction tls junk' cb' held0 s0 r rule: ws_turns.raw_induct [rotated, consumes 1])
    case (1 turns tls junk cb held s r)
    show ?case
    proof (intro impI allI)
      fix h s' assume plain: "\<not> tls" "\<not> held" and r: "r = Inr (Waiting h s')"
      show "ws_loop junk cb s = ws_loop junk cb s'"
      proof (cases "on_socket held (fst s) = []")
        case True
        with 1(2) r show ?thesis by simp
      next
        case False
        with 1(2) plain r obtain payload w' where read: "readFrame junk (await (fst s)) = Inr (payload, w')" "payload \<noteq> []"
          and go: "turns False junk cb False (call (map_option (\<lambda>f. f payload) cb) (w', snd s)) = Some r"
          by (auto simp: Let_def split: sum.splits if_splits)
        from 1(1) [OF go] r have "ws_loop junk cb (call (map_option (\<lambda>f. f payload) cb) (w', snd s)) = ws_loop junk cb s'"
          by (cases s') simp
        with read show ?thesis by (subst ws_loop.simps) simp
      qed
    qed
  qed
  with assms show ?thesis by blast
qed

subsection \<open>Properties\<close>

text \<open>C38. With TLS the last messages are not heard: when a client sends frames in records, any number in
  each, and then is silent, the loop on a plain connection hears all of them, but on a connection
  with TLS the frames behind the first one of the last record stay in the buffer of the TLS
  library, unanswered, while the loop waits for the socket. Only when every record is one frame
  do both hear the same.\<close>

theorem tls_frames_stall:
  assumes "hears_all w" and "wi_in w = map record_text recs" and "recs \<noteq> []" and "[] \<notin> set recs"
    and "\<forall>f \<in> set (concat recs). frame_ok f \<and> fst f \<noteq> 8"
    and "dialogue cb (concat (butlast recs) @ [hd (last recs)]) u = (u1, sent1)" and "dialogue cb (concat recs) u = (u2, sent2)"
  shows "ws_turns True junk (Some (\<lambda>p. react (cb p))) False (w, u) =
      Some (Inr (Waiting (tl (last recs) \<noteq> [])
        (w\<lparr>wi_in := inbox (tl (last recs)) [], wi_out := wi_out w @ sent1\<rparr>, u1)))
    \<and> ws_turns False junk (Some (\<lambda>p. react (cb p))) False (w, u) =
      Some (Inr (Waiting False (w\<lparr>wi_in := [], wi_out := wi_out w @ sent2\<rparr>, u2)))"
proof -
  have w: "wi_in w = inbox [] recs" using assms(2) by (simp add: inbox_def)
  show ?thesis
    using ws_turns_heard [OF assms(1) w assms(4), of cb True False u u1 sent1 junk]
      ws_turns_heard [OF assms(1) w assms(4), of cb False False u u2 sent2 junk] assms(5-7)
    by (simp add: heard_tls [OF assms(3,4)] heard_plain inbox_def)
qed

theorem tls_frames_stall_witness:
  "ws_turns True (\<lambda>_ _. CHR 0x00) (Some (\<lambda>p. react (\<lambda>n. (n + length p, [])))) False
     (sample_wire [frame_text (1, None, ''ab'') @ frame_text (1, None, ''cde'')], 0 :: nat) =
   Some (Inr (Waiting True (sample_wire [frame_text (1, None, ''cde'')], 2)))"
proof -
  let ?recs = "[[(1, None, ''ab''), (1, None, ''cde'')]] :: frame list list"
  let ?w = "sample_wire (map record_text ?recs)" and ?cb = "\<lambda>p n. (n + length p, [] :: (string \<times> byte) list)"
  have hyps: "hears_all ?w" "wi_in ?w = map record_text ?recs" "?recs \<noteq> []" "[] \<notin> set ?recs"
    "\<forall>f \<in> set (concat ?recs). frame_ok f \<and> fst f \<noteq> 8"
    by (simp_all add: hears_all_def open_wire_def sample_wire_def new_conn_def frame_ok_def key_ok_def)
  have talk: "dialogue ?cb (concat (butlast ?recs) @ [hd (last ?recs)]) 0 = (2, [])" "dialogue ?cb (concat ?recs) 0 = (5, [])"
    by (simp_all add: replies_text_def)
  from tls_frames_stall [where junk = "\<lambda>_ _. CHR 0x00", OF hyps talk, THEN conjunct1] show ?thesis
    by (simp add: sample_wire_def inbox_def)
qed

end
