(* ===== verification/Well_Formed.thy ===== *)
theory Well_Formed
  imports Gates
begin

section \<open>Well-formed states\<close>

text \<open>
  What is always true of the state behind the handlers, of the response that is being made and of
  the request's pointer to its session: the types, so to speak, that C++ cannot express. Every
  layer of \<^verbatim>\<open>App\<close> keeps them, and so does every request that
  \<open>handleRequest\<close> serves, when the program's own handlers do.
\<close>

definition buckets_ok :: "'u world \<Rightarrow> bool" where
  "buckets_ok w \<longleftrightarrow> (\<forall>k ip b. wd_buckets w k ip = Some b \<longrightarrow> bk_initialized b)"

text \<open>The generator fills the buffers it is given.\<close>

definition random_ok :: "'u world \<Rightarrow> bool" where
  "random_ok w \<longleftrightarrow> length (wd_random w 32) = 32 \<and> length (se_random (wd_session_env w) 32) = 32"

definition world_ok :: "'u world \<Rightarrow> bool" where
  "world_ok w \<longleftrightarrow> sessions_ok (wd_sessions w) \<and> pg_blacklist (wd_guard w) \<inter> pg_whitelist (wd_guard w) = {}
     \<and> within_bounds (wd_cache w) \<and> buckets_ok w \<and> random_ok w"

fun ctx_ok :: "'u world ctx \<Rightarrow> bool" where
  "ctx_ok (req, res, w) \<longleftrightarrow> world_ok w \<and> response_ok res
     \<and> (\<forall>a. rq_session req = Some a \<longrightarrow> a < ss_next (wd_sessions w))"

definition keeps :: "'u world effect \<Rightarrow> bool" where
  "keeps f \<longleftrightarrow> (\<forall>c. ctx_ok c \<longrightarrow> ctx_ok (snd (f c)))"

definition layer_ok :: "'u world middleware \<Rightarrow> bool" where
  "layer_ok mw \<longleftrightarrow> (\<forall>nxt. keeps nxt \<longrightarrow> keeps (\<lambda>c. mw c nxt))"

lemma keepsI: "(\<And>c. ctx_ok c \<Longrightarrow> ctx_ok (snd (f c))) \<Longrightarrow> keeps f"
  by (simp add: keeps_def)

lemma keepsD: "keeps f \<Longrightarrow> ctx_ok c \<Longrightarrow> f c = (e, c') \<Longrightarrow> ctx_ok c'"
  by (metis keeps_def snd_conv)

fun context_of :: "'w verdict \<Rightarrow> 'w ctx" where
  "context_of (Stop c) = c"
| "context_of (Continue c) = c"
| "context_of (Throw e c) = c"

text \<open>A filter is well-formed when what it decides on is.\<close>

lemma filter_ok:
  assumes "filter_middleware mw decide" and "\<And>c. ctx_ok c \<Longrightarrow> ctx_ok (context_of (decide c))"
  shows "layer_ok mw"
proof -
  have "ctx_ok (snd (mw c nxt))" if "keeps nxt" "ctx_ok c" for nxt c
    using assms(2) [OF that(2)] that(1)
    by (cases "decide c") (simp_all add: filter_middleware.decides [OF assms(1)] keeps_def del: ctx_ok.simps split_paired_All)
  then show ?thesis by (simp add: layer_ok_def keeps_def)
qed

lemma chain_keeps: "list_all layer_ok mws \<Longrightarrow> keeps final \<Longrightarrow> keeps (run_chain mws final)"
  by (induction mws) (auto simp: layer_ok_def)

subsection \<open>Responses\<close>

definition value_ok :: "string \<Rightarrow> bool" where
  "value_ok v \<longleftrightarrow> CHR 0x0D \<notin> set v \<and> (v = [] \<or> hd v \<notin> {CHR '' '', CHR 0x09})"

definition name_ok :: "string \<Rightarrow> bool" where
  "name_ok k \<longleftrightarrow> CHR '':'' \<notin> set k \<and> CHR 0x0D \<notin> set k"

lemma response_ok_header: "response_ok r \<Longrightarrow> name_ok k \<Longrightarrow> value_ok v \<Longrightarrow> response_ok (res_header k v r)"
  by (auto simp: response_ok_def res_header_def header_ok_def name_ok_def value_ok_def)

lemma response_ok_rest [simp]:
  "response_ok (res_status code r) = response_ok r" "response_ok (res_body text' r) = response_ok r"
  "response_ok (setCache b r) = response_ok r" "response_ok new_response"
  by (simp_all add: response_ok_def res_status_def res_body_def setCache_def new_response_def)

lemma response_ok_pages:
  "response_ok (res_error code msg)"
  "response_ok r \<Longrightarrow> response_ok (res_html text' r)" "response_ok r \<Longrightarrow> response_ok (res_json text' r)"
  by (auto simp: res_error_def res_html_def res_json_def Let_def name_ok_def value_ok_def intro!: response_ok_header)

lemma random_value: "length (r 32) = 32 \<Longrightarrow> value_ok (random_hex r 32)"
proof -
  assume "length (r 32) = 32"
  then have "valid_id (random_hex r 32)" by (rule random_id_valid)
  then have hex: "set (random_hex r 32) \<subseteq> set hex_digits" and "random_hex r 32 \<noteq> []" by (auto simp: valid_id_iff)
  then have "hd (random_hex r 32) \<in> set hex_digits" by auto
  with hex show ?thesis by (auto simp: value_ok_def hex_digits_def)
qed

lemma mime_value: "value_ok (getMimeType path)"
proof -
  have "value_ok v" if "mime_types k = Some v" for k v
    using that by (auto simp: mime_types_def value_ok_def split: if_splits)
  then show ?thesis by (auto simp: getMimeType_def value_ok_def split: option.splits)
qed

lemma tryServe_ok: "tryServe fs sf req res = (b, res') \<Longrightarrow> response_ok res \<Longrightarrow> response_ok res'"
  by (auto simp: tryServe_def Let_def name_ok_def mime_value intro!: response_ok_header split: if_splits option.splits prod.splits)

lemma serve_static_ok: "serve_static fs sfs req res = (b, res') \<Longrightarrow> response_ok res \<Longrightarrow> response_ok res'"
  by (induction sfs arbitrary: res) (auto split: prod.splits bool.splits dest: tryServe_ok)

subsection \<open>The layers of the library\<close>

lemma cors_ok: "value_ok origin \<Longrightarrow> layer_ok (cors [origin])"
  by (rule filter_ok [OF cors_filter.filter_middleware_axioms])
    (auto simp: cors_decide_def cors_origin_def cors_preflight_def Let_def name_ok_def value_ok_def
      intro!: response_ok_header split: option.splits)

lemma secure_ok: "value_ok csp \<Longrightarrow> layer_ok (SecureHeaders csp)"
  by (rule filter_ok [OF secure_filter.filter_middleware_axioms])
    (auto simp: secure_decide_def secure_headers_def intro!: response_ok_header, auto simp: name_ok_def value_ok_def)

lemma sanitizer_ok: "layer_ok Sanitizer"
  by (rule filter_ok [OF sanitizer_filter.filter_middleware_axioms]) (auto simp: sanitizer_decide_def)

lemma logger_ok: "layer_ok (Logger wd_log put_log wd_time)"
proof -
  have "ctx_ok (snd (Logger wd_log put_log wd_time c nxt))" if "keeps nxt" "ctx_ok c" for nxt and c :: "'a world ctx"
  proof -
    obtain e req res w where nxt: "nxt c = (e, req, res, w)" by (metis prod_cases4)
    have "ctx_ok (req, res, w)" by (rule keepsD [OF that nxt])
    then show ?thesis
      using nxt by (cases c; cases e) (auto simp: Logger_def Let_def put_defs world_ok_def buckets_ok_def random_ok_def)
  qed
  then show ?thesis by (simp add: layer_ok_def keeps_def)
qed

lemma guard_check_disjoint:
  "guard_check req g = (b, g') \<Longrightarrow> pg_blacklist g \<inter> pg_whitelist g = {} \<Longrightarrow> pg_blacklist g' \<inter> pg_whitelist g' = {}"
  by (auto simp: guard_check_eq blacklist_ip_def split: if_splits)

lemma guard_ok: "layer_ok (guard_toMiddleware wd_guard put_guard)"
proof (rule filter_ok [OF guard_filter.filter_middleware_axioms])
  fix c :: "'a world ctx"
  assume ok: "ctx_ok c"
  obtain req res w where c: "c = (req, res, w)" by (rule prod_cases3)
  obtain b g where step: "guard_check req (wd_guard w) = (b, g)" by fastforce
  have "pg_blacklist g \<inter> pg_whitelist g = {}"
    using guard_check_disjoint [OF step] ok by (simp add: c world_ok_def)
  then show "ctx_ok (context_of (guard_decide wd_guard put_guard c))"
    using ok step by (auto simp: c guard_decide_def put_defs world_ok_def buckets_ok_def random_ok_def)
qed

lemma limiter_step_initialized:
  "limiter_step rnd m p ip now bs = (ok, bs') \<Longrightarrow> (\<forall>ip b. bs ip = Some b \<longrightarrow> bk_initialized b) \<Longrightarrow>
   bs' ip' = Some b \<Longrightarrow> bk_initialized b"
  by (auto simp: limiter_step_def Let_def bucket_take_def bucket_refill_def bucket_init_def
    split: prod.splits if_splits option.splits)

lemma limiter_ok: "layer_ok (RateLimiter (get_buckets k) (put_buckets k) (\<lambda>w. wd_clock w k) rnd m p)"
proof (rule filter_ok [OF limiter_filter.filter_middleware_axioms])
  fix c :: "'a world ctx"
  assume ok: "ctx_ok c"
  obtain req res w where c: "c = (req, res, w)" by (rule prod_cases3)
  obtain b bs where step: "limiter_step rnd m p (rq_client_ip req) (wd_clock w k) (get_buckets k w) = (b, bs)" by fastforce
  have "\<forall>ip b. get_buckets k w ip = Some b \<longrightarrow> bk_initialized b"
    using ok by (simp add: c world_ok_def buckets_ok_def put_defs)
  from limiter_step_initialized [OF step this] have "buckets_ok (put_buckets k bs w)"
    using ok by (auto simp: c world_ok_def buckets_ok_def put_defs)
  then show "ctx_ok (context_of (limiter_decide (get_buckets k) (put_buckets k) (\<lambda>w. wd_clock w k) rnd m p c))"
    using ok step by (auto simp: c limiter_decide_def put_defs world_ok_def random_ok_def)
qed

lemma session_step_ok:
  assumes "session_step ttl n flags env (req, res, s) = (req', res', s')" and "length (se_random env 32) = 32" and "sessions_ok s"
  shows "sessions_ok s' \<and> ss_next s \<le> ss_next s' \<and> (\<forall>a. rq_session req' = Some a \<longrightarrow> a < ss_next s')
    \<and> (res' = res \<or> res' = res_header ''Set-Cookie'' (set_cookie n (random_hex (se_random env) 32) flags) res)"
proof -
  have "sessions_ok s'" using sessions_ok_step [OF sessions_step.request [OF assms(2,1)] assms(3)] .
  with assms(1) show ?thesis
    by (cases rule: session_step_cases) (use assms(3) in \<open>auto simp: sessions_ok_def\<close>)
qed

lemma cookie_value:
  assumes "length (r 32) = 32"
  shows "value_ok (set_cookie ''session_id'' (random_hex r 32) ''HttpOnly; Secure; SameSite=Strict'')"
  using random_value [of r, OF assms] by (simp add: value_ok_def set_cookie_def)

lemma session_ok: "layer_ok (Session wd_sessions put_sessions wd_session_env ttl ''session_id'' ''HttpOnly; Secure; SameSite=Strict'')"
proof (rule filter_ok [OF session_filter.filter_middleware_axioms])
  fix c :: "'a world ctx"
  assume ok: "ctx_ok c"
  obtain req res w where c: "c = (req, res, w)" by (rule prod_cases3)
  obtain req' res' s where step: "session_step ttl ''session_id'' ''HttpOnly; Secure; SameSite=Strict'' (wd_session_env w)
      (req, res, wd_sessions w) = (req', res', s)" by (rule prod_cases3)
  have random: "length (se_random (wd_session_env w) 32) = 32" and sessions: "sessions_ok (wd_sessions w)"
    using ok by (simp_all add: c world_ok_def random_ok_def)
  have "response_ok res'"
    using session_step_ok [OF step random sessions] ok response_ok_header [of res "''Set-Cookie''"] cookie_value [of "se_random (wd_session_env w)", OF random]
    by (auto simp: c name_ok_def)
  with session_step_ok [OF step random sessions] ok
  show "ctx_ok (context_of (session_decide wd_sessions put_sessions wd_session_env ttl ''session_id''
      ''HttpOnly; Secure; SameSite=Strict'' c))"
    by (simp add: c session_decide_def step put_defs world_ok_def buckets_ok_def random_ok_def)
qed

lemma csrf_issue_ok:
  assumes "csrf_issue r (req, res, s) = Inr (req', res', s')" and "length (r 32) = 32" and "sessions_ok s" and "response_ok res"
  shows "sessions_ok s' \<and> ss_next s' = ss_next s \<and> rq_session req' = rq_session req \<and> response_ok res'"
proof -
  obtain a where a: "rq_session req = Some a" "update_session (Some a) (session_set csrf_key (random_hex r 32)) s = Inr s'"
    using assms(1) by (cases "rq_session req") (auto simp: csrf_issue_def Let_def bind_result_eq_Inr update_session_def)
  have "sessions_ok s'" using sessions_ok_step [OF sessions_step.handler [OF a(2)] assms(3)] .
  then show ?thesis
    using assms(1,4) random_value [of r, OF assms(2)] a
    by (auto simp: csrf_issue_def Let_def bind_result_eq_Inr update_session_def name_ok_def intro!: response_ok_header)
qed

lemma csrf_ok: "layer_ok (Csrf wd_sessions put_sessions wd_buffers wd_random)"
proof (rule filter_ok [OF csrf_filter.filter_middleware_axioms])
  fix c :: "'a world ctx"
  assume ok: "ctx_ok c"
  obtain req res w where c: "c = (req, res, w)" by (rule prod_cases3)
  show "ctx_ok (context_of (csrf_decide wd_sessions put_sessions wd_buffers wd_random c))"
  proof (cases "csrf_issue (wd_random w) (req, res, wd_sessions w)")
    case (Inl e)
    with ok show ?thesis by (auto simp: c csrf_decide_def split: sum.splits)
  next
    case (Inr x)
    obtain req' res' s where x: "x = (req', res', s)" by (rule prod_cases3)
    have "sessions_ok s \<and> ss_next s = ss_next (wd_sessions w) \<and> rq_session req' = rq_session req \<and> response_ok res'"
      using ok by (intro csrf_issue_ok [OF Inr [unfolded x]]) (simp_all add: c world_ok_def random_ok_def)
    with ok Inr show ?thesis
      by (auto simp: c x csrf_decide_def put_defs world_ok_def buckets_ok_def random_ok_def split: sum.splits)
  qed
qed

subsection \<open>The parser starts from an empty request\<close>

lemma header_loop_session:
  "header_loop data m pos n req = r \<Longrightarrow>
   (case r of Inl req' \<Rightarrow> rq_session req' = rq_session req | Inr (req', pos') \<Rightarrow> rq_session req' = rq_session req)"
proof (induction data m pos n req arbitrary: r rule: header_loop.induct)
  case (1 data m pos n req)
  show ?case
  proof (cases "find_from data crlf pos")
    case None
    with "1.prems" show ?thesis by (auto simp: header_loop.simps [of data m pos n req])
  next
    case (Some nxt)
    show ?thesis
    proof (cases "nxt = pos")
      case True
      with Some "1.prems" show ?thesis by (auto simp: header_loop.simps [of data m pos n req])
    next
      case False
      note IH = "1.IH" [OF Some False refl]
      show ?thesis
      proof (cases "find_from (substr data pos (nxt - pos)) '':'' 0")
        case None
        from IH(1) [OF this] Some False None "1.prems" show ?thesis
          by (simp add: header_loop.simps [of data m pos n req])
      next
        fix colon
        assume colon: "find_from (substr data pos (nxt - pos)) '':'' 0 = Some colon"
        from IH(2) [OF this refl] Some False colon "1.prems" show ?thesis
          by (auto simp: header_loop.simps [of data m pos n req] request_error_def add_header_def Let_def
            split: if_splits sum.splits prod.splits)
      qed
    qed
  qed
qed

lemma parse_request_session:
  assumes "parse_request new cfg h raw = (Inr req, h')"
  shows "rq_session req = None"
proof -
  have empty: "rq_session empty_request = None" by (simp add: empty_request_def)
  have line: "case parse_request_line raw of Inl req1 \<Rightarrow> rq_session req1 = None | Inr (req1, e) \<Rightarrow> rq_session req1 = None"
    using empty by (auto simp: parse_request_line_def request_error_def Let_def split: option.splits prod.splits if_splits)
  have body: "rq_session req' = rq_session req1" if "parse_body new h req1 = (Inr req', h')" for req1 req'
    using that by (auto simp: parse_body_def parse_form_parts_def request_error_def Let_def bind_result_eq_Inr
      split: option.splits if_splits)
  show ?thesis
  proof (cases "parse_limits cfg raw")
    case (Inl code)
    with assms empty show ?thesis by (auto simp: parse_request_def request_error_def)
  next
    case (Inr he)
    show ?thesis
    proof (cases "parse_request_line raw")
      fix req1 assume "parse_request_line raw = Inl req1"
      with assms Inr line show ?thesis by (auto simp: parse_request_def)
    next
      fix x assume x: "parse_request_line raw = Inr x"
      obtain req1 e where req1: "x = (req1, e)" by fastforce
      show ?thesis
        using assms Inr x req1 line header_loop_session [where data = raw and m = "cfg_max_headers cfg" and pos = "e + 2" and n = 0 and req = req1, OF refl] body
        by (auto simp: parse_request_def request_error_def Let_def split: sum.splits prod.splits if_splits)
    qed
  qed
qed

subsection \<open>Whole requests\<close>

definition pages_ok :: "'u world error_handlers \<Rightarrow> bool" where
  "pages_ok hs \<longleftrightarrow> (\<forall>code page req res disk w r w'. hs code = Some page \<longrightarrow> ctx_ok (req, res, w)
     \<longrightarrow> page req disk w = (r, w') \<longrightarrow> ctx_ok (req, case_sum (\<lambda>e. res) id r, w'))"

definition ws_ok :: "'u ws_handler \<Rightarrow> bool" where
  "ws_ok h \<longleftrightarrow> (\<forall>wi w wi' w'. world_ok w \<longrightarrow> h (wi, w) = Some (Inr (wi', w')) \<longrightarrow> world_ok w')"

definition server_ok :: "'u server \<Rightarrow> bool" where
  "server_ok sv \<longleftrightarrow> list_all layer_ok (sv_middlewares sv) \<and> pages_ok (sv_error_handlers sv)
     \<and> (\<forall>routes k h. sv_router sv = Some routes \<longrightarrow> routes k = Some h \<longrightarrow> keeps h)
     \<and> (\<forall>path h. sv_ws_routes sv path = Some h \<longrightarrow> ws_ok h)"

lemma error_page_ok:
  assumes "pages_ok (sv_error_handlers sv)" and "ctx_ok (req, res, w)" and "error_page hst sv code req w = (r, w')"
  shows "ctx_ok (req, case_sum (\<lambda>e. res) id r, w')"
proof (cases "sv_error_handlers sv code")
  case None
  with assms(2,3) show ?thesis by (auto simp: error_page_def response_ok_pages)
next
  case (Some page)
  with assms show ?thesis unfolding pages_ok_def error_page_def by (metis option.simps(5))
qed

lemma last_effect_keeps:
  assumes "server_ok sv" and "\<And>h. handler = Some h \<Longrightarrow> keeps h"
  shows "keeps (last_effect hst sv handler)"
proof (cases handler)
  case None
  have "ctx_ok (snd (last_effect hst sv None c))" if "ctx_ok c" for c
  proof -
    obtain req res w where c: "c = (req, res, w)" by (rule prod_cases3)
    obtain b res' where served: "serve_static (hs_files hst) (sv_static_files sv) req res = (b, res')" by fastforce
    have ok: "ctx_ok (req, res', w)" using serve_static_ok [OF served] that by (simp add: c)
    obtain r w' where page: "error_page hst sv 404 req w = (r, w')" by fastforce
    have "ctx_ok (req, case_sum (\<lambda>e. res') id r, w')"
      using assms(1) by (intro error_page_ok [OF _ ok page]) (simp add: server_ok_def)
    with ok served page show ?thesis by (cases b; cases r) (simp_all add: c last_effect_def)
  qed
  with None show ?thesis by (simp add: keeps_def)
next
  case (Some h)
  have "last_effect hst sv (Some h) = h" by (simp add: last_effect_def fun_eq_iff)
  with assms(2) Some show ?thesis by simp
qed

lemma respond_ok:
  assumes "server_ok sv" and "\<And>h. handler = Some h \<Longrightarrow> keeps h" and "ctx_ok c" and "respond hst sv handler c = Inr c'"
  shows "ctx_ok c'"
proof -
  obtain e req res w where run: "run_chain (sv_middlewares sv) (last_effect hst sv handler) c = (e, req, res, w)"
    by (metis prod_cases4)
  have "keeps (run_chain (sv_middlewares sv) (last_effect hst sv handler))"
    using assms(1) by (intro chain_keeps last_effect_keeps assms(2)) (simp_all add: server_ok_def)
  from keepsD [OF this assms(3) run] have ok: "ctx_ok (req, res, w)" .
  show ?thesis
  proof (cases e)
    case None
    with assms(4) run have "c' = (req, res, w)" by (simp add: respond_def)
    with ok show ?thesis by simp
  next
    case (Some x)
    obtain r w' where page: "error_page hst sv 500 req w = (r, w')" by fastforce
    have "ctx_ok (req, case_sum (\<lambda>e. res) id r, w')"
      using assms(1) by (intro error_page_ok [OF _ ok page]) (simp add: server_ok_def)
    with Some assms(4) run page show ?thesis by (cases r) (auto simp: respond_def split: if_splits)
  qed
qed

lemma resolve_handler:
  "resolve ks routes m p req = (handler, req') \<Longrightarrow>
   rq_session req' = rq_session req \<and> (\<forall>h. handler = Some h \<longrightarrow> (\<exists>k. routes k = Some h))"
proof -
  have loop: "resolve_loop ks routes m parts req = (handler, req') \<Longrightarrow>
      rq_session req' = rq_session req \<and> (\<forall>h. handler = Some h \<longrightarrow> (\<exists>k. routes k = Some h))" for parts
    by (induction ks) (auto split: option.splits)
  assume "resolve ks routes m p req = (handler, req')"
  then show ?thesis using loop by (auto simp: resolve_def split: option.splits)
qed

lemma buffers_world_ok [simp]: "world_ok (w\<lparr>wd_buffers := h\<rparr>) = world_ok w"
  by (simp add: world_ok_def buckets_ok_def random_ok_def)

lemma answer_ok:
  assumes "server_ok sv" and "world_ok w" and "rq_session req = None" and "answer hst sv req (wi, w) = Some (Inr (fate, wi', w'))"
  shows "world_ok w'"
proof (cases "isUpgrade req")
  case True
  with assms show ?thesis
    by (auto simp: answer_def handleWebSocket_def server_ok_def ws_ok_def bind_result_eq_Inr split: option.splits)
next
  case False
  show ?thesis
  proof (cases "sv_router sv")
    case None
    with False assms show ?thesis by (simp add: answer_def)
  next
    case (Some routes)
    obtain handler req1 where found: "resolve (hs_route_order hst) routes (rq_method req) (rq_path req) req = (handler, req1)"
      by fastforce
    note handler = resolve_handler [OF found]
    obtain req2 res where "respond hst sv handler (req1, setCache True new_response, w) = Inr (req2, res, w')"
      using assms(4) False Some found by (auto simp: answer_def bind_result_eq_Inr)
    moreover have "keeps h" if "handler = Some h" for h
      using handler that assms(1) Some by (auto simp: server_ok_def)
    moreover have "ctx_ok (req1, setCache True new_response, w)"
      using assms(2,3) handler by simp
    ultimately have "ctx_ok (req2, res, w')" using respond_ok [OF assms(1)] by blast
    then show ?thesis by simp
  qed
qed

lemma handleRequest_ok:
  assumes "server_ok sv" and "world_ok w" and "handleRequest hst sv (wi, w) = Some (Inr (fate, wi', w'))"
  shows "world_ok w'"
proof -
  have parse: "world_ok w'" if "parse_and_answer hst sv raw (wi1, w) = Some (Inr (fate, wi', w'))" for raw wi1
  proof (cases "parse_request (hs_new hst) (sv_config sv) (wd_buffers w) raw")
    case (Pair r h)
    show ?thesis
    proof (cases r)
      case (Inl e)
      with that Pair assms(2) show ?thesis by (auto simp: parse_and_answer_def split: if_splits)
    next
      case (Inr req)
      let ?req = "req\<lparr>rq_client_ip := cn_ip (wi_conn wi1)\<rparr>" and ?w = "w\<lparr>wd_buffers := h\<rparr>"
      have "rq_session ?req = None" using parse_request_session Pair Inr by simp
      with answer_ok [OF assms(1), of ?w ?req] that Pair Inr assms(2) show ?thesis
        by (auto simp: parse_and_answer_def Let_def split: if_splits)
    qed
  qed
  show ?thesis
    using assms(2,3) parse by (auto simp: handleRequest_def split: if_splits sum.splits prod.splits)
qed

subsection \<open>Programs\<close>

text \<open>What a program has to give: values for headers that are one line, and handlers, error pages
  and middlewares of its own that keep what the library keeps.\<close>

fun call_ok :: "'u call \<Rightarrow> bool" where
  "call_ok (Cors origin) = value_ok origin"
| "call_ok (Secure csp) = value_ok csp"
| "call_ok (Ws path h) = ws_ok h"
| "call_ok (On_error page) = (\<forall>hs. pages_ok hs \<longrightarrow> pages_ok (page hs))"
| "call_ok (Use mw) = layer_ok mw"
| "call_ok (Handle r fn) = keeps fn"
| "call_ok _ = True"

definition program_ok :: "'u program \<Rightarrow> bool" where
  "program_ok p \<longleftrightarrow> (case p of (a, w) \<Rightarrow> server_ok (server_mount (ap_router a) (ap_server a))
     \<and> world_ok w \<and> pg_blacklist (wd_guard w) = {})"

lemma layers_ok:
  assumes "call_ok c" and "layer rnd k c = Some mw"
  shows "layer_ok mw"
  using assms by (cases c) (auto intro: cors_ok limiter_ok logger_ok csrf_ok sanitizer_ok secure_ok session_ok guard_ok)

lemma perform_ok:
  assumes "call_ok c" and "program_ok p"
  shows "program_ok (perform rnd c p)"
proof -
  obtain a w where p: "p = (a, w)" by fastforce
  obtain a' w' where step: "perform rnd c (a, w) = (a', w')" by fastforce
  have "list_all layer_ok (sv_middlewares (ap_server a'))"
    using assms layers_ok [OF assms(1)] by (auto simp: perform_chain(1) [OF step] p program_ok_def server_ok_def server_mount_def split: option.split)
  moreover have "keeps h" if "ap_router a' k = Some h" for k h
    using that assms perform_chain(5) [OF step]
    by (auto simp: p program_ok_def server_ok_def server_mount_def Route_handle_def addRoute_def split: call.splits if_splits)
  moreover have "pages_ok (sv_error_handlers (ap_server a')) \<and> (\<forall>path h. sv_ws_routes (ap_server a') path = Some h \<longrightarrow> ws_ok h)"
    using assms step by (cases c) (auto simp: p program_ok_def server_ok_def server_mount_def app_defs Let_def split: if_splits)
  moreover have "world_ok w' \<and> pg_blacklist (wd_guard w') = {}"
    using assms step by (cases c) (auto simp: p program_ok_def app_defs Let_def put_defs world_ok_def buckets_ok_def random_ok_def
      addWhitelist_def split: if_splits)
  ultimately show ?thesis using step by (auto simp: p program_ok_def server_ok_def server_mount_def)
qed

lemma performs_ok: "list_all call_ok calls \<Longrightarrow> program_ok p \<Longrightarrow> program_ok (performs rnd calls p)"
  by (induction calls arbitrary: p) (simp_all add: perform_ok)

text \<open>
  The life of a server: it handles a request, on any connection and with any answers of the
  machine, or the world moves on: the clocks, the generator and the application's own state change, and the
  expired sessions are removed.
\<close>

inductive serving_step :: "'u server \<Rightarrow> 'u world \<Rightarrow> 'u world \<Rightarrow> bool" for sv where
  serve: "handleRequest hst sv (wi, w) = Some (Inr (fate, wi', w')) \<Longrightarrow> serving_step sv w w'"
| move: "length (r 32) = 32 \<Longrightarrow> length (se_random env 32) = 32 \<Longrightarrow>
    serving_step sv w (w\<lparr>wd_app := u, wd_clock := clock, wd_session_env := env, wd_random := r, wd_time := t\<rparr>)"
| clean: "serving_step sv w (put_sessions (session_cleanup now (wd_sessions w)) w)"

lemma serving_step_ok: "serving_step sv w w' \<Longrightarrow> server_ok sv \<Longrightarrow> world_ok w \<Longrightarrow> world_ok w'"
proof (induction rule: serving_step.induct)
  case (serve hst wi w fate wi' w')
  from handleRequest_ok [OF serve(2,3,1)] show ?case .
next
  case (move r env w u clock t)
  then show ?case by (simp add: world_ok_def buckets_ok_def random_ok_def)
next
  case (clean w now)
  then show ?case
    using sessions_ok_step [OF sessions_step.cleanup] by (simp add: world_ok_def buckets_ok_def random_ok_def put_defs)
qed

interpretation serving: transition_system "serving_step sv" w0 "\<lambda>w. server_ok sv \<and> world_ok w0 \<longrightarrow> world_ok w" for sv w0
  by unfold_locales (auto intro: serving_step_ok)

text \<open>An application that has just been constructed.\<close>

lemma construct_ok:
  assumes "App_construct epoll env w s = (Inr ((a, w0), ev, ctx), s')"
    and "sessions_ok (wd_sessions w)" and "buckets_ok w" and "random_ok w"
  shows "program_ok (a, w0)"
proof -
  obtain cfg where "ap_router a = Map.empty" "ap_server a = server_new cfg"
    and w0: "w0 = w\<lparr>wd_cache := new_cache (cfg_max_cache_entries cfg), wd_guard := new_path_guard\<rparr>"
    using assms(1) by (auto simp: App_construct_def Server_construct_def split: prod.splits sum.splits if_splits)
  then have "server_ok (server_mount (ap_router a) (ap_server a))"
    by (simp add: server_new_def server_ok_def server_mount_def pages_ok_def)
  moreover have "world_ok w0 \<and> pg_blacklist (wd_guard w0) = {}"
    using assms(2-4) by (simp add: w0 world_ok_def buckets_ok_def random_ok_def new_path_guard_def new_cache_def within_bounds_def)
  ultimately show ?thesis by (simp add: program_ok_def)
qed

text \<open>The handlers that the library makes for \<open>html\<close> and \<open>json\<close> routes, and for \<open>file\<close> routes over a
  cache, keep what has to be kept.\<close>

lemma load_within:
  assumes "iterates ks (ca_entries c)" and "within_bounds c" and "cache_loadFile lru_evict ks disk now path c = (r, c')"
  shows "within_bounds c'"
proof (cases "disk path")
  case None
  with assms show ?thesis by (simp add: cache_loadFile_def)
next
  case (Some f)
  show ?thesis
  proof (cases "cache_hit c path f")
    case None
    show ?thesis
    proof (cases "ca_max c = 0")
      case True
      with assms(1,2) have "ks = []" using iterates_length [OF assms(1)] by (simp add: within_bounds_def)
      with True None Some assms(2,3) show ?thesis by (simp add: cache_loadFile_def)
    next
      case False
      then obtain m where m: "(if length ks \<ge> ca_max c then lru_evict ks (ca_entries c) else Inr (ca_entries c)) = Inr m"
        "finite (dom m)" "card (dom m) < ca_max c" "m \<subseteq>\<^sub>m ca_entries c"
        using lru.make_room [OF assms(1) _ assms(2)] by blast
      have "card (insert path (dom m)) \<le> ca_max c" using m(2,3) by (simp add: card_insert_if)
      with None Some m assms(3) show ?thesis by (auto simp: cache_loadFile_def within_bounds_def)
    qed
  next
    fix e
    assume hit: "cache_hit c path f = Some e"
    then have "dom ((ca_entries c)(path \<mapsto> e\<lparr>ce_access := now\<rparr>)) = dom (ca_entries c)"
      by (auto simp: cache_hit_def split: option.splits)
    with hit Some assms(2,3) show ?thesis by (auto simp: cache_loadFile_def within_bounds_def)
  qed
qed

definition load_cached :: "(cache \<Rightarrow> string list) \<Rightarrow> disk \<Rightarrow> instant \<Rightarrow> string \<Rightarrow> 'u world \<Rightarrow> string result \<times> 'u world" where
  "load_cached order disk now path w =
     (case cache_loadFile lru_evict (order (wd_cache w)) disk now path (wd_cache w) of (r, c) \<Rightarrow> (r, put_cache c w))"

lemma load_cached_ok:
  assumes "\<And>c. iterates (order c) (ca_entries c)" and "world_ok w" and "load_cached order disk now path w = (r, w')"
  shows "world_ok w' \<and> wd_sessions w' = wd_sessions w"
proof -
  obtain c where c: "cache_loadFile lru_evict (order (wd_cache w)) disk now path (wd_cache w) = (r, c)" "w' = put_cache c w"
    using assms(3) by (auto simp: load_cached_def split: prod.splits)
  have "within_bounds c" using assms(2) by (intro load_within [OF assms(1) _ c(1)]) (simp add: world_ok_def)
  with assms(2) c(2) show ?thesis by (simp add: world_ok_def buckets_ok_def random_ok_def put_defs)
qed

definition handlers_ok :: "'u world routes \<Rightarrow> bool" where
  "handlers_ok routes \<longleftrightarrow> (\<forall>k h. routes k = Some h \<longrightarrow> keeps h)"

lemma handlers_ok_add: "handlers_ok routes \<Longrightarrow> keeps h \<Longrightarrow> handlers_ok (addRoute m p h routes)"
  by (simp add: handlers_ok_def addRoute_def)

lemma library_handlers:
  assumes "handlers_ok routes" and "\<And>c. iterates (order c) (ca_entries c)"
  shows "handlers_ok (Route_html r content routes)" and "handlers_ok (Route_json r content routes)"
    and "handlers_ok (Route_file (load_cached order disk now) r path routes)"
proof -
  show "handlers_ok (Route_html r content routes)" "handlers_ok (Route_json r content routes)"
    unfolding Route_html_def Route_json_def using assms(1)
    by (auto intro!: handlers_ok_add keepsI simp: response_ok_pages)
  have "keeps (\<lambda>(req, res, w). case load_cached order disk now path w of
      (Inl e, w') \<Rightarrow> (Some e, req, res, w')
    | (Inr content, w') \<Rightarrow>
        if content = [] then (None, req, res_body ''Internal Server Error'' (res_status 500 res), w')
        else (None, req, res_html content res, w'))"
  proof (rule keepsI)
    fix c
    assume ok: "ctx_ok c"
    obtain req res w where c: "c = (req, res, w)" by (rule prod_cases3)
    obtain x w' where l: "load_cached order disk now path w = (x, w')" by fastforce
    have "world_ok w' \<and> wd_sessions w' = wd_sessions w"
      by (rule load_cached_ok [OF assms(2) _ l]) (use ok in \<open>simp add: c\<close>)
    with ok l show "ctx_ok (snd ((\<lambda>(req, res, w). case load_cached order disk now path w of
        (Inl e, w') \<Rightarrow> (Some e, req, res, w')
      | (Inr content, w') \<Rightarrow>
          if content = [] then (None, req, res_body ''Internal Server Error'' (res_status 500 res), w')
          else (None, req, res_html content res, w')) c))"
      by (cases x) (simp_all add: c response_ok_pages)
  qed
  with assms(1) show "handlers_ok (Route_file (load_cached order disk now) r path routes)"
    unfolding Route_file_def by (rule handlers_ok_add)
qed

text \<open>So do the pages it makes for errors.\<close>

lemma pages_ok_add:
  assumes "\<And>req disk w. \<exists>page. f req disk w = (Inr page, w) \<and> response_ok page"
  shows "call_ok (On_error (\<lambda>hs. hs(code \<mapsto> f)))"
  unfolding call_ok.simps pages_ok_def
proof (intro allI impI)
  fix hs c page and req :: request and res disk and w :: "'a world" and r w'
  assume hs: "\<forall>code page req res disk w r w'. hs code = Some page \<longrightarrow> ctx_ok (req, res, w)
      \<longrightarrow> page req disk w = (r, w') \<longrightarrow> ctx_ok (req, case_sum (\<lambda>e. res) id r, w')"
    and c: "(hs(code \<mapsto> f)) c = Some page" and ok: "ctx_ok (req, res, w)" and page: "page req disk w = (r, w')"
  show "ctx_ok (req, case_sum (\<lambda>e. res) id r, w')"
  proof (cases "c = code")
    case True
    with c page have "f req disk w = (r, w')" by simp
    with assms [of req disk w] ok show ?thesis by auto
  next
    case False
    with c have "hs c = Some page" by simp
    with hs ok page show ?thesis by metis
  qed
qed

lemma library_pages:
  "call_ok (On_error (ErrorRoute_html code content))" "call_ok (On_error (ErrorRoute_json code content))"
  "call_ok (On_error (ErrorRoute_file code path))"
  unfolding ErrorRoute_html_def ErrorRoute_json_def ErrorRoute_file_def
  by (rule pages_ok_add; simp add: response_ok_pages split: option.split)+

subsection \<open>Properties\<close>

text \<open>C12. The state of an application is well-formed whenever it serves: after any calls whose own
  handlers, pages and middlewares keep what the library keeps, and after any requests, sweeps of
  the sessions and changes of the environment, identifiers are 64 hexadecimal digits and lead to
  their own sessions, no whitelisted client is on the blacklist, the cache is within its bound and
  every bucket is initialised. When such a state answers a parsed request, the response is one
  whose headers are single lines and the request's session is one that exists.\<close>

theorem served_state_well_formed:
  assumes "App_construct epoll env w s = (Inr ((a, w0), ev, ctx), s')"
    and "sessions_ok (wd_sessions w)" and "buckets_ok w" and "random_ok w"
    and "performs rnd calls (a, w0) = (a', w1)" and "list_all call_ok calls" and "app_listen (a', w1) = (sv, w2)"
    and "(serving_step sv)\<^sup>*\<^sup>* w2 wn"
    and "rq_session req = None" and "resolve ks (ap_router a') (rq_method req) (rq_path req) req = (handler, req1)"
    and "respond hst sv handler (req1, setCache True new_response, wn) = Inr (req2, res, w')"
  shows "world_ok wn \<and> world_ok w' \<and> response_ok res
    \<and> (case rq_session req2 of None \<Rightarrow> True | Some a \<Rightarrow> a < ss_next (wd_sessions w'))"
proof -
  have "program_ok (a', w1)"
    using performs_ok [OF assms(6) construct_ok [OF assms(1-4)], of rnd] by (simp add: assms(5))
  moreover have sv: "sv = server_mount (ap_router a') (ap_server a')" "w2 = w1"
    using assms(7) by (simp_all add: app_listen_def)
  ultimately have ok: "server_ok sv" "world_ok w2" by (simp_all add: program_ok_def)
  with serving.inv_reachable [OF assms(8)] have wn: "world_ok wn" by blast
  note found = resolve_handler [OF assms(10)]
  have "keeps h" if "handler = Some h" for h
    using found that ok(1) by (auto simp: sv server_ok_def server_mount_def)
  moreover have "ctx_ok (req1, setCache True new_response, wn)"
    using wn found assms(9) by simp
  ultimately have "ctx_ok (req2, res, w')" using respond_ok [OF ok(1) _ _ assms(11)] by blast
  with wn show ?thesis by (simp split: option.split)
qed

subsection \<open>Witnesses\<close>

lemma plain_world_facts: "sessions_ok (wd_sessions plain_world)" "buckets_ok plain_world" "random_ok plain_world"
  by (simp_all add: plain_world_def sessions_ok_def no_sessions_def buckets_ok_def random_ok_def Session.sample_env_def)

text \<open>An application with sessions and a route that the request does not ask for.\<close>

theorem served_state_well_formed_witness:
  "\<exists>(sv :: unit server) w2 req2 res w'. respond plain_host sv None (empty_request, setCache True new_response, w2) = Inr (req2, res, w')
     \<and> sv_middlewares sv \<noteq> [] \<and> world_ok w' \<and> response_ok res"
proof -
  obtain a w0 ev s' where start: "App_construct 7 bad_files plain_world (built_project, sample_os, no_tls) = (Inr ((a, w0), ev, None), s')"
    and none: "sv_middlewares (ap_server a) = []"
    using built_project_starts by blast
  let ?calls = "[Sessions] :: unit call list"
  obtain a' w1 where calls: "performs id ?calls (a, w0) = (a', w1)" by fastforce
  obtain sv w2 where listen': "app_listen (a', w1) = (sv, w2)" by fastforce
  have layers: "sv_middlewares sv = layers id (ap_limiters a) ?calls"
    using performs_chain [OF calls] listen_world [OF listen'] none by simp
  have "ap_router a' = Map.empty" using start performs_routes [OF calls]
    by (auto simp: App_construct_def Server_construct_def split: prod.splits sum.splits if_splits)
  then have found: "resolve [] (ap_router a') (rq_method empty_request) (rq_path empty_request) empty_request = (None, empty_request)"
    by (simp add: resolve_def)
  have "sv_error_handlers (ap_server a) = Map.empty" using start
    by (auto simp: App_construct_def Server_construct_def server_new_def split: prod.splits sum.splits if_splits)
  with calls listen' have "sv_error_handlers sv = Map.empty"
    by (auto simp: app_defs app_listen_def server_mount_def)
  then have "\<exists>c. respond plain_host sv None (empty_request, setCache True new_response, w2) = Inr c"
    by (auto simp: respond_def layers Session_def last_effect_def error_page_def split: prod.splits bool.splits option.splits)
  then obtain req2 res w' where answer: "respond plain_host sv None (empty_request, setCache True new_response, w2) = Inr (req2, res, w')"
    by auto
  have "rq_session empty_request = None" "list_all call_ok ?calls" by (simp_all add: empty_request_def)
  from served_state_well_formed [OF start plain_world_facts calls this(2) listen' rtranclp.rtrancl_refl this(1) found answer] answer layers
  show ?thesis by (intro exI [of _ sv] exI [of _ w2] exI [of _ req2] exI [of _ res] exI [of _ w']) simp
qed

end
