(* ===== verification/File_Pages.thy ===== *)
theory File_Pages
  imports Keep_Alive Well_Formed
begin

section \<open>Pages from files\<close>

text \<open>
  A page that a program registers with \<open>app.get(path).file(name)\<close>: the route of
  \<^verbatim>\<open>src/core/router.cpp\<close>, the cache of \<^verbatim>\<open>src/cache/cache.cpp\<close> that the server owns, the
  response of \<^verbatim>\<open>src/core/response.cpp\<close> and the request loop of
  \<^verbatim>\<open>src/core/server.cpp\<close>, put together. The files change while the server runs, so the disk and
  the clock are read from the state at the time of the request.
\<close>

definition file_route ::
  "(cache \<Rightarrow> string list) \<Rightarrow> ('u world \<Rightarrow> disk) \<Rightarrow> ('u world \<Rightarrow> instant) \<Rightarrow> string \<Rightarrow> string \<Rightarrow> 'u world routes \<Rightarrow> 'u world routes" where
  "file_route order disk now p file =
     Route_file (\<lambda>path w. load_cached order (disk w) (now w) path w) (route_get p) file"

definition file_page :: "file_state \<Rightarrow> response" where
  "file_page f = res_html (fs_text f) (setCache True new_response)"

lemma file_page_ok: "response_ok (file_page f)" "rs_status (file_page f) = 200" "rs_body (file_page f) = fs_text f"
  by (simp_all add: file_page_def response_ok_def res_html_def res_header_def res_status_def res_body_def setCache_def
      new_response_def header_ok_def)

lemma status_200: "status_line 200 = ''HTTP/1.1 200 OK''"
  by code_simp

text \<open>Without middlewares the handler of the page answers, with what the cache gives it.\<close>

lemma file_page_reply:
  assumes "sv_middlewares sv = []" and "ms_method m = ''GET''" and "normalizePath (ms_path m) = p"
    and "cache_loadFile lru_evict (order (wd_cache w)) (disk w) (now w) file (wd_cache w) = (Inr (fs_text f), c)"
    and "fs_text f \<noteq> []"
  shows "reply sv (file_route order disk now p file routes) ip hst m w =
    Inr ((parsed_request m)\<lparr>rq_client_ip := ip\<rparr>, file_page f, put_cache c w)"
  using assms
  by (simp add: reply_def file_route_def Route_file_def resolve_def addRoute_def route_get_def respond_def last_effect_def
      load_cached_def file_page_def)

text \<open>C29. A page from a file is what the file holds: whatever has been loaded, changed, removed and
  cleared before, a client that asks for the page over a connection gets an HTTP message with status 200
  whose body, behind the first blank line, is the present content of the file, not a stale
  one; the cache stays within its bound and in a state from which the next page is served the same way.\<close>

theorem file_page_served:
  assumes "sv_router sv = Some (file_route order disk now p file routes)" and "sv_middlewares sv = []"
    and "ms_method m = ''GET''" and "normalizePath (ms_path m) = p"
    and "arrival_ok sv (wi_conn wi) (hst, m, segs)" and "open_wire wi" and "wi_accept wi = []"
    and "wi_in wi = in_turn ((hst, m, segs) # as)"
    and "cache_step\<^sup>*\<^sup>* (disk0, new_cache n) (disk w, wd_cache w)" and "0 < n"
    and "iterates (order (wd_cache w)) (ca_entries (wd_cache w))"
    and "disk w file = Some f" and "fs_text f \<noteq> []"
    and "iterates (hs_header_order hst (rs_headers (with_length (file_page f)))) (rs_headers (with_length (file_page f)))"
  shows "\<exists>sent he c. handleRequest hst sv (await wi, w) = Some (Inr (after_response (message_request m),
        wi\<lparr>wi_in := in_turn as, wi_out := wi_out wi @ sent\<rparr>, put_cache c w))
    \<and> prefix ''HTTP/1.1 200 OK'' sent \<and> find_sub (crlf @ crlf) sent = Some he \<and> drop (he + 4) sent = fs_text f
    \<and> card (dom (ca_entries c)) \<le> n \<and> cache_step\<^sup>*\<^sup>* (disk0, new_cache n) (disk w, c)"
proof -
  let ?ks = "hs_header_order hst (rs_headers (with_length (file_page f)))"
  have cache: "cache_ok n (disk w, wd_cache w)" by (rule cache_ok_reachable [OF assms(9,10)])
  obtain c where load: "cache_loadFile lru_evict (order (wd_cache w)) (disk w) (now w) file (wd_cache w) = (Inr (fs_text f), c)"
    and bound: "within_bounds c" "ca_max c = n"
    using lru.load_current [OF assms(11), of "disk w" "file" f "now w"] cache assms(10,12) by (auto simp: cache_ok_def)
  have reached: "cache_step\<^sup>*\<^sup>* (disk0, new_cache n) (disk w, c)"
    using assms(9) cache_step.load [OF assms(11) load] by (rule rtranclp.rtrancl_into_rtrancl)
  have "after_response ((parsed_request m)\<lparr>rq_client_ip := ip\<rparr>) = after_response (message_request m)" for ip
    by (simp add: parsed_request_def after_response_def getHeader_def)
  moreover have "reply sv (file_route order disk now p file routes) (cn_ip (wi_conn wi)) hst m w =
      Inr ((parsed_request m)\<lparr>rq_client_ip := cn_ip (wi_conn wi)\<rparr>, file_page f, put_cache c w)"
    by (rule file_page_reply) (fact assms load)+
  note serve_arrival [OF assms(5-8,1) this]
  ultimately have served: "handleRequest hst sv (await wi, w) = Some (Inr (after_response (message_request m),
      wi\<lparr>wi_in := in_turn as, wi_out := wi_out wi @ res_build ?ks (file_page f)\<rparr>, put_cache c w))"
    by (simp add: response_text_def)
  obtain he where "prefix ''HTTP/1.1 200 OK'' (res_build ?ks (file_page f))"
    "find_sub (crlf @ crlf) (res_build ?ks (file_page f)) = Some he" "drop (he + 4) (res_build ?ks (file_page f)) = fs_text f"
    using response_wire [OF file_page_ok(1) assms(14) order_refl] by (auto simp: file_page_ok status_200)
  with served bound reached show ?thesis
    by (intro exI [of _ "res_build ?ks (file_page f)"] exI [of _ he] exI [of _ c]) (simp add: within_bounds_def)
qed

subsection \<open>A sample page\<close>

definition sample_disk :: disk where
  "sample_disk = [''page.html'' \<mapsto> \<lparr>fs_mtime = 1, fs_text = ''<p>''\<rparr>]"

definition page_server :: "unit server" where
  "page_server = plain_server\<lparr>sv_router :=
     Some (file_route (\<lambda>c. []) (\<lambda>w. sample_disk) (\<lambda>w. Instant 0) ''/b c'' ''page.html'' Map.empty)\<rparr>"

theorem file_page_served_witness:
  "\<exists>sent he c. handleRequest plain_host page_server
        (await (sample_wire (in_turn [(plain_host, sample_ahead, halves 20 (message_text sample_ahead))])), plain_world)
      = Some (Inr (Rearmed, (sample_wire [])\<lparr>wi_out := sent\<rparr>, put_cache c plain_world))
    \<and> find_sub (crlf @ crlf) sent = Some he \<and> drop (he + 4) sent = ''<p>'' \<and> card (dom (ca_entries c)) \<le> 8"
proof -
  let ?f = "\<lparr>fs_mtime = 1, fs_text = ''<p>''\<rparr>" and ?m = sample_ahead
  let ?a = "(plain_host, ?m, halves 20 (message_text ?m))"
  let ?wi = "sample_wire (in_turn [?a])"
  have server: "sv_router page_server =
      Some (file_route (\<lambda>c. []) (\<lambda>w. sample_disk) (\<lambda>w. Instant 0) ''/b c'' ''page.html'' Map.empty)"
    "sv_middlewares page_server = []"
    by (simp_all add: page_server_def plain_server_def)
  have m: "ms_method ?m = ''GET''" "normalizePath (ms_path ?m) = ''/b c''" by code_simp+
  have arrival: "arrival_ok page_server (wi_conn ?wi) ?a"
    using sample_arrival_ok [of ?m "in_turn [?a]"] by (simp add: arrival_ok_def page_server_def)
  have wire: "open_wire ?wi" "wi_accept ?wi = []" "wi_in ?wi = in_turn [?a]"
    by (simp_all add: sample_wire_def open_wire_def new_conn_def)
  have cache: "wd_cache plain_world = new_cache 8" "iterates [] (ca_entries (wd_cache plain_world))"
    by (simp_all add: plain_world_def new_cache_def iterates_def)
  have reached: "cache_step\<^sup>*\<^sup>* (sample_disk, new_cache 8) (sample_disk, wd_cache plain_world)"
    unfolding cache(1) by (rule rtranclp.rtrancl_refl)
  have content: "sample_disk ''page.html'' = Some ?f" "fs_text ?f \<noteq> []" by (simp_all add: sample_disk_def)
  have "rs_headers (with_length (file_page ?f)) = [''Content-Type'' \<mapsto> ''text/html;charset=utf-8'', ''Content-Length'' \<mapsto> show_nat (length (''<p>''))]"
    by (simp add: file_page_def with_length_def res_html_def res_header_def res_body_def res_status_def setCache_def
        new_response_def)
  then have order: "iterates (hs_header_order plain_host (rs_headers (with_length (file_page ?f)))) (rs_headers (with_length (file_page ?f)))"
    by (simp add: plain_host_def iterates_def insert_commute)
  have "after_response (message_request ?m) = Rearmed"
    by (simp add: after_response_def getHeader_def message_request_def sample_ahead_def)
  with file_page_served [OF server m arrival wire reached _ cache(2) content order]
  show ?thesis by (auto simp: sample_wire_def)
qed

end
