(* ===== verification/Error_Pages.thy ===== *)
theory Error_Pages
  imports File_Pages
begin

section \<open>Pages for errors\<close>

text \<open>
  What a client gets when a program sets a page of its own for an error with
  \<open>app.onError(code)\<close>, of \<^verbatim>\<open>src/core/router.cpp\<close>: the page is a fresh response, and
  \<open>Response::html\<close> and \<open>Response::json\<close> of \<^verbatim>\<open>src/core/response.cpp\<close> set the status of every
  response they fill.
\<close>

text \<open>The three ways to set a page.\<close>

definition own_page :: "int \<Rightarrow> string \<Rightarrow> 'w error_handlers \<Rightarrow> 'w error_handlers set" where
  "own_page code content handlers =
     {ErrorRoute_html code content handlers, ErrorRoute_json code content handlers, ErrorRoute_file code content handlers}"

lemma own_page_status:
  assumes "sv_error_handlers sv \<in> own_page code content handlers"
  shows "\<exists>page. error_page hst sv code req w = (Inr page, w) \<and> rs_status page = 200"
  using assms
  by (auto simp: own_page_def error_page_def ErrorRoute_html_def ErrorRoute_json_def ErrorRoute_file_def
      res_html_def res_json_def res_header_def res_body_def res_status_def
      split: option.split)

text \<open>A request that nothing answers.\<close>

definition unanswered :: "'u server \<Rightarrow> 'u world routes \<Rightarrow> string \<Rightarrow> host \<Rightarrow> message \<Rightarrow> bool" where
  "unanswered sv routes ip hst m \<longleftrightarrow>
     (case resolve (hs_route_order hst) routes (ms_method m) (normalizePath (ms_path m)) ((parsed_request m)\<lparr>rq_client_ip := ip\<rparr>) of
        (handler, req) \<Rightarrow> handler = None
          \<and> \<not> fst (serve_static (hs_files hst) (sv_static_files sv) req (setCache True new_response)))"

lemma unanswered_reply:
  assumes "unanswered sv routes ip hst m" and "sv_middlewares sv = []"
    and "\<And>req. \<exists>page. error_page hst sv 404 req w = (Inr page, w) \<and> P page"
  shows "\<exists>req page. reply sv routes ip hst m w = Inr (req, page, w) \<and> P page"
  using assms(1,2) assms(3) [of "snd (resolve (hs_route_order hst) routes (ms_method m) (normalizePath (ms_path m))
    ((parsed_request m)\<lparr>rq_client_ip := ip\<rparr>))"]
  by (auto simp: unanswered_def reply_def respond_def last_effect_def split: prod.splits bool.splits)

lemma build_status: "\<exists>t. res_build ks r = status_line (rs_status r) @ crlf @ t"
  by (simp add: res_build_def Let_def)

lemma unhandled_reply:
  assumes "resolve (hs_route_order hst) routes (ms_method m) (normalizePath (ms_path m)) ((parsed_request m)\<lparr>rq_client_ip := ip\<rparr>)
      = (Some h, req0)"
    and "h (req0, setCache True new_response, w) = (Some e, req, res, w')" and "caught e" and "sv_middlewares sv = []"
    and "error_page hst sv 500 req w' = (Inr page, w'')"
  shows "reply sv routes ip hst m w = Inr (req, page, w'')"
  using assms by (simp add: reply_def respond_def last_effect_def)

text \<open>C40. Errors are reported as successes: as soon as a program sets a page of its own for the error 404,
  with any of the three ways there are, a client that asks for a page that does not exist gets a
  message that starts with \<^verbatim>\<open>HTTP/1.1 200 OK\<close>, whatever is on the page.\<close>

theorem missing_page_reported_as_success:
  assumes "sv_error_handlers sv \<in> own_page 404 content handlers" and "sv_middlewares sv = []"
    and "sv_router sv = Some routes" and "unanswered sv routes (cn_ip (wi_conn wi)) hst m"
    and "arrival_ok sv (wi_conn wi) (hst, m, segs)" and "open_wire wi" and "wi_accept wi = []"
    and "wi_in wi = in_turn ((hst, m, segs) # as)"
  shows "\<exists>fate t. handleRequest hst sv (await wi, w) = Some (Inr (fate,
    wi\<lparr>wi_in := in_turn as, wi_out := wi_out wi @ ''HTTP/1.1 200 OK'' @ crlf @ t\<rparr>, w))"
proof -
  obtain req page where reply: "reply sv routes (cn_ip (wi_conn wi)) hst m w = Inr (req, page, w)"
    and status: "rs_status page = 200"
    using unanswered_reply [OF assms(4,2) own_page_status [OF assms(1)]] by blast
  obtain t where "response_text hst page = ''HTTP/1.1 200 OK'' @ crlf @ t"
    using build_status [of _ page] status
    by (auto simp: response_text_def status_200)
  with serve_arrival [OF assms(5-8,3) reply] show ?thesis by auto
qed

text \<open>The same happens to the page for exceptions.\<close>

theorem exception_reported_as_success:
  assumes "sv_error_handlers sv \<in> own_page 500 content handlers" and "sv_middlewares sv = []"
    and "resolve (hs_route_order hst) routes (ms_method m) (normalizePath (ms_path m)) ((parsed_request m)\<lparr>rq_client_ip := ip\<rparr>)
      = (Some h, req0)"
    and "h (req0, setCache True new_response, w) = (Some e, req, res, w')" and "caught e"
  shows "\<exists>page. reply sv routes ip hst m w = Inr (req, page, w') \<and> rs_status page = 200"
  using unhandled_reply [OF assms(3-5,2)] own_page_status [OF assms(1), of hst req w'] by blast

subsection \<open>A sample server\<close>

definition lost_server :: "unit server" where
  "lost_server = plain_server\<lparr>sv_router := Some Map.empty,
     sv_error_handlers := ErrorRoute_html 404 ''<h1>404 Not Found</h1>'' Map.empty\<rparr>"

theorem missing_page_reported_as_success_witness:
  "\<exists>fate wi t. handleRequest plain_host lost_server
        (await (sample_wire (in_turn [(plain_host, sample_ahead, halves 20 (message_text sample_ahead))])), plain_world)
      = Some (Inr (fate, wi, plain_world)) \<and> wi_out wi = ''HTTP/1.1 200 OK'' @ crlf @ t"
proof -
  let ?a = "(plain_host, sample_ahead, halves 20 (message_text sample_ahead))"
  let ?wi = "sample_wire (in_turn [?a])"
  have server: "sv_error_handlers lost_server \<in> own_page 404 ''<h1>404 Not Found</h1>'' Map.empty"
    "sv_middlewares lost_server = []" "sv_router lost_server = Some Map.empty"
    by (simp_all add: lost_server_def plain_server_def own_page_def)
  have none: "resolve (hs_route_order plain_host) Map.empty (ms_method sample_ahead) (normalizePath (ms_path sample_ahead)) r = (None, r)" for r
    by (simp add: resolve_def plain_host_def)
  have unanswered: "unanswered lost_server Map.empty (cn_ip (wi_conn ?wi)) plain_host sample_ahead"
    unfolding unanswered_def none by (simp add: lost_server_def plain_server_def)
  have arrival: "arrival_ok lost_server (wi_conn ?wi) ?a"
    using sample_arrival_ok [of sample_ahead "in_turn [?a]"] by (simp add: arrival_ok_def lost_server_def)
  have wire: "open_wire ?wi" "wi_accept ?wi = []" "wi_in ?wi = in_turn [?a]" "wi_out ?wi = []"
    by (simp_all add: sample_wire_def open_wire_def new_conn_def)
  from missing_page_reported_as_success [OF server unanswered arrival wire(1-3), of plain_world]
  show ?thesis unfolding wire(4) by fastforce
qed

end
