(* ===== verification/Config_Files.thy ===== *)
theory Config_Files
  imports Config
begin

section \<open>Configuration files in general\<close>

text \<open>
  The file that \<open>loadConfig\<close> of \<^verbatim>\<open>src/util/config_parser.cpp\<close> reads, as the person who writes it
  sees it: settings with their values, in any order and any number of them, comments, blank lines and
  keys the program does not know. A number is written in decimal, a size with a unit or without.
\<close>

datatype size_unit = Bytes | KB | MB | GB

fun unit_text :: "size_unit \<Rightarrow> string" where
  "unit_text Bytes = []"
| "unit_text KB = ''KB''"
| "unit_text MB = ''MB''"
| "unit_text GB = ''GB''"

fun unit_factor :: "size_unit \<Rightarrow> nat" where
  "unit_factor Bytes = 1"
| "unit_factor KB = 2 ^ 10"
| "unit_factor MB = 2 ^ 20"
| "unit_factor GB = 2 ^ 30"

datatype setting =
    Port nat
  | Bind string
  | Tls bool
  | Cert string
  | Key string
  | Max_body nat size_unit
  | Max_upload nat size_unit
  | Max_header nat size_unit
  | Max_headers int
  | Header_timeout int
  | Body_timeout int
  | Max_connections int
  | Max_cache nat

fun setting_entry :: "setting \<Rightarrow> string \<times> string" where
  "setting_entry (Port n) = (''port'', show_nat n)"
| "setting_entry (Bind addr) = (''bind'', addr)"
| "setting_entry (Tls on) = (''tls'', if on then ''on'' else ''off'')"
| "setting_entry (Cert path) = (''cert'', path)"
| "setting_entry (Key path) = (''key'', path)"
| "setting_entry (Max_body n u) = (''max_body'', show_nat n @ unit_text u)"
| "setting_entry (Max_upload n u) = (''max_upload'', show_nat n @ unit_text u)"
| "setting_entry (Max_header n u) = (''max_header'', show_nat n @ unit_text u)"
| "setting_entry (Max_headers i) = (''max_headers'', show_int i)"
| "setting_entry (Header_timeout i) = (''header_timeout'', show_int i)"
| "setting_entry (Body_timeout i) = (''body_timeout'', show_int i)"
| "setting_entry (Max_connections i) = (''max_connections'', show_int i)"
| "setting_entry (Max_cache n) = (''max_cache'', show_nat n)"

text \<open>What a setting means.\<close>

fun configure :: "setting \<Rightarrow> config \<Rightarrow> config" where
  "configure (Port n) c = c\<lparr>cfg_port := n\<rparr>"
| "configure (Bind addr) c = c\<lparr>cfg_bind_addr := addr\<rparr>"
| "configure (Tls on) c = c\<lparr>cfg_use_tls := on\<rparr>"
| "configure (Cert path) c = c\<lparr>cfg_cert_path := ''config/'' @ path\<rparr>"
| "configure (Key path) c = c\<lparr>cfg_key_path := ''config/'' @ path\<rparr>"
| "configure (Max_body n u) c = c\<lparr>cfg_max_body_size := n * unit_factor u\<rparr>"
| "configure (Max_upload n u) c = c\<lparr>cfg_max_upload_size := n * unit_factor u\<rparr>"
| "configure (Max_header n u) c = c\<lparr>cfg_max_header_size := n * unit_factor u\<rparr>"
| "configure (Max_headers i) c = c\<lparr>cfg_max_headers := i\<rparr>"
| "configure (Header_timeout i) c = c\<lparr>cfg_header_timeout_ms := i\<rparr>"
| "configure (Body_timeout i) c = c\<lparr>cfg_body_timeout_ms := i\<rparr>"
| "configure (Max_connections i) c = c\<lparr>cfg_max_connections := i\<rparr>"
| "configure (Max_cache n) c = c\<lparr>cfg_max_cache_entries := n\<rparr>"

text \<open>The values that fit the types of the fields.\<close>

definition int_ok :: "int \<Rightarrow> bool" where
  "int_ok i \<longleftrightarrow> - (2 ^ 31) \<le> i \<and> i < 2 ^ 31"

definition one_line :: "string \<Rightarrow> bool" where
  "one_line s \<longleftrightarrow> CHR 0x0A \<notin> set s"

fun setting_ok :: "setting \<Rightarrow> bool" where
  "setting_ok (Port n) = (n < 2 ^ 16)"
| "setting_ok (Bind addr) = one_line addr"
| "setting_ok (Tls on) = True"
| "setting_ok (Cert path) = one_line path"
| "setting_ok (Key path) = one_line path"
| "setting_ok (Max_body n u) = (n * unit_factor u < 2 ^ 64)"
| "setting_ok (Max_upload n u) = (n * unit_factor u < 2 ^ 64)"
| "setting_ok (Max_header n u) = (n * unit_factor u < 2 ^ 64)"
| "setting_ok (Max_headers i) = int_ok i"
| "setting_ok (Header_timeout i) = int_ok i"
| "setting_ok (Body_timeout i) = int_ok i"
| "setting_ok (Max_connections i) = int_ok i"
| "setting_ok (Max_cache n) = (n < 2 ^ 31)"

datatype conf_line = Comment string | Blank | Setting setting | Unknown string string

definition known_keys :: "string list" where
  "known_keys = [''port'', ''bind'', ''tls'', ''cert'', ''key'', ''max_body'', ''max_upload'', ''max_header'',
     ''max_headers'', ''header_timeout'', ''body_timeout'', ''max_connections'', ''max_cache'']"

fun conf_text :: "conf_line \<Rightarrow> string" where
  "conf_text (Comment s) = CHR ''#'' # s"
| "conf_text Blank = []"
| "conf_text (Setting s) = fst (setting_entry s) @ CHR ''='' # snd (setting_entry s)"
| "conf_text (Unknown key value) = key @ CHR ''='' # value"

fun conf_ok :: "conf_line \<Rightarrow> bool" where
  "conf_ok (Comment s) = one_line s"
| "conf_ok Blank = True"
| "conf_ok (Setting s) = setting_ok s"
| "conf_ok (Unknown key value) \<longleftrightarrow> key \<notin> set known_keys \<and> key \<noteq> [] \<and> hd key \<noteq> CHR ''#'' \<and> CHR ''='' \<notin> set key
     \<and> one_line key \<and> one_line value"

fun conf_meaning :: "conf_line \<Rightarrow> config \<Rightarrow> config" where
  "conf_meaning (Setting s) c = configure s c"
| "conf_meaning _ c = c"

definition conf_file :: "conf_line list \<Rightarrow> string" where
  "conf_file ls = concat (map (\<lambda>l. conf_text l @ [CHR 0x0A]) ls)"

subsection \<open>One line\<close>

lemma config_line_entry:
  assumes "key \<noteq> []" and "hd key \<noteq> CHR ''#''" and "CHR ''='' \<notin> set key"
  shows "config_line dir c (key @ CHR ''='' # value) = config_entry dir c key value"
proof -
  have "find_from (key @ CHR ''='' # value) [CHR ''=''] 0 = Some (length key)"
    using assms(3) by (simp add: find_from_0)
  with assms(1,2) show ?thesis by (simp add: config_line_def substr_def Let_def)
qed

lemma stoi_show_int: "int_ok i \<Longrightarrow> stoi 10 (show_int i) = Inr i"
  by (simp add: int_ok_def stoi_def sto_signed_def strto_show_int signed_def)

lemma show_int_nat: "show_nat n = show_int (int n)"
  by (simp add: show_int_def)

lemma stoi_show_nat: "n < 2 ^ 31 \<Longrightarrow> stoi 10 (show_nat n) = Inr (int n)"
  unfolding show_int_nat by (rule stoi_show_int) (simp add: int_ok_def)

lemma parseSize_plain: "n < 2 ^ 64 \<Longrightarrow> parseSize (show_nat n) = Inr n"
proof -
  assume n: "n < 2 ^ 64"
  have "find_first_not_of (show_nat n) ''0123456789'' 0 = None"
    using show_nat_digits [of _ n] by (simp add: find_first_not_of_def digit_chars takeWhile_eq_all_conv [THEN iffD2] del: list.set)
  with n show ?thesis using stoul_show_nat [of n "[]"] by (simp add: parseSize_def)
qed

lemma parseSize_text: "n * unit_factor u < 2 ^ 64 \<Longrightarrow> parseSize (show_nat n @ unit_text u) = Inr (n * unit_factor u)"
proof (cases u)
  case Bytes
  assume "n * unit_factor u < 2 ^ 64"
  with Bytes show ?thesis by (simp add: parseSize_plain)
qed (use parseSize_unit [of n] in auto)

lemma setting_key: "fst (setting_entry s) \<in> set known_keys" "fst (setting_entry s) \<noteq> []"
  "hd (fst (setting_entry s)) \<noteq> CHR ''#''" "CHR ''='' \<notin> set (fst (setting_entry s))"
  by (cases s; simp add: known_keys_def)+

lemma config_entry_setting:
  assumes "setting_ok s"
  shows "config_entry ''config'' c (fst (setting_entry s)) (snd (setting_entry s)) = Inr (configure s c)"
  using assms
  by (cases s) (simp_all add: config_entry_def stoi_show_int stoi_show_nat parseSize_text)

lemma config_line_meaning:
  assumes "conf_ok l"
  shows "config_line ''config'' c (conf_text l) = Inr (conf_meaning l c)"
proof (cases l)
  case (Comment t)
  then show ?thesis by (simp add: config_line_def)
next
  case Blank
  then show ?thesis by (simp add: config_line_def)
next
  case (Setting s)
  with assms show ?thesis by (simp add: config_line_entry setting_key config_entry_setting)
next
  case (Unknown key val)
  with assms have "config_entry ''config'' c key val = Inr c" by (simp add: config_entry_def known_keys_def)
  with assms Unknown show ?thesis by (simp add: config_line_entry)
qed

subsection \<open>Whole files\<close>

lemma show_int_one_line: "one_line (show_nat n)" "one_line (show_int i)"
  using show_nat_digits [of "CHR 0x0A"] by (auto simp: one_line_def show_int_def is_digit_def)

lemma conf_text_one_line: "conf_ok l \<Longrightarrow> CHR 0x0A \<notin> set (conf_text l)"
proof (cases l)
  case (Setting s)
  assume "conf_ok l"
  moreover have "CHR 0x0A \<notin> set (unit_text u)" for u by (cases u) simp_all
  ultimately show ?thesis
    using show_int_one_line by (cases s) (simp_all add: Setting one_line_def)
qed (simp_all add: one_line_def)

lemma config_lines_meaning:
  "list_all conf_ok ls \<Longrightarrow> config_lines ''config'' c (map conf_text ls) = Inr (fold conf_meaning ls c)"
  by (induction ls arbitrary: c) (simp_all add: config_line_meaning)

lemma read_conf_file:
  assumes "list_all conf_ok ls" and "cw_file w = Some (conf_file ls)" and "cw_can_open w"
  shows "read_config w = Inr (fold conf_meaning ls default_config)"
proof -
  have "\<forall>t \<in> set (map conf_text ls). CHR 0x0A \<notin> set t"
    using assms(1) conf_text_one_line by (auto simp: list_all_iff)
  from pieces_terminated [OF this] have "pieces (CHR 0x0A) (conf_file ls) = map conf_text ls"
    by (simp add: conf_file_def o_def)
  with assms show ?thesis by (simp add: read_config_def config_lines_meaning)
qed

lemma loadConfig_existing: "cw_file w = Some t \<Longrightarrow> loadConfig w = (read_config w, w\<lparr>cw_conf_dir := True\<rparr>)"
  by (simp add: loadConfig_def read_config_def Let_def)

lemma fold_settings [simp]: "fold conf_meaning (map Setting ss) c = fold configure ss c"
  by (induction ss arbitrary: c) simp_all

text \<open>C24. A configuration file means what its settings say: whatever settings with values in the range
  of their types stand in the file, in whatever order, with comments, blank lines and unknown keys
  in between, \<open>loadConfig\<close> returns the defaults changed by the settings one after the other, so that
  the last one for a field counts, and leaves the file alone.\<close>

theorem config_file_means_settings:
  assumes "list_all conf_ok ls" and "cw_file w = Some (conf_file ls)" and "cw_can_open w"
  shows "loadConfig w = (Inr (fold conf_meaning ls default_config), w\<lparr>cw_conf_dir := True\<rparr>)"
  using read_conf_file [OF assms] by (simp add: loadConfig_existing [OF assms(2)])

text \<open>Every configuration that the types of its fields allow can be written down and is read back
  exactly as it was, provided that its two files lie in the directory of the configuration.\<close>

definition settings_of :: "config \<Rightarrow> string \<Rightarrow> string \<Rightarrow> setting list" where
  "settings_of c cert key =
     [Port (cfg_port c), Bind (cfg_bind_addr c), Tls (cfg_use_tls c), Cert cert, Key key,
      Max_body (cfg_max_body_size c) Bytes, Max_upload (cfg_max_upload_size c) Bytes,
      Max_header (cfg_max_header_size c) Bytes, Max_headers (cfg_max_headers c),
      Header_timeout (cfg_header_timeout_ms c), Body_timeout (cfg_body_timeout_ms c),
      Max_connections (cfg_max_connections c), Max_cache (cfg_max_cache_entries c)]"

lemma configure_settings_of:
  assumes "cfg_cert_path c = ''config/'' @ cert" and "cfg_key_path c = ''config/'' @ key"
  shows "fold configure (settings_of c cert key) c0 = c"
  using assms by (cases c; cases c0) (simp add: settings_of_def)

theorem config_roundtrip:
  assumes "cfg_cert_path c = ''config/'' @ cert" and "cfg_key_path c = ''config/'' @ key"
    and "list_all setting_ok (settings_of c cert key)"
    and "cw_file w = Some (conf_file (map Setting (settings_of c cert key)))" and "cw_can_open w"
  shows "fst (loadConfig w) = Inr c"
proof -
  have "list_all conf_ok (map Setting (settings_of c cert key))" using assms(3) by (simp add: list_all_iff)
  from read_conf_file [OF this assms(4,5)] show ?thesis
    by (simp add: loadConfig_existing [OF assms(4)] configure_settings_of [OF assms(1,2)])
qed

theorem config_file_means_settings_witness:
  "fst (loadConfig \<lparr>cw_dir_name = ''app'', cw_conf_dir = True, cw_file = Some (conf_file
        [Comment '' mine'', Setting (Port 80), Blank, Setting (Max_body 3 KB), Unknown ''theme'' ''dark'', Setting (Port 443)]),
      cw_can_create = False, cw_can_open = True\<rparr>)
   = Inr (default_config\<lparr>cfg_port := 443, cfg_max_body_size := 3072\<rparr>)"
proof -
  let ?ls = "[Comment '' mine'', Setting (Port 80), Blank, Setting (Max_body 3 KB), Unknown ''theme'' ''dark'', Setting (Port 443)]"
  let ?w = "\<lparr>cw_dir_name = ''app'', cw_conf_dir = True, cw_file = Some (conf_file ?ls), cw_can_create = False, cw_can_open = True\<rparr>"
  have "list_all conf_ok ?ls" by (simp add: one_line_def known_keys_def)
  from config_file_means_settings [OF this, of ?w] show ?thesis by simp
qed

end
