(* ===== verification/Threads.thy ===== *)
theory Threads
  imports Prelude
begin

section \<open>Threads that share a state\<close>

text \<open>
  The worker threads run the same middlewares at the same time. This theory says what it means
  for threads to take their steps in any order: every thread has a position, its program counter
  and local variables, and a step moves one thread and may change what they share. A mutex
  (\<^verbatim>\<open>std::mutex\<close> and \<^verbatim>\<open>std::shared_mutex\<close>) is the condition under which a thread may
  move to a position: no other thread is at a position that excludes it. Two threads race on a
  location when their next steps both access it and one of them writes; C++ leaves the outcome
  undefined.
\<close>

datatype hold = Free | Shared | Exclusive

datatype 'x access = Reads 'x | Writes 'x

type_synonym ('l, 's) threads = "(nat \<Rightarrow> 'l) \<times> 's"

definition may_hold :: "('l \<Rightarrow> hold) \<Rightarrow> (nat \<Rightarrow> 'l) \<Rightarrow> nat \<Rightarrow> 'l \<Rightarrow> bool" where
  "may_hold holds ls i l \<longleftrightarrow>
     (\<forall>j. j \<noteq> i \<longrightarrow> (holds l = Exclusive \<longrightarrow> holds (ls j) = Free) \<and> (holds l = Shared \<longrightarrow> holds (ls j) \<noteq> Exclusive))"

inductive thread_step ::
  "('e \<Rightarrow> 'l \<times> 's \<Rightarrow> 'l \<times> 's \<Rightarrow> bool) \<Rightarrow> ('l \<Rightarrow> hold) \<Rightarrow> nat \<times> 'e \<Rightarrow> ('l, 's) threads \<Rightarrow> ('l, 's) threads \<Rightarrow> bool"
  for move holds where
  Move: "move e (ls i, s) (l, s') \<Longrightarrow> may_hold holds ls i l \<Longrightarrow>
    thread_step move holds (i, e) (ls, s) (ls(i := l), s')"

inductive_cases thread_stepE: "thread_step move holds (i, e) (ls, s) (ls', s')"

lemma thread_stepI:
  "move e (ls i, s) (l, s') \<Longrightarrow> may_hold holds ls i l \<Longrightarrow> ls' = ls(i := l) \<Longrightarrow>
   thread_step move holds (i, e) (ls, s) (ls', s')"
  by (simp add: thread_step.Move)

definition excluded :: "('l \<Rightarrow> hold) \<Rightarrow> (nat \<Rightarrow> 'l) \<Rightarrow> bool" where
  "excluded holds ls \<longleftrightarrow> (\<forall>i j. i \<noteq> j \<longrightarrow> holds (ls i) = Exclusive \<longrightarrow> holds (ls j) = Free)"

lemma excludedD: "excluded holds ls \<Longrightarrow> i \<noteq> j \<Longrightarrow> holds (ls i) = Exclusive \<Longrightarrow> holds (ls j) = Free"
  by (simp add: excluded_def)

lemma excluded_free: "(\<And>i. holds (ls i) = Free) \<Longrightarrow> excluded holds ls"
  by (simp add: excluded_def)

lemma excluded_step:
  assumes "thread_step move holds ev c c'" and "excluded holds (fst c)"
  shows "excluded holds (fst c')"
  using assms
proof (cases rule: thread_step.cases)
  case (Move e ls i s l s')
  have "holds ((ls(i := l)) k) = Free" if "j \<noteq> k" "holds ((ls(i := l)) j) = Exclusive" for j k
  proof (cases "j = i")
    case True
    with that Move(5) show ?thesis by (simp add: may_hold_def)
  next
    case False
    show ?thesis
    proof (cases "k = i")
      case True
      with that False Move(5) have "holds l \<noteq> Exclusive" "holds l \<noteq> Shared"
        by (auto simp: may_hold_def dest: spec [of _ j])
      with True show ?thesis by (cases "holds l") simp_all
    next
      case other: False
      with that False assms(2) Move(2) show ?thesis by (auto dest: excludedD)
    qed
  qed
  then show ?thesis by (simp add: Move excluded_def)
qed

lemma excluded_run:
  "run_of (thread_step move holds) c evs c' \<Longrightarrow> excluded holds (fst c) \<Longrightarrow> excluded holds (fst c')"
  by (induction rule: run_of.induct) (auto intro: excluded_step)

text \<open>What two threads are about to do to one location.\<close>

definition race :: "('l \<Rightarrow> 's \<Rightarrow> 'x access set) \<Rightarrow> 'x \<Rightarrow> ('l, 's) threads \<Rightarrow> bool" where
  "race acc x c \<longleftrightarrow> (\<exists>i j. i \<noteq> j \<and> Writes x \<in> acc (fst c i) (snd c)
     \<and> (Reads x \<in> acc (fst c j) (snd c) \<or> Writes x \<in> acc (fst c j) (snd c)))"

text \<open>
  The discipline that rules races out: who writes the location holds its mutex exclusively, who
  reads it holds the mutex at all.
\<close>

locale lock_discipline =
  fixes move :: "'e \<Rightarrow> 'l \<times> 's \<Rightarrow> 'l \<times> 's \<Rightarrow> bool" and holds :: "'l \<Rightarrow> hold"
    and acc :: "'l \<Rightarrow> 's \<Rightarrow> 'x access set" and x :: 'x
  assumes writer: "Writes x \<in> acc l s \<Longrightarrow> holds l = Exclusive"
    and reader: "Reads x \<in> acc l s \<Longrightarrow> holds l \<noteq> Free"
begin

lemma excluded_race_free: "excluded holds (fst c) \<Longrightarrow> \<not> race acc x c"
  unfolding race_def using writer reader by (metis excludedD hold.distinct(3))

lemma race_free:
  "run_of (thread_step move holds) c evs c' \<Longrightarrow> excluded holds (fst c) \<Longrightarrow> \<not> race acc x c'"
  by (rule excluded_race_free) (rule excluded_run)

end

text \<open>
  What holds of one thread's position together with the shared state, for all threads: a step
  keeps it when the mover establishes it for itself and does not break it for the others.
\<close>

lemma positions_step:
  assumes "thread_step move holds ev (ls, s) (ls', s')" and "\<And>i. P i (ls i) s"
    and own: "\<And>i e l. ev = (i, e) \<Longrightarrow> move e (ls i, s) (l, s') \<Longrightarrow> P i l s'"
    and others: "\<And>i j e l. ev = (i, e) \<Longrightarrow> move e (ls i, s) (l, s') \<Longrightarrow> j \<noteq> i \<Longrightarrow> P j (ls j) s'"
  shows "P i (ls' i) s'"
  using assms(1)
proof (cases rule: thread_step.cases)
  case (Move e k l)
  show ?thesis
  proof (cases "i = k")
    case True
    with own [OF Move(1,3)] Move(2) show ?thesis by simp
  next
    case False
    with others [OF Move(1,3) False] Move(2) show ?thesis by simp
  qed
qed

lemma run_thread:
  assumes "run_of (thread_step move holds) c evs (ls, s)" and "move e (ls i, s) (l, s')" and "may_hold holds ls i l"
    and "ls' = ls(i := l)"
  shows "run_of (thread_step move holds) c (evs @ [(i, e)]) (ls', s')"
  using assms by (auto intro: run_of.Step thread_stepI)

text \<open>Runs in which only the first two threads move, written down step by step.\<close>

definition pair_of :: "'l \<Rightarrow> 'l \<Rightarrow> 'l \<Rightarrow> nat \<Rightarrow> 'l" where
  "pair_of idle p q = (\<lambda>i. idle)(0 := p, Suc 0 := q)"

definition compatible :: "('l \<Rightarrow> hold) \<Rightarrow> 'l \<Rightarrow> 'l \<Rightarrow> bool" where
  "compatible holds p q \<longleftrightarrow> holds p = Free \<or> holds q = Free \<or> holds p = Shared \<and> holds q = Shared"

lemma pair_idle: "pair_of idle idle idle = (\<lambda>i. idle)"
  by (simp add: pair_of_def fun_eq_iff)

lemma pair_start: "run_of (thread_step move holds) (\<lambda>i. idle, s) [] (pair_of idle idle idle, s)"
  unfolding pair_idle by (rule run_of.Start)

lemma first_moves:
  assumes "run_of (thread_step move holds) c evs (pair_of idle p q, s)" and "move e (p, s) (p', s')"
    and "evs' = evs @ [(0, e)]" and "compatible holds p' q" and "holds idle = Free"
  shows "run_of (thread_step move holds) c evs' (pair_of idle p' q, s')"
  using assms(1)
proof (rule run_snoc)
  show "thread_step move holds (0, e) (pair_of idle p q, s) (pair_of idle p' q, s')"
    using assms(2,4,5) by (intro thread_stepI) (auto simp: pair_of_def compatible_def may_hold_def fun_upd_twist)
qed (rule assms(3))

lemma second_moves:
  assumes "run_of (thread_step move holds) c evs (pair_of idle p q, s)" and "move e (q, s) (q', s')"
    and "evs' = evs @ [(1, e)]" and "compatible holds p q'" and "holds idle = Free"
  shows "run_of (thread_step move holds) c evs' (pair_of idle p q', s')"
  using assms(1)
proof (rule run_snoc)
  show "thread_step move holds (1, e) (pair_of idle p q, s) (pair_of idle p q', s')"
    using assms(2,4,5) by (intro thread_stepI) (auto simp: pair_of_def compatible_def may_hold_def)
qed (rule assms(3))

end
