(* ===== verification/Session_Threads.thy ===== *)
theory Session_Threads
  imports Session Threads
begin

section \<open>Sessions under concurrent requests\<close>

text \<open>
  The session middleware of \<^verbatim>\<open>src/security/session.cpp\<close>, run by many workers at once,
  together with the thread that removes expired sessions. The positions are the places between
  two steps: looking the identifier up and renewing the session with the shared lock, having
  missed it with no lock, replacing it with the exclusive lock, and inside \<open>next()\<close> with the
  session attached, where handlers read and write its data without a lock. The expiry is an
  atomic of its own, so that testing and renewing it are two steps.
\<close>

datatype position =
    Outside
  | Looking "string option" request response
  | Touching nat request response
  | Missed "string option" request response
  | Replacing "string option" request response
  | Inside request response
  | Setting string string request response
  | Getting string request response
  | Sweeping

text \<open>An event brings the readings of the clock and of the random generator with it.\<close>

datatype session_event =
    Arrive request response
  | Look int
  | Touch int
  | Lock
  | Create session_env
  | Begin_set string string
  | Set
  | Begin_get string
  | Get
  | Leave
  | Begin_sweep
  | Sweep int

definition touch_session :: "int \<Rightarrow> nat \<Rightarrow> sessions \<Rightarrow> sessions" where
  "touch_session expires a s = s\<lparr>ss_objs := (ss_objs s)(a := (ss_objs s a)\<lparr>sd_expires := expires\<rparr>)\<rparr>"

definition forget_session :: "string option \<Rightarrow> sessions \<Rightarrow> sessions" where
  "forget_session sid s =
     (case sid of None \<Rightarrow> s | Some ident \<Rightarrow> s\<lparr>ss_storage := (ss_storage s)(ident := None)\<rparr>)"

text \<open>The session that the lookup finds at a time.\<close>

definition live_session :: "string option \<Rightarrow> int \<Rightarrow> sessions \<Rightarrow> nat option" where
  "live_session sid now s =
     (case sid of
        None \<Rightarrow> None
      | Some ident \<Rightarrow>
          (case ss_storage s ident of
             None \<Rightarrow> None
           | Some a \<Rightarrow> if sd_expires (ss_objs s a) > now then Some a else None))"

inductive session_move ::
  "int \<Rightarrow> string \<Rightarrow> string \<Rightarrow> session_event \<Rightarrow> position \<times> sessions \<Rightarrow> position \<times> sessions \<Rightarrow> bool"
  for ttl cookie_name flags where
  Arrive: "session_move ttl cookie_name flags (Arrive req res) (Outside, s)
    (Looking (session_id cookie_name req) req res, s)"
| Hit: "live_session sid now s = Some a \<Longrightarrow>
    session_move ttl cookie_name flags (Look now) (Looking sid req res, s) (Touching a req res, s)"
| Miss: "live_session sid now s = None \<Longrightarrow>
    session_move ttl cookie_name flags (Look now) (Looking sid req res, s) (Missed sid req res, s)"
| Touch: "session_move ttl cookie_name flags (Touch now) (Touching a req res, s)
    (Inside (req\<lparr>rq_session := Some a\<rparr>) res, touch_session (now + ttl) a s)"
| Lock: "session_move ttl cookie_name flags Lock (Missed sid req res, s) (Replacing sid req res, s)"
| Create: "length (se_random env 32) = 32 \<Longrightarrow>
    create_session ttl cookie_name flags env (req, res, forget_session sid s) = (req', res', s') \<Longrightarrow>
    session_move ttl cookie_name flags (Create env) (Replacing sid req res, s) (Inside req' res', s')"
| Begin_set: "session_move ttl cookie_name flags (Begin_set key val) (Inside req res, s) (Setting key val req res, s)"
| Set: "update_session (rq_session req) (session_set key val) s = Inr s' \<Longrightarrow>
    session_move ttl cookie_name flags Set (Setting key val req res, s) (Inside req res, s')"
| Begin_get: "session_move ttl cookie_name flags (Begin_get key) (Inside req res, s) (Getting key req res, s)"
| Get: "read_session (rq_session req) s = Inr d \<Longrightarrow>
    session_move ttl cookie_name flags Get (Getting key req res, s) (Inside req res, s)"
| Leave: "session_move ttl cookie_name flags Leave (Inside req res, s) (Outside, s)"
| Begin_sweep: "session_move ttl cookie_name flags Begin_sweep (Outside, s) (Sweeping, s)"
| Sweep: "session_move ttl cookie_name flags (Sweep now) (Sweeping, s) (Outside, session_cleanup now s)"

inductive_cases session_moveE [consumes 1, case_names Arrive Hit Miss Touch Lock Create Begin_set Set Begin_get Get Leave
    Begin_sweep Sweep]:
  "session_move ttl n flags e (p, s) (p', s')"

fun session_holds :: "position \<Rightarrow> hold" where
  "session_holds (Looking sid req res) = Shared"
| "session_holds (Touching a req res) = Shared"
| "session_holds (Replacing sid req res) = Exclusive"
| "session_holds Sweeping = Exclusive"
| "session_holds _ = Free"

text \<open>The table of sessions, and the data of each of them.\<close>

datatype cell = Table | Data nat

fun session_accesses :: "position \<Rightarrow> sessions \<Rightarrow> cell access set" where
  "session_accesses (Looking sid req res) s = {Reads Table}"
| "session_accesses (Touching a req res) s = {Reads Table}"
| "session_accesses (Replacing sid req res) s = {Reads Table, Writes Table, Writes (Data (ss_next s))}"
| "session_accesses (Setting key val req res) s = (case rq_session req of None \<Rightarrow> {} | Some a \<Rightarrow> {Writes (Data a)})"
| "session_accesses (Getting key req res) s = (case rq_session req of None \<Rightarrow> {} | Some a \<Rightarrow> {Reads (Data a)})"
| "session_accesses Sweeping s = {Reads Table, Writes Table}"
| "session_accesses _ s = {}"

abbreviation session_threads ::
  "int \<Rightarrow> string \<Rightarrow> string \<Rightarrow> nat \<times> session_event \<Rightarrow> (position, sessions) threads \<Rightarrow> (position, sessions) threads \<Rightarrow> bool" where
  "session_threads ttl cookie_name flags \<equiv> thread_step (session_move ttl cookie_name flags) session_holds"

abbreviation session_threads_run ::
  "int \<Rightarrow> string \<Rightarrow> string \<Rightarrow> (nat \<times> session_event) list \<Rightarrow> (position, sessions) threads \<Rightarrow> bool" where
  "session_threads_run ttl cookie_name flags \<equiv> run_of (session_threads ttl cookie_name flags) (\<lambda>i. Outside, no_sessions)"

subsection \<open>The table is never raced for\<close>

interpretation table: lock_discipline "session_move ttl n flags" session_holds session_accesses Table for ttl n flags
proof unfold_locales
  show "session_holds l = Exclusive" if "Writes Table \<in> session_accesses l s" for l s
    using that by (cases l) (auto split: option.splits)
  show "session_holds l \<noteq> Free" if "Reads Table \<in> session_accesses l s" for l s
    using that by (cases l) (auto split: option.splits)
qed

lemma outside_excluded: "excluded session_holds (fst (\<lambda>i. Outside, no_sessions))"
  by (simp add: excluded_free)

lemma run_excluded: "session_threads_run ttl n flags evs (ls, s) \<Longrightarrow> excluded session_holds ls"
  using excluded_run [OF _ outside_excluded] by fastforce


subsection \<open>Every request takes effect at one moment\<close>

text \<open>What a thread was last asked.\<close>

fun asked :: "(nat \<times> session_event) list \<Rightarrow> nat \<Rightarrow> (request \<times> response) option" where
  "asked [] i = None"
| "asked (ev # evs) i =
     (case asked evs i of
        Some c \<Rightarrow> Some c
      | None \<Rightarrow> (case ev of (j, Arrive req res) \<Rightarrow> if j = i then Some (req, res) else None | _ \<Rightarrow> None))"

lemma asked_snoc:
  "asked (evs @ [(j, e)]) i =
     (case e of Arrive req res \<Rightarrow> if j = i then Some (req, res) else asked evs i | _ \<Rightarrow> asked evs i)"
  by (induction evs) (auto split: session_event.splits option.splits)

lemma session_id_same [simp]: "session_id n (req\<lparr>rq_session := x\<rparr>) = session_id n req"
  by (simp add: session_id_def getHeader_def)

text \<open>The session of a request is the one its cookie names, or the one the response tells the client.\<close>

definition attached :: "string \<Rightarrow> string \<Rightarrow> request \<Rightarrow> response \<Rightarrow> sessions \<Rightarrow> bool" where
  "attached n flags req res s \<longleftrightarrow>
     (\<exists>a. rq_session req = Some a \<and> a < ss_next s \<and>
       (session_id n req = Some (sd_id (ss_objs s a))
        \<or> rs_headers res ''Set-Cookie'' = Some (set_cookie n (sd_id (ss_objs s a)) flags)))"

fun position_ok :: "string \<Rightarrow> string \<Rightarrow> position \<Rightarrow> sessions \<Rightarrow> bool" where
  "position_ok n flags (Looking sid req res) s = (sid = session_id n req)"
| "position_ok n flags (Touching a req res) s = (\<exists>i. session_id n req = Some i \<and> ss_storage s i = Some a)"
| "position_ok n flags (Missed sid req res) s = (sid = session_id n req)"
| "position_ok n flags (Replacing sid req res) s = (sid = session_id n req)"
| "position_ok n flags (Inside req res) s = attached n flags req res s"
| "position_ok n flags (Setting key val req res) s = attached n flags req res s"
| "position_ok n flags (Getting key req res) s = attached n flags req res s"
| "position_ok n flags Outside s = True"
| "position_ok n flags Sweeping s = True"

text \<open>What the steps of the others may do to the sessions: the objects in use keep their
  identifiers, and without the exclusive lock the table stays.\<close>

lemma session_move_frame:
  assumes "session_move ttl n flags e (p, s) (p', s')"
  shows "ss_next s \<le> ss_next s' \<and> (\<forall>a < ss_next s. sd_id (ss_objs s' a) = sd_id (ss_objs s a))
    \<and> (session_holds p \<noteq> Exclusive \<longrightarrow> ss_storage s' = ss_storage s)"
  using assms
  by (cases rule: session_moveE)
    (auto simp: touch_session_def create_session_def forget_session_def update_session_def session_set_def
      session_cleanup_def Let_def split: option.splits)

lemma attached_frame:
  assumes "attached n flags req res s" and "ss_next s \<le> ss_next s'"
    and "\<forall>a < ss_next s. sd_id (ss_objs s' a) = sd_id (ss_objs s a)"
  shows "attached n flags req res s'"
  using assms by (auto simp: attached_def)

lemma position_ok_frame:
  assumes "position_ok n flags p s" and "ss_next s \<le> ss_next s'"
    and "\<forall>a < ss_next s. sd_id (ss_objs s' a) = sd_id (ss_objs s a)"
    and "session_holds p = Shared \<Longrightarrow> ss_storage s' = ss_storage s"
  shows "position_ok n flags p s'"
  using assms by (cases p) (auto intro: attached_frame)

lemma attached_created:
  assumes "create_session ttl n flags env (req, res, s) = (req', res', s')"
  shows "attached n flags req' res' s'"
  using assms by (auto simp: create_session_def attached_def res_header_def Let_def)

lemma attached_touched:
  assumes "sessions_ok s" and "session_id n req = Some i" and "ss_storage s i = Some a"
  shows "attached n flags (req\<lparr>rq_session := Some a\<rparr>) res (touch_session t a s)"
  using assms by (auto simp: attached_def touch_session_def sessions_ok_def)

lemma position_ok_moves:
  assumes "session_move ttl n flags e (p, s) (p', s')" and "position_ok n flags p s" and "sessions_ok s"
  shows "position_ok n flags p' s'"
  using assms(1)
proof (cases rule: session_moveE)
  case (Hit sid now a req res)
  then show ?thesis
    using assms(2) by (auto simp: live_session_def split: option.splits if_splits)
next
  case (Touch now a req res)
  with assms(2,3) show ?thesis by (auto intro: attached_touched)
next
  case (Create env req res sid req' res')
  then show ?thesis by (auto intro: attached_created)
next
  case (Set req key val res)
  from session_move_frame [OF assms(1)] assms(2) Set show ?thesis by (auto intro: attached_frame)
qed (use assms(2) in auto)

lemma touch_atomic:
  assumes "session_id n req = Some i" and "ss_storage s i = Some a"
    and "env = \<lparr>se_check = sd_expires (ss_objs s a) - 1, se_touch = now, se_create = now, se_random = r\<rparr>"
  shows "session_step ttl n flags env (req, res, s) = (req\<lparr>rq_session := Some a\<rparr>, res, touch_session (now + ttl) a s)"
  using assms by (simp add: session_step_def find_session_def touch_session_def)

lemma replace_atomic:
  assumes "find_session (session_id n req) env s = None"
  shows "session_step ttl n flags env (req, res, s) =
    create_session ttl n flags env (req, res, forget_session (session_id n req) s)"
  using assms by (simp add: session_step_def forget_session_def Let_def)

lemma create_session_env:
  "create_session ttl n flags (env\<lparr>se_check := t\<rparr>) c = create_session ttl n flags env c"
  by (simp add: create_session_def split: prod.split)

lemma find_session_late:
  "\<exists>t. find_session sid (env\<lparr>se_check := t\<rparr>) s = None"
proof (cases sid)
  case (Some i)
  then show ?thesis
    by (cases "ss_storage s i") (auto simp: find_session_def intro: exI [of _ "sd_expires (ss_objs s (the (ss_storage s i)))"])
qed (simp add: find_session_def)

lemma session_move_atomic:
  assumes "session_move ttl n flags e (p, s) (p', s')" and "position_ok n flags p s"
  shows "s' = s \<or> sessions_step s s'"
  using assms(1)
proof (cases rule: session_moveE)
  case (Touch now a req res)
  with assms(2) obtain i where i: "session_id n req = Some i" "ss_storage s i = Some a" by auto
  let ?env = "\<lparr>se_check = sd_expires (ss_objs s a) - 1, se_touch = now, se_create = now, se_random = \<lambda>k. replicate k 0\<rparr>"
  have "sessions_step s (touch_session (now + ttl) a s)"
    by (rule sessions_step.request [OF _ touch_atomic [where env = ?env and flags = flags and ttl = ttl and res = res, OF i refl]]) simp
  with Touch show ?thesis by simp
next
  case (Create env req res sid req' res')
  obtain t where t: "find_session (session_id n req) (env\<lparr>se_check := t\<rparr>) s = None"
    using find_session_late by blast
  have "session_step ttl n flags (env\<lparr>se_check := t\<rparr>) (req, res, s) = (req', res', s')"
    using Create assms(2) by (simp add: replace_atomic [OF t] create_session_env)
  from sessions_step.request [OF _ this] Create show ?thesis by simp
next
  case (Set req key val res)
  then show ?thesis by (cases "rq_session req") (auto simp: update_session_def intro: sessions_step.handler)
next
  case (Sweep now)
  then show ?thesis by (auto intro: sessions_step.cleanup)
qed simp_all

definition threads_ok :: "string \<Rightarrow> string \<Rightarrow> (position, sessions) threads \<Rightarrow> bool" where
  "threads_ok n flags c \<longleftrightarrow> excluded session_holds (fst c) \<and> sessions_step\<^sup>*\<^sup>* no_sessions (snd c)
     \<and> (\<forall>i. position_ok n flags (fst c i) (snd c))"

lemma threads_ok_step:
  assumes "session_threads ttl n flags ev (ls, s) (ls', s')" and "threads_ok n flags (ls, s)"
  shows "threads_ok n flags (ls', s')"
proof -
  have inv: "excluded session_holds ls" "sessions_step\<^sup>*\<^sup>* no_sessions s" "sessions_ok s" "\<And>i. position_ok n flags (ls i) s"
    using assms(2) by (auto simp: threads_ok_def intro: sessions_ok_reachable)
  have "sessions_step\<^sup>*\<^sup>* no_sessions s'"
    using assms(1)
  proof (cases rule: thread_step.cases)
    case (Move e i l)
    from session_move_atomic [OF Move(3) inv(4)] inv(2) show ?thesis
      by (auto intro: rtranclp.rtrancl_into_rtrancl)
  qed
  moreover have "position_ok n flags (ls' i) s'" for i
    using assms(1) inv(4)
  proof (rule positions_step)
    show "position_ok n flags l s'" if "session_move ttl n flags e (ls k, s) (l, s')" for k e l
      using position_ok_moves [OF that inv(4,3)] .
    show "position_ok n flags (ls j) s'" if move: "session_move ttl n flags e (ls k, s) (l, s')" and "j \<noteq> k" for j k e l
    proof -
      have "session_holds (ls k) \<noteq> Exclusive" if "session_holds (ls j) = Shared"
        using excludedD [OF inv(1), of k j] that \<open>j \<noteq> k\<close> by auto
      with session_move_frame [OF move] inv(4) [of j] show ?thesis by (auto intro: position_ok_frame)
    qed
  qed
  ultimately show ?thesis
    using excluded_step [OF assms(1)] inv(1) by (simp add: threads_ok_def)
qed

lemma threads_ok_run: "session_threads_run ttl n flags evs (ls, s) \<Longrightarrow> threads_ok n flags (ls, s)"
proof (induction "(ls, s)" arbitrary: ls s rule: run_of.induct)
  case Start
  show ?case by (simp add: threads_ok_def excluded_free)
next
  case (Step evs c ev)
  then show ?case by (cases c) (auto intro: threads_ok_step)
qed

fun asked_of :: "position \<Rightarrow> (request \<times> response) option" where
  "asked_of (Looking sid req res) = Some (req, res)"
| "asked_of (Touching a req res) = Some (req, res)"
| "asked_of (Missed sid req res) = Some (req, res)"
| "asked_of (Replacing sid req res) = Some (req, res)"
| "asked_of _ = None"

lemma asked_run:
  "session_threads_run ttl n flags evs (ls, s) \<Longrightarrow> asked_of (ls i) = Some c \<Longrightarrow> asked evs i = Some c"
proof (induction "(ls, s)" arbitrary: ls s rule: run_of.induct)
  case (Step evs c1 ev)
  obtain ls1 s1 j e where c1: "c1 = (ls1, s1)" and ev: "ev = (j, e)" by fastforce
  from Step.hyps(3) obtain l where l: "session_move ttl n flags e (ls1 j, s1) (l, s)" "ls = ls1(j := l)"
    unfolding c1 ev by (cases rule: thread_step.cases) auto
  note IH = Step.hyps(2) [OF c1]
  show ?case
  proof (cases "i = j")
    case True
    from l(1) show ?thesis
      by (cases rule: session_moveE) (use IH Step.prems l(2) True in \<open>auto simp: ev asked_snoc\<close>)
  next
    case False
    with IH Step.prems l(2) show ?thesis by (auto simp: ev asked_snoc split: session_event.split)
  qed
qed simp

text \<open>The readings of the clock in the order of a run.\<close>

fun reading :: "nat \<times> session_event \<Rightarrow> int option" where
  "reading (i, Look now) = Some now"
| "reading (i, Touch now) = Some now"
| "reading (i, Create env) = Some (se_create env)"
| "reading (i, Sweep now) = Some now"
| "reading (i, _) = None"

text \<open>What a thread's lookup read from the clock, and whether another thread has renewed or made a
  session since.\<close>

fun watch :: "nat \<Rightarrow> int option \<times> bool \<Rightarrow> nat \<times> session_event \<Rightarrow> int option \<times> bool" where
  "watch i (t, b) (j, Look now) = (if j = i then (Some now, False) else (t, b))"
| "watch i (t, b) (j, Touch now) = (t, b \<or> j \<noteq> i)"
| "watch i (t, b) (j, Create env) = (t, b \<or> j \<noteq> i)"
| "watch i (t, b) (j, _) = (t, b)"

definition looked :: "(nat \<times> session_event) list \<Rightarrow> nat \<Rightarrow> int option" where
  "looked evs i = fst (foldl (watch i) (None, False) evs)"

definition disturbed :: "(nat \<times> session_event) list \<Rightarrow> nat \<Rightarrow> bool" where
  "disturbed evs i = snd (foldl (watch i) (None, False) evs)"

lemma watched_snoc:
  "looked (evs @ [(j, e)]) i = (case e of Look now \<Rightarrow> if j = i then Some now else looked evs i | _ \<Rightarrow> looked evs i)"
  "disturbed (evs @ [(j, e)]) i =
     (case e of Look now \<Rightarrow> disturbed evs i \<and> j \<noteq> i | Touch now \<Rightarrow> disturbed evs i \<or> j \<noteq> i
      | Create env \<Rightarrow> disturbed evs i \<or> j \<noteq> i | _ \<Rightarrow> disturbed evs i)"
  by (cases e; cases "foldl (watch i) (None, False) evs"; simp add: looked_def disturbed_def)+

lemma readings_snoc: "List.map_filter reading (evs @ [ev]) = List.map_filter reading evs @ (case reading ev of None \<Rightarrow> [] | Some t \<Rightarrow> [t])"
  by (simp add: List.map_filter_def split: option.split)

lemma looked_reading: "looked evs i = Some t \<Longrightarrow> t \<in> set (List.map_filter reading evs)"
proof (induction evs rule: rev_induct)
  case (snoc ev evs)
  then show ?case
    by (cases ev) (auto simp: watched_snoc readings_snoc split: session_event.splits if_splits)
qed (simp add: looked_def)

text \<open>What the lookup said stays true until the thread acts on it, or another thread has renewed
  or made a session.\<close>

fun still_true :: "position \<Rightarrow> sessions \<Rightarrow> int option \<Rightarrow> bool \<Rightarrow> bool" where
  "still_true (Touching a req res) s t b = (\<exists>now. t = Some now \<and> now < sd_expires (ss_objs s a))"
| "still_true (Missed sid req res) s t b = (\<exists>now. t = Some now \<and> (b \<or> live_session sid now s = None))"
| "still_true (Replacing sid req res) s t b = (\<exists>now. t = Some now \<and> (b \<or> live_session sid now s = None))"
| "still_true _ s t b = True"

definition calm :: "session_event \<Rightarrow> bool" where
  "calm e \<longleftrightarrow> (case e of Touch now \<Rightarrow> False | Create env \<Rightarrow> False | _ \<Rightarrow> True)"

lemma calm_frame:
  assumes "session_move ttl n flags e (p, s) (p', s')" and "calm e"
  shows "sd_expires (ss_objs s' a) = sd_expires (ss_objs s a) \<and> (live_session sid now s = None \<longrightarrow> live_session sid now s' = None)"
  using assms(1)
proof (cases rule: session_moveE)
  case (Set req key val res)
  then show ?thesis
    by (auto simp: update_session_def session_set_def live_session_def split: option.splits if_splits)
next
  case (Sweep now)
  then show ?thesis
    by (auto simp: session_cleanup_def live_session_def split: option.splits if_splits)
qed (use assms(2) in \<open>auto simp: calm_def\<close>)

lemma still_true_calm:
  assumes "session_move ttl n flags e (q, s) (q', s')" and "calm e" and "still_true p s t b"
  shows "still_true p s' t b"
  using calm_frame [OF assms(1,2)] assms(3) by (cases p) auto

lemma still_true_others:
  assumes "session_move ttl n flags e (q, s) (q', s')" and "still_true p s t b"
    and "\<And>now later. t = Some now \<Longrightarrow> e = Touch later \<Longrightarrow> now < later + ttl"
    and "session_holds p = Shared \<Longrightarrow> session_holds q \<noteq> Exclusive"
  shows "still_true p s' t (b \<or> \<not> calm e)"
proof (cases "calm e")
  case True
  with still_true_calm [OF assms(1) True assms(2)] show ?thesis by simp
next
  case False
  from assms(1) show ?thesis
  proof (cases rule: session_moveE)
    case (Touch now a req res)
    with assms(2,3) show ?thesis by (cases p) (auto simp: calm_def touch_session_def)
  next
    case (Create env req res sid req' res')
    with assms(2,4) show ?thesis by (cases p) (auto simp: calm_def)
  qed (use False in \<open>simp_all add: calm_def\<close>)
qed

lemma still_true_run:
  "session_threads_run ttl n flags evs (ls, s) \<Longrightarrow> sorted (List.map_filter reading evs) \<Longrightarrow> 0 < ttl \<Longrightarrow>
    still_true (ls i) s (looked evs i) (disturbed evs i)"
proof (induction "(ls, s)" arbitrary: ls s rule: run_of.induct)
  case (Step evs c1 ev)
  obtain ls1 s1 j e where c1: "c1 = (ls1, s1)" and ev: "ev = (j, e)" by fastforce
  from Step.hyps(3) obtain l where l: "session_move ttl n flags e (ls1 j, s1) (l, s)" "ls = ls1(j := l)"
    unfolding c1 ev by (cases rule: thread_step.cases) auto
  have IH: "still_true (ls1 i) s1 (looked evs i) (disturbed evs i)"
    using Step.prems by (intro Step.hyps(2) [OF c1]) (simp_all add: readings_snoc sorted_append)
  show ?case
  proof (cases "i = j")
    case True
    from l(1) show ?thesis
      by (cases rule: session_moveE)
        (use IH l(2) True in \<open>auto simp: ev watched_snoc live_session_def split: option.splits if_splits\<close>)
  next
    case False
    have "now < later + ttl" if "looked evs i = Some now" "e = Touch later" for now later
      using looked_reading [OF that(1)] Step.prems by (auto simp: ev that(2) readings_snoc sorted_append)
    moreover have "session_holds (ls1 j) \<noteq> Exclusive" if "session_holds (ls1 i) = Shared"
      using excludedD [OF run_excluded [OF Step.hyps(1) [unfolded c1]], of j i] that False by auto
    ultimately have "still_true (ls1 i) s (looked evs i) (disturbed evs i \<or> \<not> calm e)"
      by (rule still_true_others [OF l(1) IH])
    moreover have "looked (evs @ [ev]) i = looked evs i" "disturbed (evs @ [ev]) i = (disturbed evs i \<or> \<not> calm e)"
      using False by (auto simp: ev watched_snoc calm_def split: session_event.split)
    ultimately show ?thesis using l(2) False by simp
  qed
qed simp

lemma live_find: "live_session sid now s = find_session sid (env\<lparr>se_check := now\<rparr>) s"
  by (simp add: live_session_def find_session_def cong: option.case_cong)

subsection \<open>Runs of two threads\<close>

abbreviation two :: "position \<Rightarrow> position \<Rightarrow> nat \<Rightarrow> position" where
  "two \<equiv> pair_of Outside"

lemmas first_goes = first_moves [where move = "session_move ttl n flags" and holds = session_holds and idle = Outside] for ttl n flags
lemmas second_goes = second_moves [where move = "session_move ttl n flags" and holds = session_holds and idle = Outside] for ttl n flags

lemma inside_free: "compatible session_holds (Inside req res) q" "session_holds Outside = Free"
  by (simp_all add: compatible_def)

text \<open>A client without a cookie gets a new session.\<close>

definition some_random :: session_env where
  "some_random = \<lparr>se_check = 0, se_touch = 0, se_create = 0, se_random = \<lambda>k. replicate k 7\<rparr>"

definition some_id :: string where
  "some_id = random_hex (se_random some_random) 32"

definition with_session :: "int \<Rightarrow> sessions \<Rightarrow> sessions" where
  "with_session expires s =
     s\<lparr>ss_storage := (ss_storage s)(some_id \<mapsto> ss_next s),
       ss_objs := (ss_objs s)(ss_next s := \<lparr>sd_expires = expires, sd_data = Map.empty, sd_id = some_id\<rparr>),
       ss_next := ss_next s + 1\<rparr>"

definition new_client :: "nat \<Rightarrow> request" where
  "new_client a = empty_request\<lparr>rq_session := Some a\<rparr>"

definition with_cookie :: "string \<Rightarrow> string \<Rightarrow> response \<Rightarrow> response" where
  "with_cookie n flags res = res_header ''Set-Cookie'' (set_cookie n some_id flags) res"

lemma no_cookie: "session_id n empty_request = None"
  by (simp add: session_id_def getHeader_def empty_request_def)

lemma first_replacing:
  assumes "session_threads_run ttl n flags evs (two Outside Outside, s)"
  shows "session_threads_run ttl n flags (evs @ [(0, Arrive empty_request new_response), (0, Look 0), (0, Lock)])
    (two (Replacing None empty_request new_response) Outside, s)"
proof -
  note move = first_goes [where q = Outside]
  have "session_threads_run ttl n flags (evs @ [(0, Arrive empty_request new_response)])
      (two (Looking None empty_request new_response) Outside, s)"
    by (rule move [OF assms]) (auto simp: compatible_def no_cookie intro: session_move.Arrive [of _ n _ empty_request, simplified no_cookie])
  then have "session_threads_run ttl n flags (evs @ [(0, Arrive empty_request new_response), (0, Look 0)])
      (two (Missed None empty_request new_response) Outside, s)"
    by (rule move) (auto simp: compatible_def live_session_def intro: session_move.Miss)
  then show ?thesis by (rule move) (auto simp: compatible_def intro: session_move.Lock)
qed

lemma replacing_new:
  "session_move ttl n flags (Create some_random) (Replacing None empty_request new_response, s)
    (Inside (new_client (ss_next s)) (with_cookie n flags new_response), with_session ttl s)"
  by (rule session_move.Create)
    (simp_all add: create_session_def forget_session_def with_session_def new_client_def with_cookie_def some_id_def
      some_random_def Let_def)

lemma first_creates:
  assumes "session_threads_run ttl n flags evs (two Outside Outside, s)"
  shows "session_threads_run ttl n flags (evs @ [(0, Arrive empty_request new_response), (0, Look 0), (0, Lock), (0, Create some_random)])
    (two (Inside (new_client (ss_next s)) (with_cookie n flags new_response)) Outside, with_session ttl s)"
  by (rule first_goes [OF first_replacing [OF assms] replacing_new]) (simp_all add: compatible_def)

text \<open>The same client again, with its cookie.\<close>

definition returning_client :: request where
  "returning_client = empty_request\<lparr>rq_headers := [''Cookie'' \<mapsto> cookie_header [(''session_id'', some_id)]]\<rparr>"

lemma some_id_valid: "valid_id some_id"
  unfolding some_id_def by (rule random_id_valid) (simp add: some_random_def)

lemma returning_id: "session_id ''session_id'' returning_client = Some some_id"
proof (rule session_id_header)
  have "CHR '';'' \<notin> set some_id" "CHR '' '' \<notin> set some_id"
    using some_id_valid by (auto simp: valid_id_iff hex_digits_def)
  then show "\<forall>kv \<in> set [(''session_id'', some_id)]. cookie_ok kv" by (simp add: cookie_ok_def)
qed (simp_all add: returning_client_def getHeader_def some_id_valid)

lemma returning_looks:
  assumes "session_threads_run ttl ''session_id'' flags evs (two p Outside, s)" and "compatible session_holds p (Looking None returning_client new_response)"
  shows "session_threads_run ttl ''session_id'' flags (evs @ [(1, Arrive returning_client new_response)])
    (two p (Looking (Some some_id) returning_client new_response), s)"
proof (rule second_goes [OF assms(1)])
  show "compatible session_holds p (Looking (Some some_id) returning_client new_response)"
    using assms(2) by (simp add: compatible_def)
qed (auto intro: session_move.Arrive [of _ "''session_id''" _ returning_client, simplified returning_id])

lemma sessions_made:
  "\<exists>evs s. session_threads_run ttl n flags evs (two Outside Outside, s) \<and> ss_next s = k"
proof (induction k)
  case 0
  have "ss_next no_sessions = 0" by (simp add: no_sessions_def)
  then show ?case
    by (intro exI conjI) (rule pair_start)
next
  case (Suc k)
  then obtain evs s where "session_threads_run ttl n flags evs (two Outside Outside, s)" and k: "ss_next s = k"
    by blast
  note made = first_creates [OF this(1)]
  show ?case
  proof (intro exI conjI)
    show "session_threads_run ttl n flags
        (evs @ [(0, Arrive empty_request new_response), (0, Look 0), (0, Lock), (0, Create some_random), (0, Leave)])
        (two Outside Outside, with_session ttl s)"
      by (rule first_goes [OF made session_move.Leave]) (simp_all add: compatible_def)
  qed (simp add: with_session_def k)
qed

lemma data_raced:
  "\<exists>evs c. session_threads_run 3600 ''session_id'' flags evs c \<and> race session_accesses (Data a) c"
proof -
  obtain evs s where "session_threads_run 3600 ''session_id'' flags evs (two Outside Outside, s)" and a: "ss_next s = a"
    using sessions_made by blast
  let ?s = "with_session 3600 s" and ?p = "Inside (new_client a) (with_cookie ''session_id'' flags new_response)"
  let ?req = "returning_client\<lparr>rq_session := Some a\<rparr>"
  note move1 = first_goes [OF _ _ refl] and move2 = second_goes [OF _ _ refl]
  obtain evs where "session_threads_run 3600 ''session_id'' flags evs (two ?p Outside, ?s)"
    using first_creates [OF \<open>session_threads_run _ _ _ _ _\<close>] unfolding a by blast
  then obtain evs where "session_threads_run 3600 ''session_id'' flags evs (two ?p (Looking (Some some_id) returning_client new_response), ?s)"
    using returning_looks by (fastforce simp: compatible_def)
  then obtain evs where "session_threads_run 3600 ''session_id'' flags evs (two ?p (Touching a returning_client new_response), ?s)"
    using move2 [OF _ session_move.Hit [of _ 0]]
    by (fastforce simp: compatible_def live_session_def with_session_def a)
  then obtain evs where "session_threads_run 3600 ''session_id'' flags evs (two ?p (Inside ?req new_response), touch_session (0 + 3600) a ?s)"
    using move2 [OF _ session_move.Touch] by (fastforce simp: compatible_def)
  then obtain evs where "session_threads_run 3600 ''session_id'' flags evs
      (two ?p (Setting ''k'' ''1'' ?req new_response), touch_session (0 + 3600) a ?s)"
    using move2 [OF _ session_move.Begin_set] by (fastforce simp: compatible_def)
  then obtain evs where run: "session_threads_run 3600 ''session_id'' flags evs
      (two (Setting ''k'' ''2'' (new_client a) (with_cookie ''session_id'' flags new_response))
        (Setting ''k'' ''1'' ?req new_response), touch_session (0 + 3600) a ?s)"
    using move1 [OF _ session_move.Begin_set] by (fastforce simp: compatible_def)
  have "race session_accesses (Data a) (two (Setting ''k'' ''2'' (new_client a) (with_cookie ''session_id'' flags new_response))
      (Setting ''k'' ''1'' ?req new_response), touch_session (0 + 3600) a ?s)"
    unfolding race_def by (intro exI [of _ 0] exI [of _ "Suc 0"]) (simp add: pair_of_def new_client_def)
  with run show ?thesis by blast
qed

subsection \<open>Properties\<close>

text \<open>C6. Requests that run at the same time take effect one after the other. In every interleaving
  in which the clock does not run backwards, for sessions with a positive lifetime, each step of a thread is one of these: the one moment at
  which the whole session middleware of a request that finds its session happens, with the request
  that was asked, the time its own lookup read for the test of the expiry and the time it reads now
  for the renewal; the one moment at which the whole middleware of a request that finds no session
  happens, tested at the time of its own lookup, unless another thread has renewed or made a session
  since and the session it is about to replace is alive again, in which case that session is erased
  and replaced all the same; a handler's write to the session of its own request; a sweep; or a step
  that changes no session.\<close>

theorem session_requests_atomic:
  assumes "session_threads_run ttl n flags evs (ls, s)" and "session_threads ttl n flags (i, e) (ls, s) (ls', s')"
    and "sorted (List.map_filter reading evs)" and "0 < ttl"
  shows "case e of
      Touch now \<Rightarrow> \<exists>req res req' res' t. asked evs i = Some (req, res) \<and> looked evs i = Some t \<and> ls' i = Inside req' res'
        \<and> session_step ttl n flags (env0\<lparr>se_check := t, se_touch := now\<rparr>) (req, res, s) = (req', res', s')
    | Create env \<Rightarrow> \<exists>req res req' res' t. asked evs i = Some (req, res) \<and> looked evs i = Some t \<and> ls' i = Inside req' res'
        \<and> (if find_session (session_id n req) (env\<lparr>se_check := t\<rparr>) s = None
           then session_step ttl n flags (env\<lparr>se_check := t\<rparr>) (req, res, s) = (req', res', s')
           else disturbed evs i
             \<and> create_session ttl n flags env (req, res, forget_session (session_id n req) s) = (req', res', s'))
    | Set \<Rightarrow> \<exists>key val req res. ls i = Setting key val req res \<and> ls' i = Inside req res
        \<and> update_session (rq_session req) (session_set key val) s = Inr s'
    | Sweep now \<Rightarrow> s' = session_cleanup now s
    | _ \<Rightarrow> s' = s"
proof -
  from assms(2) obtain l where move: "session_move ttl n flags e (ls i, s) (l, s')" and ls': "ls' = ls(i := l)"
    by (cases rule: thread_step.cases) auto
  have ok: "position_ok n flags (ls i) s"
    using threads_ok_run [OF assms(1)] by (simp add: threads_ok_def)
  note asked = asked_run [OF assms(1), of i]
  note still = still_true_run [OF assms(1,3,4), of i]
  from move show ?thesis
  proof (cases rule: session_moveE)
    case (Touch now a req res)
    with ok obtain k where k: "session_id n req = Some k" "ss_storage s k = Some a" by auto
    from still Touch obtain t where t: "looked evs i = Some t" "t < sd_expires (ss_objs s a)" by auto
    have "session_step ttl n flags (env0\<lparr>se_check := t, se_touch := now\<rparr>) (req, res, s)
        = (req\<lparr>rq_session := Some a\<rparr>, res, touch_session (now + ttl) a s)"
      using k t by (simp add: session_step_def find_session_def touch_session_def)
    with Touch asked t show ?thesis by (force simp: ls')
  next
    case (Create env req res sid req' res')
    from still Create ok obtain t where t: "looked evs i = Some t"
      "disturbed evs i \<or> find_session (session_id n req) (env\<lparr>se_check := t\<rparr>) s = None"
      by (auto simp: live_find [where env = env])
    have "session_step ttl n flags (env\<lparr>se_check := t\<rparr>) (req, res, s) = (req', res', s')"
      if "find_session (session_id n req) (env\<lparr>se_check := t\<rparr>) s = None"
      using Create ok by (simp add: replace_atomic [OF that] create_session_env)
    with Create ok asked t show ?thesis by (auto simp: ls')
  qed (auto simp: ls')
qed

text \<open>C5. Sessions stay isolated under concurrent requests: in every interleaving of any number of
  requests, handlers and sweeps, the session in which a handler runs is the one its request's
  cookie names or the one whose identifier its response sets as the cookie, and no other
  identifier of the table leads to it.\<close>

theorem concurrent_sessions_isolated:
  assumes "session_threads_run ttl n flags evs (ls, s)" and "ls i = Inside req res"
  shows "\<exists>a. rq_session req = Some a \<and> a < ss_next s
    \<and> (session_id n req = Some (sd_id (ss_objs s a))
        \<or> rs_headers res ''Set-Cookie'' = Some (set_cookie n (sd_id (ss_objs s a)) flags))
    \<and> (\<forall>k. ss_storage s k = Some a \<longrightarrow> k = sd_id (ss_objs s a))"
proof -
  have ok: "threads_ok n flags (ls, s)" by (rule threads_ok_run) (rule assms(1))
  then have "attached n flags req res s"
    using assms(2) by (auto simp: threads_ok_def dest: spec [of _ i])
  moreover have "sessions_ok s" using ok by (auto simp: threads_ok_def intro: sessions_ok_reachable)
  ultimately show ?thesis by (auto simp: attached_def sessions_ok_def)
qed

text \<open>C19. What concurrent requests race for, and what they do not: with the middleware as
  \<^verbatim>\<open>App::session()\<close> sets it up, no two threads ever race for the table of sessions, and
  for the data of every session two handlers of the same client can, because
  \<^verbatim>\<open>SessionData::set\<close> and \<^verbatim>\<open>get\<close> take no lock.\<close>

theorem raced_cells:
  "{x. \<exists>evs c. session_threads_run 3600 ''session_id'' flags evs c \<and> race session_accesses x c} = range Data"
proof (intro set_eqI iffI)
  fix x assume "x \<in> {x. \<exists>evs c. session_threads_run 3600 ''session_id'' flags evs c \<and> race session_accesses x c}"
  then show "x \<in> range Data"
    using table.race_free [OF _ outside_excluded] by (cases x) auto
qed (use data_raced in auto)

definition other_random :: "int \<Rightarrow> session_env" where
  "other_random now = \<lparr>se_check = now, se_touch = now, se_create = now, se_random = \<lambda>k. replicate k 8\<rparr>"

definition replaced :: "int \<Rightarrow> sessions \<Rightarrow> sessions" where
  "replaced expires s =
     \<lparr>ss_storage = (ss_storage s)(some_id := None, random_hex (\<lambda>k. replicate k 8) 32 \<mapsto> ss_next s),
      ss_objs = (ss_objs s)(ss_next s := \<lparr>sd_expires = expires, sd_data = Map.empty,
        sd_id = random_hex (\<lambda>k. replicate k 8) 32\<rparr>),
      ss_next = ss_next s + 1\<rparr>"

lemma other_id: "random_hex (\<lambda>k. replicate k 8) 32 \<noteq> some_id"
  by (simp add: some_id_def some_random_def random_hex_def) code_simp

lemma replacing_returning:
  "session_move ttl n flags (Create (other_random now)) (Replacing (Some some_id) returning_client new_response, s)
    (Inside (returning_client\<lparr>rq_session := Some (ss_next s)\<rparr>)
       (res_header ''Set-Cookie'' (set_cookie n (random_hex (\<lambda>k. replicate k 8) 32) flags) new_response),
     replaced (now + ttl) s)"
  by (rule session_move.Create)
    (simp_all add: create_session_def forget_session_def replaced_def other_random_def Let_def)

text \<open>A session that is in use can be lost: at the second in which a session expires, one request
  of its client can find it and renew it while another request, which saw it expired, goes on to
  erase it without looking again. No clock goes back; the first request is served in the session,
  whose expiry lies an hour ahead, its client is told of no new cookie, and from then on no
  request with its cookie finds the session.\<close>

theorem renewed_session_lost:
  "\<exists>evs p s. session_threads_run 3600 ''session_id'' flags evs
       (two p (Inside (returning_client\<lparr>rq_session := Some 0\<rparr>) new_response), s)
    \<and> sorted (List.map_filter reading evs) \<and> last (List.map_filter reading evs) = 3600
    \<and> session_id ''session_id'' returning_client = Some (sd_id (ss_objs s 0)) \<and> sd_expires (ss_objs s 0) = 7200
    \<and> (\<forall>env. find_session (session_id ''session_id'' returning_client) env s = None)"
proof -
  let ?made = "[(0, Arrive empty_request new_response), (0, Look 0), (0, Lock), (0, Create some_random)]"
  let ?s = "with_session 3600 no_sessions" and ?r = returning_client
  let ?in = "Inside (?r\<lparr>rq_session := Some 0\<rparr>) new_response" and ?c = new_response
  let ?t = "touch_session (3600 + 3600) 0 ?s"
  let ?look = "Looking (Some some_id) ?r ?c" and ?missed = "Missed (Some some_id) ?r ?c"
  have arrive: "session_move 3600 ''session_id'' flags (Arrive ?r ?c) (Outside, s) (?look, s)" for s
    using session_move.Arrive [of _ "''session_id''" _ ?r] by (simp only: returning_id)
  have live: "live_session (Some some_id) 3599 ?s = Some 0" "live_session (Some some_id) 3600 ?s = None"
    by (simp_all add: live_session_def with_session_def no_sessions_def)
  note free = compatible_def
  from first_creates [OF pair_start] have "session_threads_run 3600 ''session_id'' flags ?made
      (two (Inside (new_client 0) (with_cookie ''session_id'' flags ?c)) Outside, ?s)"
    by (simp add: no_sessions_def)
  then have "session_threads_run 3600 ''session_id'' flags (?made @ [(0, Leave)]) (two Outside Outside, ?s)"
    by (rule first_goes) (simp_all add: free session_move.Leave)
  then have "session_threads_run 3600 ''session_id'' flags (?made @ [(0, Leave), (1, Arrive ?r ?c)]) (two Outside ?look, ?s)"
    by (rule second_goes [OF _ arrive]) (simp_all add: free)
  then have "session_threads_run 3600 ''session_id'' flags (?made @ [(0, Leave), (1, Arrive ?r ?c), (1, Look 3599)])
      (two Outside (Touching 0 ?r ?c), ?s)"
    by (rule second_goes [OF _ session_move.Hit [OF live(1)]]) (simp_all add: free)
  then have "session_threads_run 3600 ''session_id'' flags (?made @ [(0, Leave), (1, Arrive ?r ?c), (1, Look 3599), (0, Arrive ?r ?c)])
      (two ?look (Touching 0 ?r ?c), ?s)"
    by (rule first_goes [OF _ arrive]) (simp_all add: free)
  then have "session_threads_run 3600 ''session_id'' flags (?made @ [(0, Leave), (1, Arrive ?r ?c), (1, Look 3599), (0, Arrive ?r ?c), (0, Look 3600)])
      (two ?missed (Touching 0 ?r ?c), ?s)"
    by (rule first_goes [OF _ session_move.Miss [OF live(2)]]) (simp_all add: free)
  then have "session_threads_run 3600 ''session_id'' flags (?made @ [(0, Leave), (1, Arrive ?r ?c), (1, Look 3599), (0, Arrive ?r ?c), (0, Look 3600),
      (1, Touch 3600)]) (two ?missed ?in, ?t)"
    by (rule second_goes [OF _ session_move.Touch]) (simp_all add: free)
  then have "session_threads_run 3600 ''session_id'' flags (?made @ [(0, Leave), (1, Arrive ?r ?c), (1, Look 3599), (0, Arrive ?r ?c), (0, Look 3600),
      (1, Touch 3600), (0, Lock)]) (two (Replacing (Some some_id) ?r ?c) ?in, ?t)"
    by (rule first_goes [OF _ session_move.Lock]) (simp_all add: free)
  note first_goes [OF this replacing_returning [where now = 3600] refl inside_free]
  moreover have "\<forall>env. find_session (Some some_id) env (replaced (3600 + 3600) ?t) = None"
    using other_id by (simp add: find_session_def replaced_def)
  ultimately show ?thesis
    by (intro exI conjI) (auto simp: List.map_filter_def returning_id replaced_def touch_session_def
      with_session_def no_sessions_def other_random_def some_random_def)
qed

subsection \<open>Witnesses\<close>

theorem session_requests_atomic_witness:
  "\<exists>req res req' res' t. asked [(0, Arrive empty_request new_response), (0, Look 0), (0, Lock)] 0 = Some (req, res)
     \<and> session_step 60 ''sid'' ''F'' (some_random\<lparr>se_check := t\<rparr>) (req, res, no_sessions) = (req', res', with_session 60 no_sessions)"
proof -
  have "session_threads 60 ''sid'' ''F'' (0, Create some_random) (two (Replacing None empty_request new_response) Outside, no_sessions)
      (two (Inside (new_client 0) (with_cookie ''sid'' ''F'' new_response)) Outside, with_session 60 no_sessions)"
    by (rule thread_stepI, simp add: pair_of_def, rule replacing_new [of _ _ _ no_sessions, unfolded no_sessions_def sessions.select_convs, folded no_sessions_def])
      (simp_all add: pair_of_def may_hold_def fun_upd_twist)
  note atomic = session_requests_atomic [OF first_replacing [OF pair_start] this]
  have "find_session sid env no_sessions = None" for sid env
    by (simp add: find_session_def no_sessions_def split: option.split)
  with atomic show ?thesis
    by (simp add: List.map_filter_def looked_def) blast
qed

theorem concurrent_sessions_isolated_witness:
  "\<exists>a. rq_session (new_client 0) = Some a \<and> sd_id (ss_objs (with_session 60 no_sessions) a) = some_id
     \<and> (\<forall>k. ss_storage (with_session 60 no_sessions) k = Some a \<longrightarrow> k = some_id)"
proof -
  let ?p = "Inside (new_client 0) (with_cookie ''sid'' ''F'' new_response)"
  have next0: "ss_next no_sessions = 0" by (simp add: no_sessions_def)
  have "two ?p Outside 0 = ?p" by (simp add: pair_of_def)
  note isolated = concurrent_sessions_isolated [OF first_creates [OF pair_start, of 60 "''sid''" "''F''", unfolded next0] this]
  have "sd_id (ss_objs (with_session 60 no_sessions) 0) = some_id" by (simp add: with_session_def next0)
  moreover have "rq_session (new_client 0) = Some 0" by (simp add: new_client_def)
  ultimately show ?thesis using isolated by (metis option.inject)
qed

end
