(* ===== verification/Guard_Threads.thy ===== *)
theory Guard_Threads
  imports Path_Guard Threads
begin

section \<open>The path guard under concurrent requests\<close>

text \<open>
  \<open>PathGuard::check\<close> of \<^verbatim>\<open>src/security/path_guard.cpp\<close>, run by many workers at once.
  The mutex is taken twice, once to ask whether the client is on the blacklist and once to put it
  there; between the two the lists of paths are searched without it. A request whose path is not
  on the lists is answered by what the blacklist said first, and one whose path is on them by what
  its own insertion makes of it.
\<close>

datatype position = Idle | Asking request | Searching request | Adding request | Answered request bool

datatype guard_event = Check request | Ask | Search | Insert | Return request bool

text \<open>The three searches of \<open>check\<close>.\<close>

definition listed :: "request \<Rightarrow> path_guard \<Rightarrow> bool" where
  "listed req g \<longleftrightarrow> rq_path req \<in> pg_exact g \<or> has_prefix_of (pg_prefix g) (rq_path req) \<or> has_ext_of (pg_exts g) (rq_path req)"

inductive guard_move :: "guard_event \<Rightarrow> position \<times> path_guard \<Rightarrow> position \<times> path_guard \<Rightarrow> bool" where
  Pass: "rq_client_ip req \<in> pg_whitelist g \<Longrightarrow> guard_move (Check req) (Idle, g) (Answered req False, g)"
| Check: "rq_client_ip req \<notin> pg_whitelist g \<Longrightarrow> guard_move (Check req) (Idle, g) (Asking req, g)"
| Blocked: "isBlocked (rq_client_ip req) g \<Longrightarrow> guard_move Ask (Asking req, g) (Answered req True, g)"
| Unknown: "\<not> isBlocked (rq_client_ip req) g \<Longrightarrow> guard_move Ask (Asking req, g) (Searching req, g)"
| Found: "listed req g \<Longrightarrow> guard_move Search (Searching req, g) (Adding req, g)"
| Not_found: "\<not> listed req g \<Longrightarrow> guard_move Search (Searching req, g) (Answered req False, g)"
| Insert: "guard_move Insert (Adding req, g) (Answered req True, blacklist_ip (rq_client_ip req) g)"
| Return: "guard_move (Return req b) (Answered req b, g) (Idle, g)"

inductive_cases guard_moveE [consumes 1, case_names Pass Check Blocked Unknown Found Not_found Insert Return]:
  "guard_move e (p, g) (p', g')"

fun guard_holds :: "position \<Rightarrow> hold" where
  "guard_holds (Asking req) = Exclusive"
| "guard_holds (Adding req) = Exclusive"
| "guard_holds _ = Free"

datatype cell = Whitelist | Blacklist | Lists

fun guard_accesses :: "position \<Rightarrow> path_guard \<Rightarrow> cell access set" where
  "guard_accesses Idle g = {Reads Whitelist}"
| "guard_accesses (Asking req) g = {Reads Blacklist}"
| "guard_accesses (Searching req) g = {Reads Lists}"
| "guard_accesses (Adding req) g = {Writes Blacklist}"
| "guard_accesses (Answered req b) g = {}"

abbreviation guard_threads ::
  "nat \<times> guard_event \<Rightarrow> (position, path_guard) threads \<Rightarrow> (position, path_guard) threads \<Rightarrow> bool" where
  "guard_threads \<equiv> thread_step guard_move guard_holds"

abbreviation guard_threads_run ::
  "path_guard \<Rightarrow> (nat \<times> guard_event) list \<Rightarrow> (position, path_guard) threads \<Rightarrow> bool" where
  "guard_threads_run g \<equiv> run_of guard_threads (\<lambda>i. Idle, g)"

interpretation blacklist: lock_discipline guard_move guard_holds guard_accesses Blacklist
proof unfold_locales
  show "guard_holds l = Exclusive" if "Writes Blacklist \<in> guard_accesses l s" for l s
    using that by (cases l) auto
  show "guard_holds l \<noteq> Free" if "Reads Blacklist \<in> guard_accesses l s" for l s
    using that by (cases l) auto
qed

text \<open>The lists and the whitelist are only read.\<close>

lemma only_blacklist_written: "Writes x \<in> guard_accesses p g \<Longrightarrow> x = Blacklist"
  by (cases p) auto

lemma guard_race_free:
  assumes "guard_threads_run g0 evs c"
  shows "\<not> race guard_accesses x c"
proof (cases "x = Blacklist")
  case True
  have "excluded guard_holds (fst (\<lambda>i. Idle, g0))" by (simp add: excluded_free)
  with blacklist.race_free [OF assms] True show ?thesis by blast
next
  case False
  then show ?thesis using only_blacklist_written by (auto simp: race_def)
qed

subsection \<open>The answers in the order in which they were decided\<close>

text \<open>What a thread has returned so far.\<close>

fun returned :: "(nat \<times> guard_event) list \<Rightarrow> nat \<Rightarrow> (request \<times> bool) list" where
  "returned [] i = []"
| "returned ((j, Return req b) # evs) i = (if j = i then [(req, b)] else []) @ returned evs i"
| "returned (_ # evs) i = returned evs i"

lemma returned_append: "returned (evs @ evs') i = returned evs i @ returned evs' i"
  by (induction evs i rule: returned.induct) auto

text \<open>The answer of a position that is decided and not yet returned.\<close>

fun decided :: "position \<Rightarrow> path_guard \<Rightarrow> (request \<times> bool) list" where
  "decided (Answered req b) g = [(req, b)]"
| "decided (Searching req) g = (if listed req g then [] else [(req, False)])"
| "decided _ g = []"

fun asks :: "position \<Rightarrow> request option" where
  "asks (Asking req) = Some req"
| "asks (Searching req) = Some req"
| "asks (Adding req) = Some req"
| "asks _ = None"

definition on_lists :: "position \<Rightarrow> path_guard \<Rightarrow> bool" where
  "on_lists p g \<longleftrightarrow> (\<forall>req. asks p = Some req \<longrightarrow> rq_client_ip req \<notin> pg_whitelist g)
     \<and> (\<forall>req. p = Adding req \<longrightarrow> listed req g)"

lemma listed_guarded: "listed req g \<longleftrightarrow> guarded g (rq_path req)"
  by (simp add: listed_def guarded_def has_prefix_of_def has_ext_of_def list_ex_iff substr_prefix substr_suffix)

lemma guard_run_snoc:
  "guard_run rs g = (bs, g') \<Longrightarrow> guard_check r g' = (b, g'') \<Longrightarrow> guard_run (rs @ [r]) g = (bs @ [b], g'')"
proof (induction rs arbitrary: g bs)
  case (Cons r' rs)
  from Cons.prems(1) obtain b1 g1 bs1 where "guard_check r' g = (b1, g1)" "guard_run rs g1 = (bs1, g')" "bs = b1 # bs1"
    by (auto simp: Let_def split: prod.splits)
  with Cons.IH [OF _ Cons.prems(2)] show ?case by simp
qed simp

lemma guard_move_lists:
  "guard_move e (p, g) (p', g') \<Longrightarrow>
    listed req g' = listed req g \<and> pg_whitelist g' = pg_whitelist g \<and> decided q g' = decided q g \<and> on_lists q g' = on_lists q g"
  by (erule guard_moveE) (cases q; simp add: listed_def blacklist_ip_def on_lists_def)+

lemma on_lists_moves: "guard_move e (p, g) (p', g') \<Longrightarrow> on_lists p g \<Longrightarrow> on_lists p' g'"
  by (erule guard_moveE) (auto simp: on_lists_def)

text \<open>Every step decides nothing, or one request, by the whole check at that moment.\<close>

lemma guard_move_decides:
  assumes "guard_move e (p, g) (p', g')" and "on_lists p g"
  shows "(g' = g \<and> decided p g @ [] = returned [(i, e)] i @ decided p' g')
    \<or> (\<exists>req b. guard_check req g = (b, g') \<and> decided p g @ [(req, b)] = returned [(i, e)] i @ decided p' g')"
  using assms(1)
proof (cases rule: guard_moveE)
  case (Insert req)
  then have "rq_client_ip req \<notin> pg_whitelist g" "listed req g" using assms(2) by (auto simp: on_lists_def)
  moreover have "blacklist_ip (rq_client_ip req) g = g" if "rq_client_ip req \<in> pg_blacklist g"
    using that by (simp add: blacklist_ip_def insert_absorb)
  ultimately show ?thesis using Insert by (auto simp: guard_check_eq listed_guarded)
qed (use assms(2) in \<open>auto simp: guard_check_eq listed_guarded on_lists_def isBlocked_def\<close>)

definition history_ok ::
  "path_guard \<Rightarrow> (nat \<times> guard_event) list \<Rightarrow> (position, path_guard) threads \<Rightarrow> (nat \<times> request \<times> bool) list \<Rightarrow> bool" where
  "history_ok g0 evs c hist \<longleftrightarrow>
     guard_run (map (\<lambda>(i, r, b). r) hist) g0 = (map (\<lambda>(i, r, b). b) hist, snd c)
     \<and> (\<forall>i. on_lists (fst c i) (snd c) \<and> map snd (filter (\<lambda>x. fst x = i) hist) = returned evs i @ decided (fst c i) (snd c))"

lemma history_step:
  assumes "guard_threads (i, e) (ls, g) (ls', g')" and hist: "history_ok g0 evs (ls, g) hist"
  shows "\<exists>hist'. history_ok g0 (evs @ [(i, e)]) (ls', g') hist'"
proof -
  from assms(1) obtain l where move: "guard_move e (ls i, g) (l, g')" and ls': "ls' = ls(i := l)"
    by (cases rule: thread_step.cases) auto
  from hist have lists: "on_lists (ls j) g" and answers: "map snd (filter (\<lambda>x. fst x = j) hist) = returned evs j @ decided (ls j) g"
    and run: "guard_run (map (\<lambda>(i, r, b). r) hist) g0 = (map (\<lambda>(i, r, b). b) hist, g)" for j
    by (simp_all add: history_ok_def)
  note frame = guard_move_lists [OF move]
  have others: "returned (evs @ [(i, e)]) j = returned evs j \<and> decided (ls' j) g' = decided (ls j) g \<and> on_lists (ls' j) g'"
    if "j \<noteq> i" for j
    using that frame lists [of j] by (cases e) (auto simp: returned_append ls')
  have mine: "on_lists (ls' i) g'" using on_lists_moves [OF move lists] by (simp add: ls')
  from guard_move_decides [OF move lists, of i] consider
      "g' = g" "decided (ls i) g = returned [(i, e)] i @ decided l g'"
    | req b where "guard_check req g = (b, g')" "decided (ls i) g @ [(req, b)] = returned [(i, e)] i @ decided l g'"
    by auto
  then show ?thesis
  proof cases
    case 1
    have "map snd (filter (\<lambda>x. fst x = j) hist) = returned (evs @ [(i, e)]) j @ decided (ls' j) g'" for j
      using others [of j] answers [of j] 1(2) by (cases "j = i") (simp_all add: returned_append ls')
    moreover have "on_lists (ls' j) g'" for j using others [of j] mine by (cases "j = i") simp_all
    ultimately show ?thesis using run 1(1) by (intro exI [of _ hist]) (simp add: history_ok_def)
  next
    case 2
    have "map snd (filter (\<lambda>x. fst x = j) (hist @ [(i, req, b)])) = returned (evs @ [(i, e)]) j @ decided (ls' j) g'" for j
      using others [of j] answers [of j] 2(2) by (cases "j = i") (simp_all add: returned_append ls')
    moreover have "on_lists (ls' j) g'" for j using others [of j] mine by (cases "j = i") simp_all
    ultimately show ?thesis
      using guard_run_snoc [OF run 2(1)] by (intro exI [of _ "hist @ [(i, req, b)]"]) (simp add: history_ok_def)
  qed
qed

lemma history_run: "guard_threads_run g0 evs (ls, g) \<Longrightarrow> \<exists>hist. history_ok g0 evs (ls, g) hist"
proof (induction "(ls, g)" arbitrary: ls g rule: run_of.induct)
  case Start
  show ?case by (intro exI [of _ "[]"]) (simp add: history_ok_def on_lists_def)
next
  case (Step evs c ev)
  obtain ls1 g1 i e where "c = (ls1, g1)" "ev = (i, e)" by fastforce
  with Step history_step show ?case by blast
qed

lemma decided_length: "length (decided p g) \<le> 1"
  by (cases p) simp_all

subsection \<open>Properties\<close>

text \<open>C22. The path guard is linearizable: however the checks of concurrent requests interleave, there is
  one order of the requests in which checking them one after the other gives every thread the
  answers it got, in the order in which it got them, and leaves the lists as they are; at most
  the last answer of a thread is decided and not yet returned. And no two threads race for
  anything the guard keeps.\<close>

theorem path_guard_linearizable:
  assumes "guard_threads_run g0 evs (ls, g)"
  shows "(\<exists>hist. guard_run (map (\<lambda>(i, r, b). r) hist) g0 = (map (\<lambda>(i, r, b). b) hist, g)
      \<and> (\<forall>i. \<exists>pending. map snd (filter (\<lambda>x. fst x = i) hist) = returned evs i @ pending \<and> length pending \<le> 1))
    \<and> \<not> race guard_accesses x (ls, g)"
proof
  obtain hist where "history_ok g0 evs (ls, g) hist" using history_run [OF assms] by blast
  then show "\<exists>hist. guard_run (map (\<lambda>(i, r, b). r) hist) g0 = (map (\<lambda>(i, r, b). b) hist, g)
      \<and> (\<forall>i. \<exists>pending. map snd (filter (\<lambda>x. fst x = i) hist) = returned evs i @ pending \<and> length pending \<le> 1)"
    by (intro exI [of _ hist]) (use decided_length in \<open>auto simp: history_ok_def\<close>)
  show "\<not> race guard_accesses x (ls, g)" by (rule guard_race_free) (rule assms)
qed

subsection \<open>Witnesses\<close>

text \<open>A client's harmless request, asked before its offence is written down, still passes.\<close>

definition offence :: request where
  "offence = empty_request\<lparr>rq_client_ip := ''1'', rq_path := ''/.env''\<rparr>"

definition harmless :: request where
  "harmless = empty_request\<lparr>rq_client_ip := ''1'', rq_path := ''/''\<rparr>"

definition overlap :: "(nat \<times> guard_event) list" where
  "overlap = [(0, Check offence), (0, Ask), (1, Check harmless), (1, Ask), (0, Search), (0, Insert), (0, Return offence True),
     (1, Search), (1, Return harmless False)]"

lemmas guard_first_goes = first_moves [where move = guard_move and holds = guard_holds and idle = Idle]
lemmas guard_second_goes = second_moves [where move = guard_move and holds = guard_holds and idle = Idle]

lemma overlap_run: "\<exists>ls. guard_threads_run new_path_guard overlap (ls, blacklist_ip ''1'' new_path_guard)"
proof -
  let ?g = new_path_guard and ?g' = "blacklist_ip ''1'' new_path_guard"
  have facts: "rq_client_ip offence \<notin> pg_whitelist ?g" "\<not> isBlocked (rq_client_ip offence) ?g" "listed offence ?g"
    "rq_client_ip harmless \<notin> pg_whitelist ?g" "\<not> isBlocked (rq_client_ip harmless) ?g" "\<not> listed harmless ?g'"
    by (simp_all add: offence_def harmless_def new_path_guard_def isBlocked_def listed_guarded guarded_def blacklist_ip_def suffix_to_prefix)
  have ip: "rq_client_ip offence = ''1''" by (simp add: offence_def)
  have "guard_threads_run ?g [] (pair_of Idle Idle Idle, ?g)" by (rule pair_start)
  then have "guard_threads_run ?g [(0, Check offence)]
      (pair_of Idle (Asking offence) Idle, ?g)"
    by (rule guard_first_goes [OF _ guard_move.Check [OF facts(1)]]) (simp_all add: compatible_def)
  then have "guard_threads_run ?g [(0, Check offence), (0, Ask)]
      (pair_of Idle (Searching offence) Idle, ?g)"
    by (rule guard_first_goes [OF _ guard_move.Unknown [OF facts(2)]]) (simp_all add: compatible_def)
  then have "guard_threads_run ?g [(0, Check offence), (0, Ask), (1, Check harmless)]
      (pair_of Idle (Searching offence) (Asking harmless), ?g)"
    by (rule guard_second_goes [OF _ guard_move.Check [OF facts(4)]]) (simp_all add: compatible_def)
  then have "guard_threads_run ?g [(0, Check offence), (0, Ask), (1, Check harmless), (1, Ask)]
      (pair_of Idle (Searching offence) (Searching harmless), ?g)"
    by (rule guard_second_goes [OF _ guard_move.Unknown [OF facts(5)]]) (simp_all add: compatible_def)
  then have "guard_threads_run ?g [(0, Check offence), (0, Ask), (1, Check harmless), (1, Ask), (0, Search)]
      (pair_of Idle (Adding offence) (Searching harmless), ?g)"
    by (rule guard_first_goes [OF _ guard_move.Found [OF facts(3)]]) (simp_all add: compatible_def)
  then have "guard_threads_run ?g [(0, Check offence), (0, Ask), (1, Check harmless), (1, Ask), (0, Search), (0, Insert)]
      (pair_of Idle (Answered offence True) (Searching harmless), ?g')"
    by (rule guard_first_goes [OF _ guard_move.Insert [of offence, unfolded ip]]) (simp_all add: compatible_def)
  then have "guard_threads_run ?g [(0, Check offence), (0, Ask), (1, Check harmless), (1, Ask), (0, Search), (0, Insert), (0, Return offence True)]
      (pair_of Idle Idle (Searching harmless), ?g')"
    by (rule guard_first_goes [OF _ guard_move.Return]) (simp_all add: compatible_def)
  then have "guard_threads_run ?g [(0, Check offence), (0, Ask), (1, Check harmless), (1, Ask), (0, Search), (0, Insert), (0, Return offence True), (1, Search)]
      (pair_of Idle Idle (Answered harmless False), ?g')"
    by (rule guard_second_goes [OF _ guard_move.Not_found [OF facts(6)]]) (simp_all add: compatible_def)
  then have "guard_threads_run ?g overlap
      (pair_of Idle Idle Idle, ?g')"
    unfolding overlap_def by (rule guard_second_goes [OF _ guard_move.Return]) (simp_all add: compatible_def)
  then show ?thesis by blast
qed

theorem path_guard_linearizable_witness:
  "\<exists>hist. guard_run (map (\<lambda>(i, r, b). r) hist) new_path_guard = (map (\<lambda>(i, r, b). b) hist, blacklist_ip ''1'' new_path_guard)
     \<and> (\<exists>pending. map snd (filter (\<lambda>x. fst x = (1::nat)) hist) = (harmless, False) # pending)"
proof -
  obtain ls where run: "guard_threads_run new_path_guard overlap (ls, blacklist_ip ''1'' new_path_guard)"
    using overlap_run by blast
  have "returned overlap 1 = [(harmless, False)]" by (simp add: overlap_def)
  with path_guard_linearizable [OF run] show ?thesis by (metis append_Cons append_Nil)
qed

end
