(* ===== verification/Limiter_Threads.thy ===== *)
theory Limiter_Threads
  imports Rate_Limiter Threads
begin

section \<open>The rate limiter under concurrent requests\<close>

text \<open>
  The middleware of \<^verbatim>\<open>src/security/rate_limiter.cpp\<close>, run by many workers at once. It
  takes no lock: the table of buckets is looked up, extended and its buckets are read and written
  by all workers. The positions lie between its statements; a position carries the address of the
  client and the time the request read. For C++ the concurrent accesses are data races; the steps
  here are the ones that would remain if each statement at least ran in one piece. The number of
  threads is not bounded here; the pool has as many as the machine has hardware threads, and that
  many requests can be in the middleware at once.
\<close>

datatype position =
    Idle
  | Fetching string int
  | Initialising string int
  | Refilling string int
  | Testing string int
  | Taking string int
  | Admitted string int
  | Refused string int

text \<open>The step that fetches the bucket creates it with a reading of the clock of its own.\<close>

datatype limiter_event = Ask string int | Fetch int | Init | Refill | Test | Take | Leave

inductive limiter_move ::
  "(rat \<Rightarrow> rat) \<Rightarrow> int \<Rightarrow> int \<Rightarrow> limiter_event \<Rightarrow> position \<times> buckets \<Rightarrow> position \<times> buckets \<Rightarrow> bool"
  for rnd max_requests period_seconds where
  Ask: "limiter_move rnd max_requests period_seconds (Ask ip now) (Idle, bs) (Fetching ip now, bs)"
| Fetch: "limiter_move rnd max_requests period_seconds (Fetch t) (Fetching ip now, bs)
    (Initialising ip now, case bs ip of None \<Rightarrow> bs(ip \<mapsto> new_bucket t) | Some b \<Rightarrow> bs)"
| Init: "bs ip = Some b \<Longrightarrow> limiter_move rnd max_requests period_seconds Init (Initialising ip now, bs)
    (Refilling ip now, bs(ip \<mapsto> bucket_init max_requests now b))"
| Refill: "bs ip = Some b \<Longrightarrow> limiter_move rnd max_requests period_seconds Refill (Refilling ip now, bs)
    (Testing ip now, bs(ip \<mapsto> bucket_refill rnd max_requests period_seconds now b))"
| Enough: "bs ip = Some b \<Longrightarrow> dbl_at_least (bk_tokens b) 1 \<Longrightarrow>
    limiter_move rnd max_requests period_seconds Test (Testing ip now, bs) (Taking ip now, bs)"
| Empty: "bs ip = Some b \<Longrightarrow> \<not> dbl_at_least (bk_tokens b) 1 \<Longrightarrow>
    limiter_move rnd max_requests period_seconds Test (Testing ip now, bs) (Refused ip now, bs)"
| Take: "bs ip = Some b \<Longrightarrow> limiter_move rnd max_requests period_seconds Take (Taking ip now, bs)
    (Admitted ip now, bs(ip \<mapsto> b\<lparr>bk_tokens := dbl_add rnd (bk_tokens b) (Fin (-1))\<rparr>))"
| Leave: "p = Admitted ip now \<or> p = Refused ip now \<Longrightarrow> limiter_move rnd max_requests period_seconds Leave (p, bs) (Idle, bs)"

text \<open>There is no mutex to hold.\<close>

definition limiter_holds :: "position \<Rightarrow> hold" where
  "limiter_holds p = Free"

datatype cell = Table | Bucket string

fun limiter_accesses :: "position \<Rightarrow> buckets \<Rightarrow> cell access set" where
  "limiter_accesses (Fetching ip now) bs = (if bs ip = None then {Reads Table, Writes Table} else {Reads Table})"
| "limiter_accesses (Initialising ip now) bs = {Reads (Bucket ip), Writes (Bucket ip)}"
| "limiter_accesses (Refilling ip now) bs = {Reads (Bucket ip), Writes (Bucket ip)}"
| "limiter_accesses (Testing ip now) bs = {Reads (Bucket ip)}"
| "limiter_accesses (Taking ip now) bs = {Reads (Bucket ip), Writes (Bucket ip)}"
| "limiter_accesses _ bs = {}"

abbreviation limiter_threads ::
  "(rat \<Rightarrow> rat) \<Rightarrow> int \<Rightarrow> int \<Rightarrow> nat \<times> limiter_event \<Rightarrow> (position, buckets) threads \<Rightarrow> (position, buckets) threads \<Rightarrow> bool" where
  "limiter_threads rnd m p \<equiv> thread_step (limiter_move rnd m p) limiter_holds"

abbreviation limiter_threads_run ::
  "(rat \<Rightarrow> rat) \<Rightarrow> int \<Rightarrow> int \<Rightarrow> (nat \<times> limiter_event) list \<Rightarrow> (position, buckets) threads \<Rightarrow> bool" where
  "limiter_threads_run rnd m p \<equiv> run_of (limiter_threads rnd m p) (\<lambda>i. Idle, Map.empty)"

lemma no_lock: "may_hold limiter_holds ls i l"
  by (simp add: may_hold_def limiter_holds_def)

lemma limiter_goes:
  assumes "limiter_threads_run rnd m p evs (ls, bs)" and "ls i = q" and "limiter_move rnd m p e (q, bs) (l, bs')"
  shows "limiter_threads_run rnd m p (evs @ [(i, e)]) (ls(i := l), bs')"
  using assms(2,3) by (intro run_thread [OF assms(1) _ no_lock refl]) simp

lemma limiter_goes_on:
  assumes "limiter_threads_run rnd m p evs (ls(i := q), bs)" and "limiter_move rnd m p e (q, bs) (l, bs')"
  shows "limiter_threads_run rnd m p (evs @ [(i, e)]) (ls(i := l), bs')"
  using limiter_goes [OF assms(1) fun_upd_same assms(2)] by (simp only: fun_upd_upd)

subsection \<open>One request at a time\<close>

text \<open>The steps of one thread from its call to its decision. A request that nothing interrupts does
  what \<open>limiter_step\<close> says, which the bounds on the admitted requests are about.\<close>

definition decision_events :: "int \<Rightarrow> bool \<Rightarrow> limiter_event list" where
  "decision_events now allowed = [Fetch now, Init, Refill, Test] @ (if allowed then [Take] else [])"

lemma until_test:
  assumes "limiter_threads_run rnd m p evs (ls, bs)" and "ls i = Idle"
    and "b = bucket_refill rnd m p now (bucket_init m now (case bs ip of Some b \<Rightarrow> b | None \<Rightarrow> new_bucket now))"
  shows "limiter_threads_run rnd m p (evs @ map (Pair i) [Ask ip now, Fetch now, Init, Refill])
    (ls(i := Testing ip now), bs(ip \<mapsto> b))"
proof -
  let ?b = "case bs ip of Some b \<Rightarrow> b | None \<Rightarrow> new_bucket now"
  note go = limiter_goes_on
  have "limiter_threads_run rnd m p (evs @ [(i, Ask ip now)]) (ls(i := Fetching ip now), bs)"
    by (rule limiter_goes [OF assms(1,2) limiter_move.Ask])
  from go [OF this limiter_move.Fetch [of _ _ _ now]]
  have "limiter_threads_run rnd m p (evs @ [(i, Ask ip now), (i, Fetch now)]) (ls(i := Initialising ip now), bs(ip \<mapsto> ?b))"
    by (cases "bs ip") (simp_all add: fun_upd_idem)
  from go [OF this limiter_move.Init [of _ ip]]
  have "limiter_threads_run rnd m p (evs @ [(i, Ask ip now), (i, Fetch now), (i, Init)])
      (ls(i := Refilling ip now), bs(ip \<mapsto> bucket_init m now ?b))" by simp
  from go [OF this limiter_move.Refill [of _ ip]] show ?thesis by (simp add: assms(3))
qed

lemma one_request:
  assumes "limiter_threads_run rnd m p evs (ls, bs)" and "ls i = Idle"
    and "limiter_step rnd m p ip now bs = (allowed, bs')"
  shows "limiter_threads_run rnd m p (evs @ map (Pair i) (Ask ip now # decision_events now allowed))
    (ls(i := (if allowed then Admitted ip now else Refused ip now)), bs')"
proof -
  define b where "b = bucket_refill rnd m p now (bucket_init m now (case bs ip of Some b \<Rightarrow> b | None \<Rightarrow> new_bucket now))"
  note go = limiter_goes_on
  note before = until_test [OF assms(1,2) b_def]
  have step: "bucket_take rnd b = (allowed, the (bs' ip))" "bs' = bs(ip \<mapsto> the (bs' ip))"
    using assms(3) by (auto simp: limiter_step_def b_def Let_def split: prod.splits)
  show ?thesis
  proof (cases "dbl_at_least (bk_tokens b) 1")
    case True
    from go [OF before limiter_move.Enough [of _ ip]] True
    have "limiter_threads_run rnd m p (evs @ map (Pair i) [Ask ip now, Fetch now, Init, Refill, Test])
        (ls(i := Taking ip now), bs(ip \<mapsto> b))" by simp
    from go [OF this limiter_move.Take [of _ ip]] True step show ?thesis
      by (simp add: bucket_take_def decision_events_def)
  next
    case False
    from go [OF before limiter_move.Empty [of _ ip]] False step show ?thesis
      by (simp add: bucket_take_def decision_events_def)
  qed
qed

subsection \<open>Many requests at the same instant\<close>

definition full_bucket :: "int \<Rightarrow> int \<Rightarrow> bucket" where
  "full_bucket m now = \<lparr>bk_tokens = Fin (of_int m), bk_last = now, bk_initialized = True\<rparr>"

lemma refill_full:
  assumes "rnd 0 = 0" and "rnd (of_int m) = of_int m" and "0 < p" and "b = new_bucket now \<or> b = full_bucket m now"
  shows "bucket_refill rnd m p now (bucket_init m now b) = full_bucket m now"
proof -
  have "bucket_init m now b = full_bucket m now"
    using assms(4) by (auto simp: bucket_init_def new_bucket_def full_bucket_def)
  then show ?thesis
    using assms(1-3) by (simp add: bucket_refill_def full_bucket_def elapsed_seconds_def dbl_quotient_def)
qed

lemma all_test:
  assumes "rnd 0 = 0" and "rnd (of_int m) = of_int m" and "1 \<le> m" and "0 < p"
  shows "\<exists>evs bs. limiter_threads_run rnd m p evs (\<lambda>i. if i < k then Taking ip now else Idle, bs)
    \<and> (bs = Map.empty \<and> k = 0 \<or> bs ip = Some (full_bucket m now))"
proof (induction k)
  case 0
  show ?case using run_of.Start by fastforce
next
  case (Suc k)
  let ?ls = "\<lambda>k i. if i < k then Taking ip now else Idle"
  obtain evs bs where run: "limiter_threads_run rnd m p evs (?ls k, bs)"
    and bs: "bs = Map.empty \<or> bs ip = Some (full_bucket m now)"
    using Suc.IH by blast
  have "full_bucket m now = bucket_refill rnd m p now (bucket_init m now (case bs ip of Some b \<Rightarrow> b | None \<Rightarrow> new_bucket now))"
    using bs refill_full [OF assms(1,2,4)] by auto
  from until_test [OF run _ this, of k]
  have "limiter_threads_run rnd m p (evs @ map (Pair k) [Ask ip now, Fetch now, Init, Refill])
      ((?ls k)(k := Testing ip now), bs(ip \<mapsto> full_bucket m now))" by simp
  from limiter_goes_on [OF this limiter_move.Enough [of _ ip "full_bucket m now"]] assms(3)
  have "limiter_threads_run rnd m p ((evs @ map (Pair k) [Ask ip now, Fetch now, Init, Refill]) @ [(k, Test)])
      ((?ls k)(k := Taking ip now), bs(ip \<mapsto> full_bucket m now))"
    by (simp add: full_bucket_def)
  moreover have "(?ls k)(k := Taking ip now) = ?ls (Suc k)" by (auto simp: fun_eq_iff less_Suc_eq)
  ultimately have "limiter_threads_run rnd m p ((evs @ map (Pair k) [Ask ip now, Fetch now, Init, Refill]) @ [(k, Test)])
      (?ls (Suc k), bs(ip \<mapsto> full_bucket m now))" by (simp only:)
  then show ?case by (intro exI conjI disjI2) (assumption, simp)
qed

lemma all_take:
  assumes "limiter_threads_run rnd m p evs0 (\<lambda>i. if i < n then Taking ip now else Idle, bs0)" and "bs0 ip = Some b0"
    and "k \<le> n"
  shows "\<exists>evs bs b. limiter_threads_run rnd m p evs
    (\<lambda>i. if i < k then Admitted ip now else if i < n then Taking ip now else Idle, bs) \<and> bs ip = Some b"
  using assms(3)
proof (induction k)
  case 0
  from assms(1) have "limiter_threads_run rnd m p evs0 (\<lambda>i. if i < 0 then Admitted ip now else if i < n then Taking ip now else Idle, bs0)"
    by simp
  with assms(2) show ?case by blast
next
  case (Suc k)
  let ?ls = "\<lambda>k i. if i < k then Admitted ip now else if i < n then Taking ip now else Idle"
  obtain evs bs b where run: "limiter_threads_run rnd m p evs (?ls k, bs)" and b: "bs ip = Some b"
    using Suc by auto
  have "?ls k k = Taking ip now" using Suc.prems by simp
  from limiter_goes [OF run this limiter_move.Take [where bs = bs and ip = ip and b = b, OF b]]
  have "limiter_threads_run rnd m p (evs @ [(k, Take)])
      ((?ls k)(k := Admitted ip now), bs(ip \<mapsto> b\<lparr>bk_tokens := dbl_add rnd (bk_tokens b) (Fin (-1))\<rparr>))" .
  moreover have "(?ls k)(k := Admitted ip now) = ?ls (Suc k)" by (auto simp: fun_eq_iff less_Suc_eq)
  ultimately have "limiter_threads_run rnd m p (evs @ [(k, Take)])
      (?ls (Suc k), bs(ip \<mapsto> b\<lparr>bk_tokens := dbl_add rnd (bk_tokens b) (Fin (-1))\<rparr>))" by (simp only:)
  then show ?case by (intro exI conjI) (assumption, simp)
qed

subsection \<open>Properties\<close>

text \<open>C25. The rate limiter bounds nothing under concurrency: whatever the limit is, any number of requests
  of one client that arrive at the same instant can all be let through, even if every statement of
  the middleware ran in one piece. Each of them tests the bucket before any of them takes its
  token.\<close>

theorem concurrent_requests_exceed_limit:
  assumes "rnd 0 = 0" and "rnd (of_int m) = of_int m" and "1 \<le> m" and "0 < p"
  shows "\<exists>evs ls bs. limiter_threads_run rnd m p evs (ls, bs) \<and> card {i. ls i = Admitted ip now} = n"
proof (cases "n = 0")
  case True
  have "limiter_threads_run rnd m p [] (\<lambda>i. Idle, Map.empty)" by (rule run_of.Start)
  moreover have "card {i. (\<lambda>i. Idle) i = Admitted ip now} = n" for ip now using True by simp
  ultimately show ?thesis by blast
next
  case False
  obtain evs0 bs0 where "limiter_threads_run rnd m p evs0 (\<lambda>i. if i < n then Taking ip now else Idle, bs0)"
    and "bs0 ip = Some (full_bucket m now)"
    using all_test [OF assms, where k = n] False by blast
  from all_take [OF this, of n] obtain evs bs where run: "limiter_threads_run rnd m p evs
      (\<lambda>i. if i < n then Admitted ip now else if i < n then Taking ip now else Idle, bs)" by blast
  have "{i. (\<lambda>i. if i < n then Admitted ip now else if i < n then Taking ip now else Idle) i = Admitted ip now} = {..<n}"
    by auto
  then have "card {i. (\<lambda>i. if i < n then Admitted ip now else if i < n then Taking ip now else Idle) i = Admitted ip now} = n"
    by (simp only: card_lessThan)
  with run show ?thesis by (intro exI conjI)
qed

text \<open>The limiter takes no lock, so that two requests can race for the table of buckets and for every
  bucket in it.\<close>

theorem limiter_races:
  "{x. \<exists>evs c. limiter_threads_run rnd m p evs c \<and> race limiter_accesses x c} = UNIV"
proof -
  note first = first_moves [where move = "limiter_move rnd m p" and holds = limiter_holds and idle = Idle]
    and second = second_moves [where move = "limiter_move rnd m p" and holds = limiter_holds and idle = Idle]
    and free = compatible_def limiter_holds_def
  have ask: "limiter_threads_run rnd m p [(0, Ask ip 0), (1, Ask ip 0)] (pair_of Idle (Fetching ip 0) (Fetching ip 0), Map.empty)" for ip
  proof -
    have "limiter_threads_run rnd m p [(0, Ask ip 0)] (pair_of Idle (Fetching ip 0) Idle, Map.empty)"
      by (rule first [OF pair_start limiter_move.Ask]) (simp_all add: free)
    then show ?thesis by (rule second [OF _ limiter_move.Ask]) (simp_all add: free)
  qed
  have "race limiter_accesses Table (pair_of Idle (Fetching [] 0) (Fetching [] 0), Map.empty)"
    unfolding race_def by (intro exI [of _ 0] exI [of _ "Suc 0"]) (simp add: pair_of_def)
  with ask have table: "\<exists>evs c. limiter_threads_run rnd m p evs c \<and> race limiter_accesses Table c" by blast
  have bucket: "\<exists>evs c. limiter_threads_run rnd m p evs c \<and> race limiter_accesses (Bucket ip) c" for ip
  proof -
    have "limiter_threads_run rnd m p [(0, Ask ip 0), (1, Ask ip 0), (0, Fetch 0)]
        (pair_of Idle (Initialising ip 0) (Fetching ip 0), [ip \<mapsto> new_bucket 0])"
      by (rule first [OF ask limiter_move.Fetch [of _ _ _ 0 ip 0 Map.empty, simplified]]) (simp_all add: free)
    then have "limiter_threads_run rnd m p [(0, Ask ip 0), (1, Ask ip 0), (0, Fetch 0), (1, Fetch 0)]
        (pair_of Idle (Initialising ip 0) (Initialising ip 0), [ip \<mapsto> new_bucket 0])"
      by (rule second [OF _ limiter_move.Fetch [of _ _ _ 0 ip 0 "[ip \<mapsto> new_bucket 0]", simplified]]) (simp_all add: free)
    moreover have "race limiter_accesses (Bucket ip) (pair_of Idle (Initialising ip 0) (Initialising ip 0), [ip \<mapsto> new_bucket 0])"
      unfolding race_def by (intro exI [of _ 0] exI [of _ "Suc 0"]) (simp add: pair_of_def)
    ultimately show ?thesis by blast
  qed
  have "\<exists>evs c. limiter_threads_run rnd m p evs c \<and> race limiter_accesses x c" for x
    using table bucket by (cases x) blast+
  then show ?thesis by blast
qed

subsection \<open>Witnesses\<close>

theorem concurrent_requests_exceed_limit_witness:
  "\<exists>evs ls bs. limiter_threads_run (\<lambda>x. x) 2 60 evs (ls, bs) \<and> card {i. ls i = Admitted ''10.0.0.1'' 0} = 7"
  by (rule concurrent_requests_exceed_limit) simp_all

end
