(* ===== verification/Spec2Isabelle.thy ===== *)
theory Spec2Isabelle
  imports Prelude Numbers Url Config Multipart Request Request_Roundtrip Connection Response Router Middleware
    Path_Guard Crypto Session Csrf Cache Json Template_Engine Websocket Rate_Limiter Static_File File_Saver Thread_Pool
    World Server Serving Pipelines Server_Loop Sockets Tls_Context Session_Cleaner App Gates
    Pipelining Keep_Alive Upgrade Tls_Websocket Well_Formed File_Pages Error_Pages Config_Files Threads Session_Threads Guard_Threads Limiter_Threads
begin

text \<open>
  This library models yNet, a web framework in C++20: an HTTP server with routes, middlewares,
  sessions, static files, templates, uploads and WebSockets on top of epoll, threads and OpenSSL.
  It follows the sources under \<^verbatim>\<open>src/\<close> and \<^verbatim>\<open>include/ynet/\<close>
  function by function; the text in front of every theory names its files.

  \<^bold>\<open>The program.\<close> An \<open>App\<close> loads its configuration and owns a router, a file cache, a path guard
  and a \<open>Server\<close>. The calls of the program register routes and middlewares. \<open>Server::start\<close> runs
  the event loop: it accepts connections and, when one has something to say, hands it to the
  thread pool. A worker runs \<open>handleRequest\<close>: it reads the message from the non-blocking socket,
  parses it, either runs a WebSocket conversation or resolves the route and calls the chain of
  middlewares around the handler, sends the response, and gives the connection back to the event
  loop or drops it.

  \<^bold>\<open>The theories.\<close>
    \<^item> \<open>Prelude\<close>: exceptions as values, the searches and substrings of \<^verbatim>\<open>std::string\<close>,
      splitting, hash maps with their order of iteration, the interfaces \<open>codec\<close> (an encoder and
      its decoder) and \<open>transition_system\<close> (a step relation and its invariant), and runs with labels. \<open>Numbers\<close>:
      the character classes and the numeric conversions of the library.
    \<^item> \<open>Url\<close>, \<open>Config\<close>, \<open>Multipart\<close>, \<open>Crypto\<close>, \<open>Json\<close>, \<open>Template_Engine\<close>, \<open>File_Saver\<close>: the
      helpers of \<^verbatim>\<open>src/util/\<close>. \<open>Config_Files\<close>: configuration files in general.
    \<^item> \<open>Request\<close>, \<open>Response\<close>, \<open>Router\<close>, \<open>Static_File\<close>, \<open>Server\<close>: \<^verbatim>\<open>src/core/\<close>, with
      \<open>Request_Roundtrip\<close> for the parser on serialised messages, \<open>Serving\<close> for whole requests
      through \<open>handleRequest\<close>, \<open>Keep_Alive\<close> for the requests of one connection, \<open>Pipelining\<close> for requests that are sent ahead, \<open>File_Pages\<close>
      and \<open>Error_Pages\<close> for pages from files and pages for errors, \<open>Upgrade\<close> for those that
      become WebSocket conversations, and \<open>Server_Loop\<close> for \<open>start\<close> and \<open>stop\<close>.
    \<^item> \<open>Middleware\<close> (the chain, CORS, sanitizer, security headers, logger), \<open>Path_Guard\<close>,
      \<open>Session\<close>, \<open>Session_Cleaner\<close>, \<open>Csrf\<close>, \<open>Rate_Limiter\<close>, \<open>Tls_Context\<close>:
      \<^verbatim>\<open>src/security/\<close>. \<open>Pipelines\<close>, \<open>Gates\<close> and \<open>Well_Formed\<close> have the theorems
      about several of them at once.
    \<^item> \<open>Threads\<close>: threads that interleave, mutexes and data races. \<open>Session_Threads\<close>,
      \<open>Guard_Threads\<close>, \<open>Limiter_Threads\<close>: the three middlewares with state that is shared by the
      workers, one step for each statement or critical section.
    \<^item> \<open>Connection\<close>, \<open>Sockets\<close>, \<open>Thread_Pool\<close>, \<open>Websocket\<close>, \<open>Tls_Websocket\<close>: \<^verbatim>\<open>src/net/\<close>.
    \<^item> \<open>Cache\<close>: \<^verbatim>\<open>src/cache/\<close>. \<open>World\<close>: the state that the middlewares of one server
      share. \<open>App\<close>: \<^verbatim>\<open>src/app.cpp\<close>, from the constructor to \<open>listen\<close>.

  \<^bold>\<open>State and errors.\<close> Objects are records, and member functions take and return them. References
  that are shared are addresses: sessions (\<open>ss_objs\<close>), the buffers that parts of an upload view
  (\<open>heap\<close>), connection objects (\<open>sl_objs\<close>). A function that can throw returns \<open>Inl\<close> of an
  exception; \<open>Other_exception\<close> stands for thrown values that are not of a type derived from
  \<open>std::exception\<close>, \<open>Undefined_behaviour\<close> stands for what C++ leaves undefined (a null session, a view
  into a released buffer, a dead TLS object). A loop that need not end is a partial function, with
  \<open>None\<close> for not returning. What runs concurrently is a step relation over events: the pool, the
  event loop, the session cleaner, and concurrent requests in the session middleware, the path
  guard and the rate limiter.

  \<^bold>\<open>Interfaces.\<close> \<open>codec\<close> is met by the URL coding, Base64 and HTML escaping;
  \<open>transition_system\<close> by connections, sessions, the cache, the TLS contexts and the server as a whole;
  \<open>lock_discipline\<close> (who writes holds the mutex exclusively, who reads holds it) by the table of
  sessions and the blacklist;
  \<open>filter_middleware\<close> (a middleware that decides first and calls the rest last) by all middlewares
  but the logger; \<open>component\<close> and \<open>session_component\<close> by the fields of the shared state;
  \<open>cache_policy\<close> by the LRU policy; \<open>acquisition\<close> and \<open>managed\<close> (functions that open something and
  leave nothing behind when they fail) by binding, accepting, connecting, making TLS contexts and
  TLS objects; \<open>gate\<close> (a filter that decides by a step on a state of its own) by the rate limiter and
  the path guard.

  \<^bold>\<open>What the theorems show.\<close>
    \<^item> Requests: a serialised message that fits the limits is parsed back exactly, uploads and
      urlencoded forms included, and goes through the chain to its handler and back on the
      wire; a connection answers any number of requests one after the other, as an abstract protocol
      without bytes and segments says, as long as a body does not come in more segments than the server
      reads for it; a page from a file is the present content of the file; what
      the parser accepts is canonical and within the limits; which exceptions
      leave \<open>handleRequest\<close>: exactly those of the multipart parser, of WebSocket handlers, of the page
      for the error 500, and what is thrown and is not a \<open>std::exception\<close>; and a message that causes one.
    \<^item> Connections: each is served by one worker at a time, none is lost, no descriptor or TLS
      object leaks or is freed twice, unless a handler closes its connection itself, which can
      close another client's; a start that fails leaves nothing behind. A conversation over a WebSocket
      is served from the request that asks for it to the closing frame; with TLS the loop overlooks
      frames that share a record.
    \<^item> Security: sessions are isolated and resumed, what stands behind the CSRF check
      matters only to a \<open>GET\<close> with a session and to requests with the token that their session
      was given last, and a page's token is accepted until it is replaced or the session expires, the
      path guard shuts out exactly the offenders, the rate limiter bounds what it admits in every
      window, both also for whole applications with any layers behind them, static files stay below their root, templates escape what they insert.
    \<^item> Concurrency: requests that interleave in the session middleware take effect one after the
      other, each tested at the time its own lookup read, and sessions stay isolated; concurrent checks of the path guard are linearizable; the
      table of sessions and the blacklist are never raced for. The data of a session and the
      buckets of the rate limiter are, and a session can be erased that was just renewed.
    \<^item> State: sessions, guard, cache, buckets and responses are well-formed whenever an application
      serves, whatever calls set it up.
    \<^item> Configuration: a file means its settings one after the other, and every configuration can be
      written down and read back.
    \<^item> Formats: JSON, URL coding, Base64, WebSocket frames and multipart bodies round-trip;
      templates mean the left to right evaluation of their tags; the cache returns what the
      disk holds.
    \<^item> Progress: the JSON parser ends on every text, the pool finishes what was submitted and shuts
      down, the session cleaner ends after the stop flag, but the event loop does not.
    \<^item> Faults of the code are stated as theorems about the model where the code has them: bodies
      that pause, requests that are sent ahead, responses that are cut off, errors that are answered
      with 200, uploads between the two limits, bodies in many small segments, uploads that are to be
      saved, multipart CSRF tokens, CSRF without sessions.

  \<^bold>\<open>Bounds and fuel.\<close> \<open>renderString\<close> takes a depth because partials can include themselves for
  ever: every depth above the length of a template without partials is enough
  (\<open>template_terminates\<close>), more depth never changes a result (\<open>renderString_mono\<close>), and for a
  partial that includes itself no depth is enough. \<open>readFrame\<close> refuses payloads over its own
  limit. The length of a body is bounded by \<open>2 ^ 42\<close> in the theorems about whole requests so that
  the number of reads, which the code converts to \<^verbatim>\<open>int\<close>, does not wrap around.
  Sizes are natural numbers with the wrap-around of \<^verbatim>\<open>size_t\<close> written out
  (\<open>size_sub\<close>, \<open>size_add\<close>); doubles of the rate limiter are rationals with a rounding argument,
  infinities and NaN.

  \<^bold>\<open>Arguments of the model.\<close> What the sources call and do not contain: the hash functions and the
  random generator of OpenSSL, its handshake, context and object functions, the system calls on
  sockets and epoll, \<^verbatim>\<open>realpath\<close> and the files, the clocks, the conversion of
  doubles to text and back, the order of hash maps, the addresses the allocator returns, and the
  bytes of uninitialised buffers.

  \<^bold>\<open>Not modelled.\<close> Messages on the standard streams other than the lines of the logger; the bytes of
  TLS records (a connection with TLS is a wire with the same operations, whose segments are records); the formatting of the
  time in the log; what a data race makes of the memory: that the code races for the data of a
  session and the buckets of the rate limiter is proved, but a run goes on as if each statement
  were one step; the threads inside the file cache, whose every operation is one critical section,
  and the static buffer of \<^verbatim>\<open>localtime\<close> that the logger uses; signals other than an interrupted wait. The command line script
  under \<^verbatim>\<open>cli/\<close>, the installer, the build files and the docs are not part of the program's
  C++ code.
\<close>

end
